(* ===== verification/Prelude.thy ===== *)
theory Prelude
  imports Main "HOL-Library.Word"
begin

text \<open>
  Shared vocabulary of the gMaxLinked development: the integer types of
  src/src/common/BaseType.h as machine words, the ways a run of the server can
  go wrong as values of a datatype, and the C library primitives
  (\<open>memcpy\<close>, pointer differences, C strings, little-endian loads and
  stores) that every component uses, with the list and word lemmas their proofs
  share.  Linux on 64-bit x86 is the only platform the README supports, so
  integers are little-endian and a pointer is a 64-bit word.
\<close>

section \<open>Integer types\<close>

type_synonym ub1_ = "8 word"
type_synonym ub2_ = "16 word"
type_synonym ub4_ = "32 word"
type_synonym ub8_ = "64 word"
type_synonym b4_ = "32 word"

text \<open>A pointer is its address; the null pointer \<open>null_v\<close> is address 0.\<close>

abbreviation null_v :: ub8_ where
  "null_v \<equiv> 0"

section \<open>Faults\<close>

text \<open>
  The build (SConstruct) does not define \<open>NDEBUG\<close>, so a failing \<open>assert\<close>
  aborts the process.  Undefined behaviour is a fault as well: an access outside
  an object, a null pointer, a dereferenced end iterator, or a recursion that
  exhausts the stack.
\<close>

datatype fault = AssertFail | OutOfBounds | NullDeref | EndDeref | StackOverflow | ExitCall

type_synonym 'a result = "fault + 'a"

definition assertR :: "bool \<Rightarrow> 'a result \<Rightarrow> 'a result" where
  "assertR b k = (if b then k else Inl AssertFail)"

definition bindR :: "'a result \<Rightarrow> ('a \<Rightarrow> 'b result) \<Rightarrow> 'b result" where
  "bindR m f = (case m of Inl e \<Rightarrow> Inl e | Inr x \<Rightarrow> f x)"

definition returns :: "'a result \<Rightarrow> bool" where
  "returns m \<longleftrightarrow> (case m of Inl _ \<Rightarrow> False | Inr _ \<Rightarrow> True)"

named_theorems result_simps \<open>rewrite rules for sequencing of fallible code\<close>

lemma assertR_True [simp, result_simps]: "b \<Longrightarrow> assertR b k = k"
  by (simp add: assertR_def)

lemma assertR_False [simp, result_simps]: "\<not> b \<Longrightarrow> assertR b k = Inl AssertFail"
  by (simp add: assertR_def)

lemma assertR_Inr_iff [result_simps]: "assertR b k = Inr x \<longleftrightarrow> b \<and> k = Inr x"
  by (simp add: assertR_def)

lemma bindR_Inr [simp, result_simps]: "bindR (Inr x) f = f x"
  by (simp add: bindR_def)

lemma bindR_Inl [simp, result_simps]: "bindR (Inl e) f = Inl e"
  by (simp add: bindR_def)

lemma bindR_eq_Inr_iff [result_simps]:
  "bindR m f = Inr y \<longleftrightarrow> (\<exists>x. m = Inr x \<and> f x = Inr y)"
  by (cases m) (simp_all add: bindR_def)

lemma bindR_assoc: "bindR (bindR m f) g = bindR m (\<lambda>x. bindR (f x) g)"
  by (cases m) (simp_all add: bindR_def)

lemma returns_simps [simp]: "returns (Inr x)" "\<not> returns (Inl e)"
  by (simp_all add: returns_def)

lemma returns_iff: "returns m \<longleftrightarrow> (\<exists>x. m = Inr x)"
  by (cases m) auto

section \<open>Memory blocks\<close>

text \<open>
  A block of memory is the list of its bytes.  \<open>memcpy dst doff src soff n\<close>
  copies \<open>n\<close> bytes from offset \<open>soff\<close> of one block to offset \<open>doff\<close> of another;
  a copy that leaves either block is a fault.
\<close>

definition memcpy :: "'a list \<Rightarrow> nat \<Rightarrow> 'a list \<Rightarrow> nat \<Rightarrow> nat \<Rightarrow> 'a list result" where
  "memcpy dst doff src soff n =
     (if doff + n \<le> length dst \<and> soff + n \<le> length src
      then Inr (take doff dst @ take n (drop soff src) @ drop (doff + n) dst)
      else Inl OutOfBounds)"

lemma memcpy_ok:
  "doff + n \<le> length dst \<Longrightarrow> soff + n \<le> length src \<Longrightarrow>
   memcpy dst doff src soff n =
     Inr (take doff dst @ take n (drop soff src) @ drop (doff + n) dst)"
  by (simp add: memcpy_def)

lemma memcpy_length: "memcpy dst doff src soff n = Inr d \<Longrightarrow> length d = length dst"
  by (auto simp: memcpy_def split: if_splits)

text \<open>The bytes of a block from offset \<open>i\<close> up to, not including, offset \<open>j\<close>.\<close>

definition segment :: "nat \<Rightarrow> nat \<Rightarrow> 'a list \<Rightarrow> 'a list" where
  "segment i j xs = take (j - i) (drop i xs)"

lemma length_segment [simp]: "j \<le> length xs \<Longrightarrow> length (segment i j xs) = j - i"
  by (simp add: segment_def)

lemma segment_empty [simp]: "j \<le> i \<Longrightarrow> segment i j xs = []"
  by (simp add: segment_def)

lemma segment_0: "segment 0 j xs = take j xs"
  by (simp add: segment_def)

lemma segment_append_segment:
  assumes "i \<le> j" and "j \<le> k"
  shows "segment i j xs @ segment j k xs = segment i k xs"
proof -
  have "k - i = (j - i) + (k - j)" and "j = (j - i) + i"
    using assms by simp_all
  then show ?thesis
    unfolding segment_def by (metis drop_drop take_add)
qed

lemma take_segment: "n \<le> j - i \<Longrightarrow> take n (segment i j xs) = segment i (i + n) xs"
  by (simp add: segment_def min_def)

lemma drop_segment: "drop n (segment i j xs) = segment (i + n) j xs"
  by (simp add: segment_def drop_take add.commute)

lemma segment_overwrite_same:
  "i + length ys \<le> length xs \<Longrightarrow>
   segment i (i + length ys) (take i xs @ ys @ drop (i + length ys) xs) = ys"
  by (simp add: segment_def)

lemma segment_overwrite_before:
  "j \<le> d \<Longrightarrow> d \<le> length xs \<Longrightarrow> segment i j (take d xs @ zs) = segment i j xs"
  by (cases "i \<le> j") (simp_all add: segment_def drop_take min_def)

lemma segment_overwrite_after:
  "d + length ys \<le> i \<Longrightarrow> d + length ys \<le> length xs \<Longrightarrow>
   segment i j (take d xs @ ys @ drop (d + length ys) xs) = segment i j xs"
  by (simp add: segment_def min_def)

text \<open>The same facts in the shape \<open>memcpy\<close> leaves them in.\<close>

lemma segment_write_same:
  "i + n \<le> length xs \<Longrightarrow> o1 + n \<le> length b \<Longrightarrow>
   segment i (i + n) (take i xs @ take n (drop o1 b) @ drop (i + n) xs) = take n (drop o1 b)"
  by (simp add: segment_def)

lemma segment_write_after:
  "d + n \<le> i \<Longrightarrow> d + n \<le> length xs \<Longrightarrow> o1 + n \<le> length b \<Longrightarrow>
   segment i j (take d xs @ take n (drop o1 b) @ drop (d + n) xs) = segment i j xs"
  by (simp add: segment_def)

text \<open>\<open>memcpy\<close> as an update of the destination block.\<close>

definition overwrite :: "'a list \<Rightarrow> nat \<Rightarrow> 'a list \<Rightarrow> 'a list" where
  "overwrite dst off bs = take off dst @ bs @ drop (off + length bs) dst"

lemma memcpy_overwrite:
  "doff + n \<le> length dst \<Longrightarrow> soff + n \<le> length src \<Longrightarrow>
   memcpy dst doff src soff n = Inr (overwrite dst doff (segment soff (soff + n) src))"
  by (simp add: memcpy_def overwrite_def segment_def)

lemma length_overwrite [simp]: "off + length bs \<le> length dst \<Longrightarrow> length (overwrite dst off bs) = length dst"
  by (simp add: overwrite_def)

lemma overwrite_overwrite:
  "off + length xs + length ys \<le> length dst \<Longrightarrow>
   overwrite (overwrite dst off xs) (off + length xs) ys = overwrite dst off (xs @ ys)"
  by (simp add: overwrite_def ac_simps)

section \<open>Word arithmetic\<close>

text \<open>
  The difference of two pointers into the same block, stored into a \<open>ub4_\<close>.
  Pointers are represented by their offset in the block.
\<close>

definition ptrdiff :: "nat \<Rightarrow> nat \<Rightarrow> ub4_" where
  "ptrdiff a b = word_of_int (int a - int b)"

named_theorems unat_simps \<open>reading machine words as natural numbers\<close>

lemma unat_of_nat_lt [unat_simps]:
  "n < 2 ^ LENGTH('a::len) \<Longrightarrow> unat (of_nat n :: 'a word) = n"
  by (simp add: unat_of_nat take_bit_nat_eq_self)

lemma ptrdiff_of_nat: "b \<le> a \<Longrightarrow> ptrdiff a b = of_nat (a - b)"
  by (simp add: ptrdiff_def of_nat_diff)

lemma unat_ptrdiff [unat_simps]:
  "b \<le> a \<Longrightarrow> a < 2 ^ 32 \<Longrightarrow> unat (ptrdiff a b) = a - b"
  using unat_of_nat_lt [where 'a = 32, of "a - b"] by (simp only: ptrdiff_of_nat) simp

lemma unat_minus_le [unat_simps]:
  fixes a b :: "'a::len word"
  shows "unat b \<le> unat a \<Longrightarrow> unat (a - b) = unat a - unat b"
  by (simp add: unat_sub word_le_nat_alt)

lemma unat_plus_lt [unat_simps]:
  fixes a b :: "'a::len word"
  shows "unat a + unat b < 2 ^ LENGTH('a) \<Longrightarrow> unat (a + b) = unat a + unat b"
  by (simp add: unat_word_ariths)

lemma unat_ub2_lt: "unat (x :: ub2_) < 2 ^ 16"
  using unsigned_less [of x, where ?'a = nat] by simp

lemma unat_ucast_ub2: "unat (ucast (x :: ub2_) :: ub4_) = unat x"
  using unat_ub2_lt [of x] by (simp add: unsigned_ucast_eq take_bit_nat_eq_self)

lemma sint_small:
  fixes a :: ub4_
  assumes "unat a < 2 ^ 31"
  shows "sint a = int (unat a)"
proof -
  have "int (unat a) < 2 ^ 31"
    using assms by (simp only: of_nat_less_numeral_power_cancel_iff)
  moreover have "- (2 ^ 31) \<le> int (unat a)"
    by (rule order.trans [of _ 0]) simp_all
  ultimately have "signed_take_bit 31 (int (unat a)) = int (unat a)"
    by (intro signed_take_bit_int_eq_self)
  then show ?thesis
    by (simp add: sint_uint)
qed

lemma unat_ub4_lt: "unat (a :: ub4_) < 2 ^ 32"
  using unsigned_less [of a, where ?'a = nat] by simp

lemma word_nonzero_unat: "(a :: 'a::len word) \<noteq> 0 \<longleftrightarrow> 0 < unat a"
  by (simp add: unat_gt_0)

lemma word_eq_unat: "(a :: 'a::len word) = b \<longleftrightarrow> unat a = unat b"
  by (simp add: word_unat_eq_iff)

lemmas word_nat = word_le_nat_alt word_less_nat_alt word_eq_unat

section \<open>C strings\<close>

text \<open>
  A C string in a block ends at its first zero byte.  \<open>cstring\<close> reads one from the
  start of an array and faults when the array holds no terminator, since the read then
  leaves the array.
\<close>

definition cstr :: "ub1_ list \<Rightarrow> ub1_ list" where
  "cstr bs = takeWhile (\<lambda>b. b \<noteq> 0) bs"

definition cstring :: "ub1_ list \<Rightarrow> ub1_ list result" where
  "cstring bs = (if 0 \<in> set bs then Inr (cstr bs) else Inl OutOfBounds)"

text \<open>The byte that decides whether a character array holds the empty string.\<close>

definition firstByte :: "ub1_ list \<Rightarrow> ub1_" where
  "firstByte bs = (case bs of [] \<Rightarrow> 0 | b # _ \<Rightarrow> b)"

lemma cstr_empty_iff: "cstr bs = [] \<longleftrightarrow> firstByte bs = 0"
  by (cases bs) (simp_all add: cstr_def firstByte_def)

text \<open>\<open>strncpy(dst, src, n)\<close> writes \<open>n\<close> bytes: the string, cut at \<open>n\<close>, and zeros.\<close>

definition strncpy :: "ub1_ list \<Rightarrow> ub1_ list \<Rightarrow> nat \<Rightarrow> ub1_ list" where
  "strncpy dst src n = take n (cstr src @ replicate n 0) @ drop n dst"

definition zeros :: "nat \<Rightarrow> ub1_ list" where
  "zeros n = replicate n 0"

text \<open>String literals, and the decimal notation of \<open>printf\<close>.\<close>

definition str :: "string \<Rightarrow> ub1_ list" where
  "str s = map of_char s"

fun dec :: "nat \<Rightarrow> ub1_ list" where
  "dec n = (if n < 10 then [of_nat (48 + n)] else dec (n div 10) @ [of_nat (48 + n mod 10)])"

declare dec.simps [simp del]

text \<open>
  \<open>strtoll\<close> with base 10, as glibc has it: leading white space, one sign, digits,
  saturation at the limits of 64 bits.  \<open>atoll\<close> is that, and \<open>atoi\<close> is its low 32 bits.
\<close>

definition is_space :: "ub1_ \<Rightarrow> bool" where
  "is_space c \<longleftrightarrow> c = 32 \<or> 9 \<le> c \<and> c \<le> 13"

definition is_digit :: "ub1_ \<Rightarrow> bool" where
  "is_digit c \<longleftrightarrow> 48 \<le> c \<and> c \<le> 57"

fun digits :: "int \<Rightarrow> ub1_ list \<Rightarrow> int" where
  "digits acc [] = acc"
| "digits acc (c # cs) = (if is_digit c then digits (10 * acc + uint (c - 48)) cs else acc)"

definition clamp64 :: "int \<Rightarrow> int" where
  "clamp64 i = max (- (2 ^ 63)) (min (2 ^ 63 - 1) i)"

definition strtoll :: "ub1_ list \<Rightarrow> int" where
  "strtoll s =
     (let s1 = dropWhile is_space s in
      case s1 of
        [] \<Rightarrow> 0
      | c # cs \<Rightarrow> clamp64 (if c = 45 then - digits 0 cs else if c = 43 then digits 0 cs else digits 0 s1))"

definition atoll :: "ub1_ list \<Rightarrow> ub8_" where
  "atoll s = word_of_int (strtoll (cstr s))"

definition atoi :: "ub1_ list \<Rightarrow> b4_" where
  "atoi s = word_of_int (strtoll (cstr s))"

lemma length_strncpy [simp]: "n \<le> length dst \<Longrightarrow> length (strncpy dst src n) = length dst"
  by (simp add: strncpy_def)

lemma length_zeros [simp]: "length (zeros n) = n"
  by (simp add: zeros_def)

lemma cstr_zeros [simp]: "cstr (zeros n) = []"
  by (cases n) (simp_all add: cstr_def zeros_def)

lemma firstByte_zeros [simp]: "firstByte (zeros n) = 0"
  by (cases n) (simp_all add: firstByte_def zeros_def)

lemma cstr_append_zero: "0 \<notin> set xs \<Longrightarrow> cstr (xs @ 0 # ys) = xs"
  by (induction xs) (auto simp: cstr_def)

lemma zero_notin_cstr: "0 \<notin> set (cstr xs)"
  by (auto simp: cstr_def dest: set_takeWhileD)

lemma unat_digit: "m < 10 \<Longrightarrow> unat (of_nat (48 + m) :: ub1_) = 48 + m"
  by (rule unat_of_nat_lt) simp

lemma is_digit_digit: "m < 10 \<Longrightarrow> is_digit (of_nat (48 + m))"
  using unat_digit [of m] by (simp add: is_digit_def word_le_nat_alt)

lemma dec_digits: "\<forall>c \<in> set (dec n). is_digit c"
proof (induction n rule: dec.induct)
  case (1 n)
  then show ?case using is_digit_digit [of n] is_digit_digit [of "n mod 10"] by (subst dec.simps) auto
qed

lemma digits_append: "\<forall>c \<in> set xs. is_digit c \<Longrightarrow> digits acc (xs @ ys) = digits (digits acc xs) ys"
  by (induction xs arbitrary: acc) auto

lemma digits_one: "m < 10 \<Longrightarrow> digits acc [of_nat (48 + m)] = 10 * acc + int m"
  using is_digit_digit [of m] by (simp add: uint_nat unat_of_nat_lt)

lemma digits_dec: "digits 0 (dec n) = int n"
proof (induction n rule: dec.induct)
  case (1 n)
  show ?case
  proof (cases "n < 10")
    case True
    then show ?thesis using digits_one [of n 0] by (subst dec.simps) simp
  next
    case False
    then have "digits 0 (dec n) = digits (digits 0 (dec (n div 10))) [of_nat (48 + n mod 10)]"
      by (subst dec.simps) (simp add: digits_append dec_digits del: of_nat_add)
    moreover have "10 * int (n div 10) + int (n mod 10) = int n" by presburger
    ultimately show ?thesis using False 1 digits_one [of "n mod 10"] by (simp del: of_nat_add digits.simps)
  qed
qed

lemma dec_nonempty: "dec n \<noteq> []"
  by (subst dec.simps) simp

lemma strtoll_dec: "int n < 2 ^ 63 \<Longrightarrow> strtoll (dec n) = int n"
proof -
  assume n: "int n < 2 ^ 63"
  obtain c cs where c: "dec n = c # cs" using dec_nonempty [of n] by (cases "dec n") auto
  then have "is_digit c" using dec_digits [of n] by simp
  then have "\<not> is_space c" "c \<noteq> 45" "c \<noteq> 43"
    by (auto simp: is_digit_def is_space_def word_le_nat_alt)
  then show ?thesis
    using n c digits_dec [of n] by (auto simp: strtoll_def Let_def clamp64_def)
qed

lemma atoll_dec: "int (unat x) < 2 ^ 63 \<Longrightarrow> atoll (dec (unat x)) = x"
proof -
  assume x: "int (unat x) < 2 ^ 63"
  have "\<forall>c \<in> set (dec (unat x)). c \<noteq> 0"
    using dec_digits [of "unat x"] by (auto simp: is_digit_def word_le_nat_alt)
  then have "cstr (dec (unat x)) = dec (unat x)" by (auto simp: cstr_def takeWhile_eq_all_conv)
  then show ?thesis using strtoll_dec [OF x] by (simp add: atoll_def)
qed

end
