(* ===== verification/Conf_Reader.thy ===== *)
theory Conf_Reader
  imports Prelude "HOL-Library.Sublist"
begin

text \<open>
  The reader of the configuration file, src/src/common/CConfReader.cpp: the file in its
  buffer, the parser and the typed readers, and that a document of sections and lines is read
  back.  Sections and keys are compared with \<open>strncmp\<close> over the length that the file has, so
  a name in the file matches every longer name.  The buffer is not terminated by a zero byte: what follows the
  end-of-file mark is uninitialised memory, and a parser that leaves the buffer faults.  A string argument is its
  block of bytes with the terminator, and a null pointer is the empty block.
\<close>

section \<open>Characters\<close>

definition isNewline :: "ub1_ \<Rightarrow> bool" where
  "isNewline c \<longleftrightarrow> c = 10 \<or> c = 13"

definition isEndOfString :: "ub1_ \<Rightarrow> bool" where
  "isEndOfString c \<longleftrightarrow> c = 0"

definition isLeftBarce :: "ub1_ \<Rightarrow> bool" where
  "isLeftBarce c \<longleftrightarrow> c = 91"

definition isRightBrace :: "ub1_ \<Rightarrow> bool" where
  "isRightBrace c \<longleftrightarrow> c = 93"

lemmas char_defs = isNewline_def isEndOfString_def isLeftBarce_def isRightBrace_def

text \<open>\<open>strncmp(a, b, n) == 0\<close>; running off a block is a fault.\<close>

fun strncmpEq :: "ub1_ list \<Rightarrow> ub1_ list \<Rightarrow> nat \<Rightarrow> bool result" where
  "strncmpEq xs ys 0 = Inr True"
| "strncmpEq (x # xs) (y # ys) (Suc n) =
     (if x \<noteq> y then Inr False else if x = 0 then Inr True else strncmpEq xs ys n)"
| "strncmpEq _ _ (Suc n) = Inl OutOfBounds"

section \<open>The file in memory\<close>

definition MAX_CONFIG_FILE_SIZE :: nat where
  "MAX_CONFIG_FILE_SIZE = 0x8000"

definition EOF_char :: ub1_ where
  "EOF_char = 0xFF"

record confReader =
  c_buffer :: "ub1_ list"
  c_bufferSize :: nat

text \<open>The loop over \<open>fgetc\<close>, which returns \<open>EOF\<close> at the end of the file: the number of bytes
  kept and the buffer.\<close>

fun loadFile :: "ub1_ list \<Rightarrow> nat \<Rightarrow> ub1_ list \<Rightarrow> nat \<times> ub1_ list" where
  "loadFile [] i buf = (if i < MAX_CONFIG_FILE_SIZE then (i, buf[i := EOF_char]) else (i, buf))"
| "loadFile (c # file) i buf =
     (if i < MAX_CONFIG_FILE_SIZE then
        (if c = EOF_char then (i, buf[i := c]) else loadFile file (Suc i) (buf[i := c]))
      else (i, buf))"

text \<open>
  The constructor: \<open>fileName\<close> is empty for a null pointer; \<open>fs\<close> is what \<open>fopen\<close> finds under a
  name, and \<open>mem\<close> what the uninitialised buffer holds.
\<close>

definition CConfReader_new ::
  "(ub1_ list \<Rightarrow> ub1_ list option) \<Rightarrow> ub1_ list \<Rightarrow> ub1_ list \<Rightarrow> confReader result" where
  "CConfReader_new fs mem fileName =
     (if firstByte fileName = 0 then Inl ExitCall
      else case fs (cstr fileName) of
        None \<Rightarrow> Inl ExitCall
      | Some file \<Rightarrow>
          (let (i, buf) = loadFile file 0 mem in
           if MAX_CONFIG_FILE_SIZE \<le> i then Inl ExitCall
           else Inr \<lparr>c_buffer = buf, c_bufferSize = i\<rparr>))"

section \<open>Parsing\<close>

text \<open>Advance to the first character from \<open>i\<close> on that satisfies \<open>P\<close>; leaving the buffer is a fault.\<close>

function scan :: "(ub1_ \<Rightarrow> bool) \<Rightarrow> ub1_ list \<Rightarrow> nat \<Rightarrow> nat result" where
  "scan P b i = (if i < length b then (if P (b ! i) then Inr i else scan P b (Suc i)) else Inl OutOfBounds)"
  by pat_completeness auto
termination by (relation "measure (\<lambda>(P, b, i). length b - i)") auto

declare scan.simps [simp del]

definition charAt :: "ub1_ list \<Rightarrow> nat \<Rightarrow> ub1_ result" where
  "charAt b i = (if i < length b then Inr (b ! i) else Inl OutOfBounds)"

lemma scan_le: "scan P b i = Inr j \<Longrightarrow> i \<le> j \<and> j < length b \<and> P (b ! j)"
proof (induction P b i rule: scan.induct)
  case (1 P b i)
  then show ?case by (subst (asm) (2) scan.simps) (auto split: if_splits)
qed

text \<open>The out parameters of \<open>_parseFile\<close>.\<close>

record parsed =
  secS :: int
  secE :: int
  keyS :: int
  keyE :: int
  valueS :: int
  valueE :: int

text \<open>
  The search for \<open>=\<close> in the line from \<open>start\<close> to \<open>i\<close>: the position of the one that ends a key
  equal to \<open>key\<close> as far as \<open>strncmp\<close> looks, if there is one.
\<close>

function findKeyEq :: "ub1_ list \<Rightarrow> ub1_ list \<Rightarrow> nat \<Rightarrow> nat \<Rightarrow> nat \<Rightarrow> nat option result" where
  "findKeyEq b key start i j =
     (if j < i then
        bindR (charAt b j) (\<lambda>c.
          if c = 61 then Inr None
          else
            bindR (charAt b (Suc j)) (\<lambda>c1.
              if c1 = 61 then
                bindR (strncmpEq key (drop start b) (Suc j - start)) (\<lambda>eq.
                  if eq then Inr (Some (Suc j)) else findKeyEq b key start i (Suc j))
              else findKeyEq b key start i (Suc j)))
      else Inr None)"
  by pat_completeness auto
termination by (relation "measure (\<lambda>(b, key, start, i, j). i - j)") auto

declare findKeyEq.simps [simp del]

text \<open>
  The lines of a section that matched, from \<open>i\<close>: the key and value found, or the position where the next
  section or the end of the string is.
\<close>

lemma bindR_cong [fundef_cong]:
  "m = m' \<Longrightarrow> (\<And>x. m' = Inr x \<Longrightarrow> f x = f' x) \<Longrightarrow> bindR m f = bindR m' f'"
  by (cases m') auto

function readLines :: "ub1_ list \<Rightarrow> ub1_ list \<Rightarrow> nat \<Rightarrow> (nat + (nat \<times> nat \<times> nat)) result" where
  "readLines b key i =
     bindR (charAt b (i - 1)) (\<lambda>before.
     bindR (charAt b i) (\<lambda>c.
       if isNewline before \<and> isLeftBarce c \<or> isEndOfString c then Inr (Inl i)
       else
         bindR (scan (\<lambda>c. isNewline c \<or> isEndOfString c) b i) (\<lambda>eol.
         bindR (if c \<noteq> 59 then findKeyEq b key i eol i else Inr None) (\<lambda>r.
           case r of
             Some j \<Rightarrow> Inr (Inr (i, j, eol))
           | None \<Rightarrow> readLines b key (Suc eol)))))"
  by pat_completeness auto
termination
  by (relation "measure (\<lambda>(b, key, i). length b - i)") (auto dest: scan_le simp: charAt_def split: if_splits)

declare readLines.simps [simp del]

lemma readLines_le: "readLines b key i = Inr (Inl j) \<Longrightarrow> i \<le> j \<and> j < length b"
proof (induction b key i rule: readLines.induct)
  case (1 b key i)
  from 1(2) obtain before c where bc: "charAt b (i - 1) = Inr before" "charAt b i = Inr c" "i < length b"
    and r: "(if isNewline before \<and> isLeftBarce c \<or> isEndOfString c then Inr (Inl i)
       else bindR (scan (\<lambda>c. isNewline c \<or> isEndOfString c) b i) (\<lambda>eol.
         bindR (if c \<noteq> 59 then findKeyEq b key i eol i else Inr None) (\<lambda>r.
           case r of Some j \<Rightarrow> Inr (Inr (i, j, eol)) | None \<Rightarrow> readLines b key (Suc eol)))) = Inr (Inl j)"
    unfolding readLines.simps [of b key i] bindR_eq_Inr_iff by (auto simp: charAt_def split: if_splits)
  show ?case
  proof (cases "isNewline before \<and> isLeftBarce c \<or> isEndOfString c")
    case True
    then show ?thesis using r bc by simp
  next
    case False
    then obtain eol q where e: "scan (\<lambda>c. isNewline c \<or> isEndOfString c) b i = Inr eol"
      "(if c \<noteq> 59 then findKeyEq b key i eol i else Inr None) = Inr q"
      "(case q of Some j \<Rightarrow> Inr (Inr (i, j, eol)) | None \<Rightarrow> readLines b key (Suc eol)) = Inr (Inl j)"
      using r unfolding if_not_P [OF False] bindR_eq_Inr_iff by blast
    then have "q = None" by (auto split: option.splits)
    then show ?thesis using 1(1) [OF bc(1,2) False e(1,2)] e(3) scan_le [OF e(1)] by auto
  qed
qed

function parseFrom :: "ub1_ list \<Rightarrow> ub1_ list \<Rightarrow> ub1_ list \<Rightarrow> parsed \<Rightarrow> nat \<Rightarrow> (b4_ \<times> parsed) result" where
  "parseFrom b section key p i =
     bindR (charAt b i) (\<lambda>c.
       if isEndOfString c then Inr (1, p)
       else
         bindR (if i = 0 then Inr 10 else charAt b (i - 1)) (\<lambda>before.
           if (i = 0 \<or> isNewline before) \<and> isLeftBarce c then
             bindR (scan (\<lambda>c. isRightBrace c \<or> isEndOfString c) b (Suc i)) (\<lambda>k.
             bindR (strncmpEq (drop (Suc i) b) section (k - Suc i)) (\<lambda>eq.
               if \<not> eq then parseFrom b section key p k
               else
                 bindR (scan (\<lambda>c. \<not> is_space c) b (Suc k)) (\<lambda>l.
                 bindR (readLines b key l) (\<lambda>r.
                   case r of
                     Inl l1 \<Rightarrow> parseFrom b section key (p\<lparr>secS := int i, secE := int l - 1\<rparr>) l1
                   | Inr (start, j, eol) \<Rightarrow>
                       Inr (0, \<lparr>secS = int i, secE = int l - 1, keyS = int start, keyE = int j - 1,
                                valueS = int j + 1, valueE = int eol\<rparr>)))))
           else parseFrom b section key p (Suc i)))"
  by pat_completeness auto
termination
  by (relation "measure (\<lambda>(b, section, key, p, i). length b - i)")
    (auto dest!: scan_le readLines_le simp: charAt_def split: if_splits)

declare parseFrom.simps [simp del]

definition CConfReader_parseFile :: "confReader \<Rightarrow> ub1_ list \<Rightarrow> ub1_ list \<Rightarrow> (b4_ \<times> parsed) result" where
  "CConfReader_parseFile r section key =
     parseFrom (c_buffer r) section key
       \<lparr>secS = -1, secE = -1, keyS = -1, keyE = -1, valueS = -1, valueE = -1\<rparr> 0"

definition CConfReader_readString ::
  "confReader \<Rightarrow> ub1_ list \<Rightarrow> ub1_ list \<Rightarrow> ub1_ list \<Rightarrow> ub4_ \<Rightarrow> (b4_ \<times> ub1_ list) result" where
  "CConfReader_readString r section key val sz =
     (if firstByte section = 0 \<or> firstByte key = 0 \<or> val = [] \<or> sz = 0 then Inr (1, val)
      else if c_bufferSize r = 0 then Inr (2, val)
      else
        bindR (CConfReader_parseFile r section key) (\<lambda>(code, p).
          if code = 0 then
            (let len = word_of_int (valueE p - valueS p) :: ub4_;
                 len = (if sz - 1 < len then sz - 1 else len) in
             bindR (memcpy val 0 (c_buffer r) (nat (valueS p)) (unat len)) (\<lambda>v.
               if unat len < length v then Inr (0, v[unat len := 0]) else Inl OutOfBounds))
          else Inr (3, val)))"

definition CConfReader_readByte :: "confReader \<Rightarrow> ub1_ list \<Rightarrow> ub1_ list \<Rightarrow> ub1_ \<Rightarrow> (b4_ \<times> ub1_) result" where
  "CConfReader_readByte r section key old =
     bindR (CConfReader_readString r section key (zeros 32) 32) (\<lambda>(ret, val).
       if ret \<noteq> 0 then Inr (ret, old) else Inr (0, ucast (atoi val)))"

definition CConfReader_readShort :: "confReader \<Rightarrow> ub1_ list \<Rightarrow> ub1_ list \<Rightarrow> ub2_ \<Rightarrow> (b4_ \<times> ub2_) result" where
  "CConfReader_readShort r section key old =
     bindR (CConfReader_readString r section key (zeros 32) 32) (\<lambda>(ret, val).
       if ret \<noteq> 0 then Inr (ret, old) else Inr (0, ucast (atoi val)))"

definition CConfReader_readInt :: "confReader \<Rightarrow> ub1_ list \<Rightarrow> ub1_ list \<Rightarrow> ub4_ \<Rightarrow> (b4_ \<times> ub4_) result" where
  "CConfReader_readInt r section key old =
     bindR (CConfReader_readString r section key (zeros 32) 32) (\<lambda>(ret, val).
       if ret \<noteq> 0 then Inr (ret, old) else Inr (0, atoi val))"

section \<open>Documents\<close>

text \<open>
  A configuration document: sections with a name and lines, each an entry or a line without meaning (a comment,
  or a text without an equals sign), as it is written to a file.
\<close>

datatype confLine = Entry "ub1_ list" "ub1_ list" | Note "ub1_ list"

type_synonym confDoc = "(ub1_ list \<times> confLine list) list"

fun lineBytes :: "confLine \<Rightarrow> ub1_ list" where
  "lineBytes (Entry k v) = k @ 61 # v"
| "lineBytes (Note t) = t"

definition linesBytes :: "confLine list \<Rightarrow> ub1_ list" where
  "linesBytes ls = concat (map (\<lambda>l. lineBytes l @ [10]) ls)"

definition docBytes :: "confDoc \<Rightarrow> ub1_ list" where
  "docBytes doc = concat (map (\<lambda>(n, ls). 91 # n @ 93 # 10 # linesBytes ls) doc)"

definition plain :: "ub1_ \<Rightarrow> bool" where
  "plain c \<longleftrightarrow> c \<noteq> 0 \<and> \<not> isNewline c"

fun line_ok :: "confLine \<Rightarrow> bool" where
  "line_ok (Entry k v) \<longleftrightarrow> k \<noteq> [] \<and> list_all plain k \<and> list_all plain v \<and> 61 \<notin> set k \<and> hd k \<noteq> 59 \<and> hd k \<noteq> 91 \<and> \<not> is_space (hd k)"
| "line_ok (Note t) \<longleftrightarrow> list_all plain t \<and> (t = [] \<or> (hd t = 59 \<or> 61 \<notin> set t) \<and> hd t \<noteq> 91 \<and> \<not> is_space (hd t))"

definition doc_ok :: "confDoc \<Rightarrow> bool" where
  "doc_ok doc \<longleftrightarrow> (\<forall>(n, ls) \<in> set doc. list_all plain n \<and> 93 \<notin> set n \<and> list_all line_ok ls)"

text \<open>What the reader finds: the first entry whose key is a prefix of the key asked for, in the
  sections whose name is a prefix of the section asked for.\<close>

fun lookupLines :: "confLine list \<Rightarrow> ub1_ list \<Rightarrow> ub1_ list option" where
  "lookupLines [] q = None"
| "lookupLines (Entry k v # ls) q = (if prefix k q then Some v else lookupLines ls q)"
| "lookupLines (Note _ # ls) q = lookupLines ls q"

fun lookupDoc :: "confDoc \<Rightarrow> ub1_ list \<Rightarrow> ub1_ list \<Rightarrow> ub1_ list option" where
  "lookupDoc [] s q = None"
| "lookupDoc ((n, ls) # doc) s q =
     (case (if prefix n s then lookupLines ls q else None) of Some v \<Rightarrow> Some v | None \<Rightarrow> lookupDoc doc s q)"

section \<open>Positions\<close>

lemma drop_Cons: "drop i b = c # post \<Longrightarrow> i < length b \<and> b ! i = c \<and> drop (Suc i) b = post"
  by (metis drop_eq_Nil2 hd_drop_conv_nth leI list.distinct(1) list.sel(1) list.sel(3) tl_drop drop_Suc)

lemma drop_plus: "drop i b = xs @ ys \<Longrightarrow> drop (i + length xs) b = ys"
  by (metis add.commute append_eq_conv_conj drop_drop)

lemma charAt_drop: "drop i b = c # post \<Longrightarrow> charAt b i = Inr c"
  by (drule drop_Cons) (simp add: charAt_def)

lemma nth_before:
  assumes "drop i b = xs @ post" and "xs \<noteq> []"
  shows "b ! (i + length xs - 1) = last xs"
proof -
  have "i \<le> length b" using assms by (cases "i \<le> length b") auto
  moreover have "drop i b ! (length xs - 1) = last xs" using assms by (simp add: nth_append last_conv_nth)
  ultimately show ?thesis using assms(2) by (cases xs) (simp_all add: add.commute)
qed

lemma charAt_before: "i < length b \<Longrightarrow> charAt b (i - 1) = Inr (b ! (i - 1))"
  by (simp add: charAt_def)

lemma scan_to:
  "drop i b = xs @ c # post \<Longrightarrow> \<forall>x \<in> set xs. \<not> P x \<Longrightarrow> P c \<Longrightarrow> scan P b i = Inr (i + length xs)"
proof (induction xs arbitrary: i)
  case Nil
  then show ?case using drop_Cons [of i b c post] by (simp add: scan.simps)
next
  case (Cons x xs)
  then have "i < length b" "b ! i = x" "drop (Suc i) b = xs @ c # post" using drop_Cons [of i b x] by auto
  then show ?case using Cons.IH [of "Suc i"] Cons.prems by (subst scan.simps) simp
qed

lemma strncmp_prefix:
  "0 \<notin> set k \<Longrightarrow> strncmpEq (q @ 0 # r) (k @ post) (length k) = Inr (prefix k q)"
  "0 \<notin> set k \<Longrightarrow> strncmpEq (k @ post) (q @ 0 # r) (length k) = Inr (prefix k q)"
  by (induction k arbitrary: q; case_tac q; auto)+

lemma findKeyEq_key:
  assumes "drop j b = k @ 61 # post" and "k \<noteq> []" and "61 \<notin> set k" and "j + length k \<le> i" 
  shows "findKeyEq b key start i j =
    bindR (strncmpEq key (drop start b) (j + length k - start)) (\<lambda>eq. Inr (if eq then Some (j + length k) else None))"
  using assms
proof (induction k arbitrary: j)
  case (Cons c k)
  have d: "charAt b j = Inr c" "drop (Suc j) b = k @ 61 # post" "c \<noteq> 61" "j < i"
    using Cons.prems charAt_drop [of j b c] drop_Cons [of j b c] by auto
  show ?case
  proof (cases k)
    case Nil
    then have "charAt b (Suc j) = Inr 61" using d(2) charAt_drop by simp
    moreover from this have "findKeyEq b key start i (Suc j) = Inr None" by (simp add: findKeyEq.simps)
    ultimately show ?thesis using d Nil
      by (subst findKeyEq.simps) (auto simp: bindR_def split: sum.splits)
  next
    case (Cons c' k')
    then have "charAt b (Suc j) = Inr c'" "c' \<noteq> 61" using d(2) charAt_drop [of "Suc j" b c'] Cons.prems(3) by auto
    then show ?thesis using d Cons.IH [of "Suc j"] Cons.prems Cons by (subst findKeyEq.simps) (simp cong: if_cong)
  qed
qed simp

lemma findKeyEq_none:
  "drop j b = t @ e # post \<Longrightarrow> 61 \<notin> set t \<Longrightarrow> e \<noteq> 61 \<Longrightarrow> i = j + length t \<Longrightarrow> findKeyEq b key start i j = Inr None"
proof (induction t arbitrary: j)
  case (Cons c t)
  have d: "charAt b j = Inr c" "drop (Suc j) b = t @ e # post" "c \<noteq> 61"
    using Cons.prems charAt_drop [of j b c] drop_Cons [of j b c] by auto
  have "charAt b (Suc j) = Inr (hd (t @ [e]))" using d(2) charAt_drop [of "Suc j" b] by (cases t) auto
  moreover have "hd (t @ [e]) \<noteq> 61" using Cons.prems by (cases t) auto
  ultimately show ?case using d Cons by (subst findKeyEq.simps) simp
qed (simp add: findKeyEq.simps)

section \<open>Lines\<close>

lemma linesBytes_simps [simp]: "linesBytes [] = []" "linesBytes (l # ls) = lineBytes l @ 10 # linesBytes ls"
  by (simp_all add: linesBytes_def)

lemma line_plain: "line_ok l \<Longrightarrow> \<forall>c \<in> set (lineBytes l). plain c"
  by (cases l) (auto simp: list_all_iff plain_def isNewline_def)

lemma hd_line:
  assumes "line_ok l"
  shows "hd (lineBytes l @ [10]) \<noteq> 0" and "hd (lineBytes l @ [10]) \<noteq> 91"
proof -
  have "hd (lineBytes l @ [10]) \<noteq> 0 \<and> hd (lineBytes l @ [10]) \<noteq> 91"
  proof (cases l)
    case (Entry k v)
    then show ?thesis using assms by (cases k) (auto simp: plain_def)
  next
    case (Note t)
    then show ?thesis using assms by (cases t) (auto simp: plain_def)
  qed
  then show "hd (lineBytes l @ [10]) \<noteq> 0" and "hd (lineBytes l @ [10]) \<noteq> 91" by simp_all
qed

lemma readLines_go:
  assumes l: "line_ok l" and d: "drop i b = lineBytes l @ 10 # post" and i: "0 < i"
  shows "readLines b key i =
    bindR (if hd (lineBytes l @ [10]) \<noteq> 59 then findKeyEq b key i (i + length (lineBytes l)) i else Inr None) (\<lambda>r.
      case r of Some j \<Rightarrow> Inr (Inr (i, j, i + length (lineBytes l))) | None \<Rightarrow> readLines b key (Suc (i + length (lineBytes l))))"
proof -
  let ?c = "hd (lineBytes l @ [10])"
  have c: "charAt b i = Inr ?c" using d charAt_drop [of i b] by (cases "lineBytes l") auto
  then have "i - 1 < length b" using i by (auto simp: charAt_def split: if_splits)
  then obtain c0 where c0: "charAt b (i - 1) = Inr c0" by (simp add: charAt_def)
  note ne = hd_line [OF l]
  have eol: "scan (\<lambda>c. isNewline c \<or> isEndOfString c) b i = Inr (i + length (lineBytes l))"
    by (rule scan_to [OF d]) (use line_plain [OF l] in \<open>auto simp: plain_def char_defs\<close>)
  show ?thesis using c c0 ne eol by (subst readLines.simps) (simp add: char_defs)
qed

lemma readLines_note:
  assumes "line_ok (Note t)" and d: "drop i b = t @ 10 # post" and i: "0 < i"
  shows "readLines b key i = readLines b key (Suc (i + length t))"
proof -
  have "findKeyEq b key i (i + length t) i = Inr None" if "hd (t @ [10]) \<noteq> 59"
    by (rule findKeyEq_none [OF d]) (use assms(1) that in \<open>cases t; auto\<close>, simp_all)
  then show ?thesis using readLines_go [OF assms(1) _ i, of b post key] d by (simp split: if_splits)
qed

lemma readLines_entry:
  assumes l: "line_ok (Entry k v)" and d: "drop i b = k @ 61 # v @ 10 # post" and i: "0 < i"
  shows "readLines b (q @ [0]) i =
    (if prefix k q then Inr (Inr (i, i + length k, i + length k + 1 + length v))
     else readLines b (q @ [0]) (Suc (i + length (lineBytes (Entry k v)))))"
proof -
  have k: "k \<noteq> []" "0 \<notin> set k" "hd k \<noteq> 59" "61 \<notin> set k" using l by (auto simp: list_all_iff plain_def)
  have "strncmpEq (q @ [0]) (drop i b) (length k) = Inr (prefix k q)"
    unfolding d by (rule strncmp_prefix) (rule k)
  then have f: "findKeyEq b (q @ [0]) i (i + length (lineBytes (Entry k v))) i = Inr (if prefix k q then Some (i + length k) else None)"
    using findKeyEq_key [OF d k(1,4), of "i + length (lineBytes (Entry k v))" "q @ [0]" i] by simp
  have "hd (lineBytes (Entry k v) @ [10]) \<noteq> 59" using k(1,3) by (cases k) auto
  then show ?thesis using readLines_go [OF l _ i, of b post "q @ [0]"] d f by simp
qed

text \<open>A whole section: the value is found, or the reader stands behind its lines.\<close>

definition found_at :: "ub1_ list \<Rightarrow> nat \<Rightarrow> nat \<Rightarrow> ub1_ list \<Rightarrow> bool" where
  "found_at b j eol v \<longleftrightarrow> eol = Suc j + length v \<and> take (length v) (drop (Suc j) b) = v \<and> eol < length b"

lemma readLines_lines:
  assumes "list_all line_ok ls" and "drop i b = linesBytes ls @ post" and "0 < i"
  shows "case lookupLines ls q of
      Some v \<Rightarrow> \<exists>s j eol. readLines b (q @ [0]) i = Inr (Inr (s, j, eol)) \<and> found_at b j eol v
    | None \<Rightarrow> readLines b (q @ [0]) i = readLines b (q @ [0]) (i + length (linesBytes ls))"
  using assms
proof (induction ls arbitrary: i)
  case (Cons l ls)
  let ?i = "Suc (i + length (lineBytes l))"
  have l: "line_ok l" and d: "drop i b = lineBytes l @ 10 # linesBytes ls @ post" using Cons.prems by simp_all
  have d': "drop ?i b = linesBytes ls @ post" using drop_plus [of i b "lineBytes l @ [10]"] d by simp
  note IH = Cons.IH [OF _ d']
  show ?case
  proof (cases l)
    case (Note t)
    then show ?thesis using readLines_note [of t i b "linesBytes ls @ post" "q @ [0]"] l d Cons.prems IH
      by (simp add: add.assoc split: option.splits)
  next
    case (Entry k v)
    have e: "drop i b = k @ 61 # v @ 10 # linesBytes ls @ post" using d Entry by simp
    then have "drop (Suc (i + length k)) b = v @ 10 # linesBytes ls @ post" using drop_plus [of i b "k @ [61]"] by simp
    then have "found_at b (i + length k) (i + length k + 1 + length v) v"
      using drop_Cons [of "Suc (i + length k) + length v" b 10] drop_plus [of "Suc (i + length k)" b v]
      by (simp add: found_at_def)
    then show ?thesis using readLines_entry [OF _ e, of q] l Entry Cons.prems IH by (auto simp: add.assoc split: option.splits)
  qed
qed simp

section \<open>Documents are read back\<close>

text \<open>Text in which no section starts.\<close>

fun quiet :: "bool \<Rightarrow> ub1_ list \<Rightarrow> bool" where
  "quiet nl [] \<longleftrightarrow> True"
| "quiet nl (c # cs) \<longleftrightarrow> c \<noteq> 0 \<and> \<not> (nl \<and> c = 91) \<and> quiet (isNewline c) cs"

lemma quiet_append: "quiet nl (xs @ ys) \<longleftrightarrow> quiet nl xs \<and> quiet (if xs = [] then nl else isNewline (last xs)) ys"
  by (induction xs arbitrary: nl) auto

lemma quiet_plain: "list_all plain xs \<Longrightarrow> quiet False xs"
  by (induction xs) (auto simp: plain_def)

lemma quiet_line: "line_ok l \<Longrightarrow> quiet True (lineBytes l @ [10])"
proof -
  assume l: "line_ok l"
  show ?thesis
  proof (cases "lineBytes l")
    case (Cons c cs)
    then have "list_all plain cs" "plain c" "c \<noteq> 91" using line_plain [OF l] hd_line [OF l] by (auto simp: list_all_iff)
    then show ?thesis using Cons by (auto simp: quiet_append quiet_plain plain_def dest: last_in_set)
  qed simp
qed

lemma quiet_lines: "list_all line_ok ls \<Longrightarrow> quiet True (linesBytes ls)"
proof (induction ls)
  case (Cons l ls)
  then have "quiet True ((lineBytes l @ [10]) @ linesBytes ls)"
    using quiet_line [of l] by (subst quiet_append) (simp add: isNewline_def)
  then show ?case by simp
qed simp

lemma parse_skip:
  "drop i b = xs @ post \<Longrightarrow> 0 < i \<Longrightarrow> quiet (isNewline (b ! (i - 1))) xs \<Longrightarrow>
   parseFrom b sec key p i = parseFrom b sec key p (i + length xs)"
proof (induction xs arbitrary: i)
  case (Cons c xs)
  have d: "i < length b" "b ! i = c" "drop (Suc i) b = xs @ post" using Cons.prems(1) drop_Cons [of i b c] by auto
  have "parseFrom b sec key p i = parseFrom b sec key p (Suc i)"
    using d Cons.prems by (subst parseFrom.simps) (auto simp: charAt_def char_defs)
  then show ?case using Cons.IH [OF d(3)] d Cons.prems by simp
qed simp

lemma docBytes_simps [simp]: "docBytes [] = []" "docBytes ((n, ls) # doc) = 91 # n @ 93 # 10 # linesBytes ls @ docBytes doc"
  by (simp_all add: docBytes_def)

definition newline_before :: "ub1_ list \<Rightarrow> nat \<Rightarrow> bool" where
  "newline_before b i \<longleftrightarrow> i = 0 \<or> i \<le> length b \<and> isNewline (b ! (i - 1))"

lemma newline_before_drop: "drop i b = xs @ 10 # post \<Longrightarrow> newline_before b (Suc (i + length xs))"
  using drop_plus [of i b xs "10 # post"] drop_Cons [of "i + length xs" b 10 post]
  by (simp add: newline_before_def isNewline_def)

text \<open>The header of a section: what the reader does at its opening bracket.\<close>

lemma parse_header:
  assumes d: "drop i b = 91 # n @ 93 # post" and nl: "newline_before b i" and n: "list_all plain n" "93 \<notin> set n"
  shows "parseFrom b (s @ [0]) key p i =
    (if \<not> prefix n s then parseFrom b (s @ [0]) key p (Suc (i + length n))
     else bindR (scan (\<lambda>c. \<not> is_space c) b (i + length n + 2)) (\<lambda>l.
       bindR (readLines b key l) (\<lambda>r.
         case r of
           Inl l1 \<Rightarrow> parseFrom b (s @ [0]) key (p\<lparr>secS := int i, secE := int l - 1\<rparr>) l1
         | Inr (start, j, eol) \<Rightarrow>
             Inr (0, \<lparr>secS = int i, secE = int l - 1, keyS = int start, keyE = int j - 1,
                      valueS = int j + 1, valueE = int eol\<rparr>))))"
proof -
  have c: "charAt b i = Inr 91" "drop (Suc i) b = n @ 93 # post" "i < length b"
    using charAt_drop [OF d] drop_Cons [OF d] by auto
  have k: "scan (\<lambda>c. isRightBrace c \<or> isEndOfString c) b (Suc i) = Inr (Suc i + length n)"
    by (rule scan_to [OF c(2)]) (use n in \<open>auto simp: char_defs list_all_iff plain_def\<close>)
  have e: "strncmpEq (drop (Suc i) b) (s @ [0]) (Suc i + length n - Suc i) = Inr (prefix n s)"
    unfolding c(2) using strncmp_prefix(2) [of n "93 # post" s "[]"] n by (auto simp: list_all_iff plain_def)
  define c0 where "c0 = (if i = 0 then 10 else b ! (i - 1))"
  have "(if i = 0 then Inr 10 else charAt b (i - 1)) = Inr c0" "i = 0 \<or> isNewline c0"
    using nl c(3) by (auto simp: newline_before_def charAt_def c0_def)
  then show ?thesis using c(1) k e by (subst parseFrom.simps) (simp add: char_defs)
qed

lemma skip_blank:
  assumes "list_all line_ok ls" and "drop k b = 10 # linesBytes ls @ post"
    and "post \<noteq> [] \<and> \<not> is_space (hd post) \<or> lookupLines ls q \<noteq> None"
  shows "\<exists>l ls1. scan (\<lambda>c. \<not> is_space c) b k = Inr l \<and> drop l b = linesBytes ls1 @ post \<and> list_all line_ok ls1 \<and>
     lookupLines ls1 q = lookupLines ls q \<and> 0 < l \<and> newline_before b l"
  using assms
proof (induction ls arbitrary: k)
  case Nil
  then obtain c r where post: "post = c # r" "\<not> is_space c" by (cases post) auto
  then have "scan (\<lambda>c. \<not> is_space c) b k = Inr (Suc k)"
    using Nil scan_to [of k b "[10]" c r "\<lambda>c. \<not> is_space c"] by (simp add: is_space_def)
  moreover have "newline_before b (Suc k)" using newline_before_drop [of k b "[]" post] Nil by simp
  ultimately show ?case using Nil drop_Cons [of k b 10 post] by (intro exI [of _ "Suc k"] exI [of _ "[]"]) simp
next
  case (Cons l ls)
  have d: "drop (Suc k) b = lineBytes l @ 10 # linesBytes ls @ post" and kb: "k < length b" "b ! k = 10"
    using drop_Cons [OF Cons.prems(2)] by simp_all
  show ?case
  proof (cases "lineBytes l")
    case Nil
    then have l: "l = Note []" using Cons.prems(1) by (cases l) auto
    have "scan (\<lambda>c. \<not> is_space c) b k = scan (\<lambda>c. \<not> is_space c) b (Suc k)"
      using kb by (subst scan.simps) (simp add: is_space_def)
    then show ?thesis using Cons.IH [of "Suc k"] Cons.prems d l by simp
  next
    case (Cons c cs)
    have "\<not> is_space c" using Cons.prems(1) Cons by (cases l) (auto simp: append_eq_Cons_conv)
    then have "scan (\<lambda>c. \<not> is_space c) b k = Inr (Suc k)"
      using Cons Cons.prems scan_to [of k b "[10]" c "cs @ 10 # linesBytes ls @ post" "\<lambda>c. \<not> is_space c"] by (simp add: is_space_def)
    moreover have "newline_before b (Suc k)" using kb by (simp add: newline_before_def isNewline_def)
    ultimately show ?thesis using Cons.prems d by (intro exI [of _ "Suc k"] exI [of _ "l # ls"]) simp
  qed
qed

lemma readLines_end:
  assumes d: "drop i b = 255 # 0 # 0 # r" and i: "0 < i"
  shows "readLines b key i = Inr (Inl (i + 2))"
proof -
  have c: "charAt b i = Inr 255" "charAt b (Suc i) = Inr 0" "charAt b (Suc (Suc i)) = Inr 0" "i < length b"
    using charAt_drop [OF d] drop_Cons [OF d] charAt_drop [of "Suc i" b] drop_Cons [of "Suc i" b] charAt_drop [of "Suc (Suc i)" b] by auto
  note c0 = charAt_before [OF c(4)]
  have "scan (\<lambda>c. isNewline c \<or> isEndOfString c) b i = Inr (Suc i)"
    using scan_to [of i b "[255]" 0 "0 # r"] d by (simp add: char_defs)
  moreover have "findKeyEq b key i (Suc i) i = Inr None" using d by (intro findKeyEq_none [of i b "[255]" 0 "0 # r"]) simp_all
  moreover have "readLines b key (Suc (Suc i)) = Inr (Inl (i + 2))" using c by (subst readLines.simps) (simp add: char_defs)
  ultimately show ?thesis using c c0 by (subst readLines.simps) (simp add: char_defs)
qed

lemma parse_end: "drop i b = 0 # r \<Longrightarrow> parseFrom b sec key p i = Inr (1, p)"
  using charAt_drop [of i b 0 r] by (subst parseFrom.simps) (simp add: char_defs)

lemma readLines_next: "drop i b = 91 # r \<Longrightarrow> newline_before b i \<Longrightarrow> 0 < i \<Longrightarrow> readLines b key i = Inr (Inl i)"
  using charAt_drop [of i b 91 r] drop_Cons [of i b 91 r]
  by (subst readLines.simps) (auto simp: charAt_def newline_before_def char_defs)

lemma newline_before_lines:
  assumes "drop i b = linesBytes ls @ post" and "newline_before b i"
  shows "newline_before b (i + length (linesBytes ls))"
proof (cases ls rule: rev_cases)
  case (snoc ls0 l)
  then show ?thesis using assms(1) newline_before_drop [of i b "linesBytes ls0 @ lineBytes l" post]
    by (simp add: linesBytes_def)
qed (use assms(2) in simp)

lemma parse_doc:
  assumes "doc_ok doc" and "drop i b = docBytes doc @ rest" and "newline_before b i"
  shows "case lookupDoc doc s q of
      Some v \<Rightarrow> \<exists>p1 j eol. parseFrom b (s @ [0]) (q @ [0]) p i = Inr (0, p1) \<and>
        valueS p1 = int (Suc j) \<and> valueE p1 = int eol \<and> found_at b j eol v
    | None \<Rightarrow> rest = 255 # 0 # 0 # r \<longrightarrow> (\<exists>p1. parseFrom b (s @ [0]) (q @ [0]) p i = Inr (1, p1))"
  using assms
proof (induction doc arbitrary: i p)
  case Nil
  have "parseFrom b (s @ [0]) (q @ [0]) p i = Inr (1, p)" if r: "rest = 255 # 0 # 0 # r"
  proof -
    have d: "charAt b i = Inr 255" "drop (Suc i) b = 0 # 0 # r" "i < length b"
      using Nil(2) r charAt_drop [of i b 255] drop_Cons [of i b 255] by auto
    then show ?thesis using parse_end [OF d(2)] charAt_before [OF d(3)] by (subst parseFrom.simps) (simp add: char_defs)
  qed
  then show ?case by simp
next
  case (Cons sec doc)
  obtain n ls where sec: "sec = (n, ls)" by (cases sec)
  let ?post = "docBytes doc @ rest"
  have n: "list_all plain n" "93 \<notin> set n" and ls: "list_all line_ok ls" and doc: "doc_ok doc"
    using Cons.prems(1) sec by (auto simp: doc_ok_def)
  have d: "drop i b = 91 # n @ 93 # 10 # linesBytes ls @ ?post" using Cons.prems(2) sec by simp
  note header = parse_header [OF d Cons.prems(3) n, of s "q @ [0]"]
  show ?case
  proof (cases "prefix n s")
    case False
    let ?k = "Suc (i + length n)"
    have k: "drop ?k b = (93 # 10 # linesBytes ls) @ ?post" using drop_plus [of i b "91 # n"] d by simp
    let ?i = "?k + length (93 # 10 # linesBytes ls)"
    have "b ! (?k - 1) = last (91 # n)" using nth_before [of i b "91 # n"] d by simp
    then have "\<not> isNewline (b ! (?k - 1))" using n(1) by (auto simp: isNewline_def list_all_iff plain_def dest: last_in_set)
    then have "parseFrom b (s @ [0]) (q @ [0]) p ?k = parseFrom b (s @ [0]) (q @ [0]) p ?i"
      by (intro parse_skip [OF k]) (use quiet_lines [OF ls] in \<open>simp_all add: isNewline_def\<close>)
    moreover have "newline_before b ?i" 
      using newline_before_lines [of "?k + 2" b ls ?post] newline_before_drop [of ?k b "[93]"] drop_plus [of ?k b "[93, 10]"] k by simp
    moreover have "drop ?i b = ?post" using drop_plus [OF k] .
    ultimately show ?thesis using Cons.IH [OF doc, of ?i p] header False sec by (auto split: option.splits)
  next
    case True
    let ?k = "i + length n + 2"
    have k: "drop ?k b = 10 # linesBytes ls @ ?post" using drop_plus [of i b "91 # n @ [93]"] d by simp
    show ?thesis
    proof (cases "?post \<noteq> [] \<and> \<not> is_space (hd ?post) \<or> lookupLines ls q \<noteq> None")
      case f: False
      then show ?thesis using sec True by (cases doc) (auto simp: is_space_def)
    next
      case t: True
      obtain l ls1 where l: "scan (\<lambda>c. \<not> is_space c) b ?k = Inr l" "drop l b = linesBytes ls1 @ ?post" "list_all line_ok ls1"
          "lookupLines ls1 q = lookupLines ls q" "0 < l" "newline_before b l"
        using skip_blank [OF ls k t] by blast
      let ?l = "l + length (linesBytes ls1)"
      note lines = readLines_lines [OF l(3,2,5), of q]
      have e: "drop ?l b = ?post" "newline_before b ?l" using drop_plus [OF l(2)] newline_before_lines [OF l(2,6)] by auto
      show ?thesis
      proof (cases "lookupLines ls q")
        case (Some v)
        then show ?thesis using lines l(1,4) header True sec by fastforce
      next
        case None
        then have rl: "readLines b (q @ [0]) l = readLines b (q @ [0]) ?l" using lines l(4) by simp
        show ?thesis
        proof (cases doc)
          case Nil
          have "\<exists>p1. parseFrom b (s @ [0]) (q @ [0]) p i = Inr (1, p1)" if r: "rest = 255 # 0 # 0 # r"
          proof -
            have "readLines b (q @ [0]) ?l = Inr (Inl (?l + 2))" using e(1) r Nil l(5) by (intro readLines_end) simp_all
            moreover have "drop (?l + 2) b = 0 # r" using drop_plus [of ?l b "[255, 0]" "0 # r"] e(1) r Nil by simp
            ultimately show ?thesis using header True l(1) rl parse_end [of "?l + 2" b r] by simp
          qed
          then show ?thesis using None True sec Nil by simp
        next
          case (Cons sec1 doc1)
          then have "hd (docBytes doc) = 91" "docBytes doc \<noteq> []" by (cases sec1, simp)+
          then have "drop ?l b = 91 # tl (docBytes doc) @ rest" using e(1) by (metis append_Cons list.collapse)
          then have "readLines b (q @ [0]) ?l = Inr (Inl ?l)" using e(2) l(5) by (intro readLines_next) simp_all
          then show ?thesis using Cons.IH [OF doc e, of "p\<lparr>secS := int i, secE := int l - 1\<rparr>"] header True l(1) rl None sec
            by (auto split: option.splits)
        qed
      qed
    qed
  qed
qed

text \<open>\<open>readString\<close> on a document that was loaded.\<close>

lemma loadFile_bytes:
  "255 \<notin> set bytes \<Longrightarrow> i + length bytes < MAX_CONFIG_FILE_SIZE \<Longrightarrow> length mem = MAX_CONFIG_FILE_SIZE \<Longrightarrow>
   loadFile bytes i mem = (i + length bytes, take i mem @ bytes @ 255 # drop (Suc (i + length bytes)) mem)"
proof (induction bytes arbitrary: i mem)
  case Nil
  then show ?case by (simp add: upd_conv_take_nth_drop EOF_char_def)
next
  case (Cons c bytes)
  then show ?case by (simp add: EOF_char_def take_Suc_conv_app_nth)
qed

lemma new_loads:
  assumes "fs (cstr name) = Some bytes" and "firstByte name \<noteq> 0" and "255 \<notin> set bytes"
    and "length bytes < MAX_CONFIG_FILE_SIZE" and "length mem = MAX_CONFIG_FILE_SIZE"
  shows "CConfReader_new fs mem name =
    Inr \<lparr>c_buffer = bytes @ 255 # drop (Suc (length bytes)) mem, c_bufferSize = length bytes\<rparr>"
  using loadFile_bytes [of bytes 0 mem] assms by (simp add: CConfReader_new_def)

lemma found_at_slice: "found_at b j eol v \<Longrightarrow> n \<le> length v \<Longrightarrow> take n (drop (Suc j) b) = take n v"
  using take_take [of n "length v" "drop (Suc j) b"] by (simp add: found_at_def)

lemma put_zero: "n \<le> length v \<Longrightarrow> n < length val \<Longrightarrow> (take n v @ drop n val)[n := 0] = take n v @ 0 # drop (Suc n) val"
  by (simp add: list_update_append Cons_nth_drop_Suc [symmetric])

lemma take_min: "take (min a (length v)) v = take a v"
  by (simp add: min_def)

lemma readString_found:
  assumes doc: "doc_ok doc" "lookupDoc doc s q = Some v" and b: "c_buffer r = docBytes doc @ rest" "length (c_buffer r) < 2 ^ 31"
    and s: "firstByte s \<noteq> 0" "firstByte q \<noteq> 0" "c_bufferSize r \<noteq> 0" and sz: "sz \<noteq> 0" "unat sz \<le> length val"
  shows "CConfReader_readString r (s @ [0]) (q @ [0]) val sz =
    Inr (0, take (unat sz - 1) v @ 0 # drop (Suc (min (unat sz - 1) (length v))) val)"
proof -
  obtain p j eol where p: "CConfReader_parseFile r (s @ [0]) (q @ [0]) = Inr (0, p)"
    "valueS p = int (Suc j)" "valueE p = int eol" "found_at (c_buffer r) j eol v"
    using parse_doc [OF doc(1), of 0 "c_buffer r" rest, where s = s and q = q] doc(2) b(1)
    by (fastforce simp: CConfReader_parseFile_def newline_before_def)
  have f: "firstByte (s @ [0]) \<noteq> 0" "firstByte (q @ [0]) \<noteq> 0" "val \<noteq> []"
    using s sz by (cases s; cases q; force simp: firstByte_def word_eq_unat)+
  let ?len = "of_nat (length v) :: ub4_" and ?b = "c_buffer r"
  have eol: "eol = Suc j + length v" "Suc j + length v < length ?b" using p(4) by (simp_all add: found_at_def)
  then have "valueE p - valueS p = int (length v)" using p by simp
  then have wl: "word_of_int (valueE p - valueS p) = ?len" and vs: "nat (valueS p) = Suc j" using p(2) by simp_all
  have "length v < 2 ^ 32" using eol b(2) by simp
  then have ul: "unat ?len = length v" by (simp add: unat_of_nat_lt)
  let ?n = "min (unat sz - 1) (length v)"
  have "unat (if sz - 1 < ?len then sz - 1 else ?len) = ?n"
    using ul sz(1) by (auto simp: word_less_nat_alt word_nonzero_unat unat_minus_le)
  moreover have "?n \<le> length val" "Suc j + ?n \<le> length ?b" using sz(2) eol(2) by linarith+
  then have "memcpy val 0 ?b (Suc j) ?n = Inr (take ?n v @ drop ?n val)"
    using found_at_slice [OF p(4), of ?n] by (simp add: memcpy_def)
  moreover have "?n < length val" using sz by (cases "unat sz") (auto simp: word_nonzero_unat)
  ultimately show ?thesis
    using f s(3) sz(1) take_min [of "unat sz - 1" v] put_zero [of ?n v val]
    unfolding CConfReader_readString_def p(1) bindR_Inr prod.case wl vs Let_def by (simp add: min.commute)
qed

lemma readString_absent:
  assumes doc: "doc_ok doc" "lookupDoc doc s q = None" and b: "c_buffer r = docBytes doc @ 255 # 0 # 0 # rest"
    and s: "firstByte s \<noteq> 0" "firstByte q \<noteq> 0" "c_bufferSize r \<noteq> 0" and sz: "sz \<noteq> 0" "val \<noteq> []"
  shows "CConfReader_readString r (s @ [0]) (q @ [0]) val sz = Inr (3, val)"
proof -
  obtain p where p: "CConfReader_parseFile r (s @ [0]) (q @ [0]) = Inr (1, p)"
    using parse_doc [OF doc(1), of 0 "c_buffer r" "255 # 0 # 0 # rest", where s = s and q = q and r = rest] doc(2) b
    by (fastforce simp: CConfReader_parseFile_def newline_before_def)
  have f: "firstByte (s @ [0]) \<noteq> 0" "firstByte (q @ [0]) \<noteq> 0"
    using s by (cases s; cases q; force simp: firstByte_def)+
  then show ?thesis using p s sz by (simp add: CConfReader_readString_def)
qed
end
