(* ===== verification/Config.thy ===== *)
theory Config
  imports Prelude
begin

text \<open>
  The configuration globals of src/src/config/Config.h as one record, in the order the
  header declares them.
\<close>

record config =
  RUN_AS_DAEMON :: ub4_
  NAME :: "ub1_ list"
  BASE_BUILD :: ub4_
  PROTOCOL_VERSION :: ub2_
  LISTEN_IP :: "ub1_ list"
  LISTEN_PORT :: ub2_
  EPOLL_WAIT_EVENT_NUM :: ub4_
  NODE_GROUP_NUM :: ub4_
  NODE_GROUP_SIZE :: ub4_
  TOTAL_SUPPORT_USER_NUM :: ub4_
  TOTAL_THREAD_NUM :: ub4_
  MESSAGE_MAX_NUM_IN_QUEUE :: ub4_
  THREAD_STACK_SIZE :: ub4_
  HEARTBEAT_INTERVAL :: ub4_
  VALID_DURATION :: ub8_
  VALID_NUMBER :: ub1_
  REDIS_HOST :: "ub1_ list"
  REDIS_PORT :: ub2_
  REDIS_TIMEOUT :: ub4_
  REDIS_AUTH :: "ub1_ list"
  REDIS_DB :: ub1_

end
