(* ===== verification/Message.thy ===== *)
theory Message
  imports Prelude
begin

unbundle bit_operations_syntax

text \<open>
  The wire format of src/src/traffic/Message.h: the constants of the protocol, the
  packed header and the packed PDUs (\<open>#pragma pack(1)\<close>, so every field directly
  follows the one before it), and their layout as bytes.  \<open>X_bytes\<close> is the memory
  image of a struct of type \<open>X\<close>; \<open>X_at bs\<close> is what a pointer cast to \<open>X*\<close> reads
  from the block \<open>bs\<close>.  The sizes of src/src/config/Length.h and Size.h that the
  structs use are here too.
\<close>

section \<open>Little-endian integers\<close>

fun le_bytes :: "nat \<Rightarrow> 'a::len word \<Rightarrow> ub1_ list" where
  "le_bytes 0 w = []"
| "le_bytes (Suc n) w = ucast w # le_bytes n (drop_bit 8 w)"

fun le_word :: "ub1_ list \<Rightarrow> 'a::len word" where
  "le_word [] = 0"
| "le_word (b # bs) = ucast b OR push_bit 8 (le_word bs)"

lemma length_le_bytes [simp]: "length (le_bytes n w) = n"
  by (induction n w rule: le_bytes.induct) simp_all

lemma le_word_le_bytes: "le_word (le_bytes n w) = take_bit (8 * n) w"
proof (induction n w rule: le_bytes.induct)
  case (1 w)
  then show ?case by simp
next
  case (2 n w)
  have "ucast (ucast w :: ub1_) OR push_bit 8 (take_bit (8 * n) (drop_bit 8 w))
      = take_bit (8 * Suc n) w"
    by (rule bit_eqI) (auto simp: bit_simps)
  then show ?case by (simp add: 2)
qed

lemma le_word_le_bytes_full:
  "LENGTH('a) \<le> 8 * n \<Longrightarrow> le_word (le_bytes n (w :: 'a::len word)) = w"
  by (simp add: le_word_le_bytes take_bit_word_eq_self)

lemma byte_bit: "bit (b :: ub1_) n \<Longrightarrow> n < 8"
  by (drule bit_imp_le_length) simp

lemma bit_le_word: "bit (le_word bs :: 'a::len word) m \<Longrightarrow> m < 8 * length bs"
proof (induction bs arbitrary: m)
  case Nil
  then show ?case by simp
next
  case (Cons b bs)
  then show ?case by (fastforce simp: bit_simps dest: byte_bit)
qed

lemma le_bytes_le_word:
  "8 * length bs \<le> LENGTH('a::len) \<Longrightarrow> le_bytes (length bs) (le_word bs :: 'a word) = bs"
proof (induction bs)
  case Nil
  then show ?case by simp
next
  case (Cons b bs)
  have "drop_bit 8 (ucast b OR push_bit 8 (le_word bs :: 'a word)) = le_word bs"
  proof (rule bit_word_eqI)
    fix n assume "n < LENGTH('a)"
    have "\<not> bit b (8 + n)" using byte_bit [of b "8 + n"] by auto
    moreover have "bit (le_word bs :: 'a word) n \<Longrightarrow> 8 + n < LENGTH('a)"
      using Cons.prems bit_le_word [of bs n, where 'a = 'a] by simp
    ultimately show "bit (drop_bit 8 (ucast b OR push_bit 8 (le_word bs :: 'a word))) n
        = bit (le_word bs :: 'a word) n"
      by (auto simp: bit_simps)
  qed
  moreover have "ucast (ucast b OR push_bit 8 (le_word bs :: 'a word)) = b"
    using Cons.prems by (intro bit_eqI) (auto simp: bit_simps)
  ultimately show ?case using Cons by simp
qed


declare le_bytes.simps [simp del]

text \<open>Loading a field that a block holds at offset \<open>i\<close>.\<close>

lemma le_bytes_segment:
  "j - i = n \<Longrightarrow> 8 * n \<le> LENGTH('a::len) \<Longrightarrow> j \<le> length bs \<Longrightarrow>
   le_bytes n (le_word (segment i j bs) :: 'a word) = segment i j bs"
  using le_bytes_le_word [where 'a = 'a, of "segment i j bs"] by simp

named_theorems layout \<open>definitions and facts that evaluate struct layouts\<close>

lemma segment_here [layout]:
  "length xs = j \<Longrightarrow> segment 0 j (xs @ ys) = xs"
  by (simp add: segment_def)

lemma segment_skip [layout]:
  "length xs \<le> i \<Longrightarrow> segment i j (xs @ ys) = segment (i - length xs) (j - length xs) ys"
  by (simp add: segment_def)

lemma segment_all [layout]: "length xs = j \<Longrightarrow> segment 0 j xs = xs"
  by (simp add: segment_def)

section \<open>Constants\<close>

definition Length_IP_V4 :: nat where [layout]: "Length_IP_V4 = 15"
definition Length_SESSION_ID :: nat where [layout]: "Length_SESSION_ID = 16"
definition Length_JSON :: nat where [layout]: "Length_JSON = 384"
definition Size_IP_V4 :: nat where [layout]: "Size_IP_V4 = Length_IP_V4 + 1"
definition Size_SESSION_ID :: nat where [layout]: "Size_SESSION_ID = Length_SESSION_ID + 1"
definition Size_JSON :: nat where [layout]: "Size_JSON = Length_JSON + 1"

definition MSG_MAX_LENGTH :: nat where [layout]: "MSG_MAX_LENGTH = 512"

definition MT_CONTROL :: ub2_ where "MT_CONTROL = 0x0001"
definition MT_ACCOUNT :: ub2_ where "MT_ACCOUNT = 0x0002"
definition MT_SERVICE :: ub2_ where "MT_SERVICE = 0x0003"
definition MT_SIGN_ACK :: ub2_ where "MT_SIGN_ACK = 0x0010"
definition MT_SIGN_LOG :: ub2_ where "MT_SIGN_LOG = 0x0020"
definition MT_SIGN_FEE :: ub2_ where "MT_SIGN_FEE = 0x0040"
definition MT_SIGN_GRP :: ub2_ where "MT_SIGN_GRP = 0x0080"

definition MC_HAND_SHAKE :: ub2_ where "MC_HAND_SHAKE = 0x0001"
definition MC_HEART_BEAT :: ub2_ where "MC_HEART_BEAT = 0x0002"
definition MC_SEND_MSG :: ub2_ where "MC_SEND_MSG = 0x0003"
definition MC_PUSH_MSG :: ub2_ where "MC_PUSH_MSG = 0x0004"
definition MC_ON_TIMER :: ub2_ where "MC_ON_TIMER = 0x8001"
definition MC_ON_OVER :: ub2_ where "MC_ON_OVER = 0x8002"

definition ML_CN :: ub1_ where "ML_CN = 0x01"
definition ML_EN :: ub1_ where "ML_EN = 0x02"

lemmas message_codes =
  MT_CONTROL_def MT_ACCOUNT_def MT_SERVICE_def MT_SIGN_ACK_def MT_SIGN_LOG_def MT_SIGN_FEE_def MT_SIGN_GRP_def
  MC_HAND_SHAKE_def MC_HEART_BEAT_def MC_SEND_MSG_def MC_PUSH_MSG_def
  MC_ON_TIMER_def MC_ON_OVER_def ML_CN_def

section \<open>Header\<close>

record THeader =
  hd_size :: ub2_
  hd_type :: ub2_
  hd_cmd :: ub2_
  hd_ver :: ub2_
  hd_lang :: ub1_
  hd_seq :: ub4_
  hd_stmp :: ub8_
  hd_ext :: ub8_

definition sizeof_THeader :: nat where [layout]:
  "sizeof_THeader = 2 + 2 + 2 + 2 + 1 + 4 + 8 + 8"

definition THeader_bytes :: "THeader \<Rightarrow> ub1_ list" where
  "THeader_bytes h =
     le_bytes 2 (hd_size h) @ le_bytes 2 (hd_type h) @ le_bytes 2 (hd_cmd h) @
     le_bytes 2 (hd_ver h) @ le_bytes 1 (hd_lang h) @ le_bytes 4 (hd_seq h) @
     le_bytes 8 (hd_stmp h) @ le_bytes 8 (hd_ext h)"

definition THeader_at :: "ub1_ list \<Rightarrow> THeader" where
  "THeader_at bs =
     \<lparr>hd_size = le_word (segment 0 2 bs), hd_type = le_word (segment 2 4 bs),
      hd_cmd = le_word (segment 4 6 bs), hd_ver = le_word (segment 6 8 bs),
      hd_lang = le_word (segment 8 9 bs), hd_seq = le_word (segment 9 13 bs),
      hd_stmp = le_word (segment 13 21 bs), hd_ext = le_word (segment 21 29 bs)\<rparr>"

lemma length_THeader_bytes [simp]: "length (THeader_bytes h) = sizeof_THeader"
  by (simp add: THeader_bytes_def sizeof_THeader_def)

lemma THeader_at_bytes: "THeader_at (THeader_bytes h @ rest) = h"
  by (simp add: THeader_at_def THeader_bytes_def layout le_word_le_bytes_full)

lemma THeader_bytes_at:
  assumes "sizeof_THeader \<le> length bs"
  shows "THeader_bytes (THeader_at bs) = take sizeof_THeader bs"
proof -
  have "29 \<le> length bs" using assms by (simp add: layout)
  then have "THeader_bytes (THeader_at bs) =
      segment 0 2 bs @ segment 2 4 bs @ segment 4 6 bs @ segment 6 8 bs @ segment 8 9 bs @
      segment 9 13 bs @ segment 13 21 bs @ segment 21 29 bs"
    by (simp add: THeader_bytes_def THeader_at_def le_bytes_segment)
  also have "\<dots> = segment 0 29 bs"
    by (simp add: segment_append_segment)
  finally show ?thesis by (simp add: segment_0 layout)
qed


section \<open>PDUs\<close>

text \<open>
  Each PDU is the header followed by its own fields.  A \<open>TAck\<close> is its one
  field \<open>code\<close>; character arrays are byte lists of the array's size.
\<close>

record TPDUHandShake =
  hs_header :: THeader
  hs_build :: ub4_
  hs_lastUpdate :: ub8_
  hs_sessionId :: "ub1_ list"

definition sizeof_TPDUHandShake :: nat where [layout]:
  "sizeof_TPDUHandShake = sizeof_THeader + 4 + 8 + Size_SESSION_ID"

definition TPDUHandShake_bytes :: "TPDUHandShake \<Rightarrow> ub1_ list" where
  "TPDUHandShake_bytes m = THeader_bytes (hs_header m) @ le_bytes 4 (hs_build m) @ le_bytes 8 (hs_lastUpdate m) @ hs_sessionId m"

definition TPDUHandShake_at :: "ub1_ list \<Rightarrow> TPDUHandShake" where
  "TPDUHandShake_at bs =
     \<lparr>hs_header = THeader_at bs,
      hs_build = le_word (segment 29 33 bs),
      hs_lastUpdate = le_word (segment 33 41 bs),
      hs_sessionId = segment 41 58 bs\<rparr>"

record TPDUHandShakeAck =
  hsa_header :: THeader
  hsa_code :: ub2_

definition sizeof_TPDUHandShakeAck :: nat where [layout]:
  "sizeof_TPDUHandShakeAck = sizeof_THeader + 2"

definition TPDUHandShakeAck_bytes :: "TPDUHandShakeAck \<Rightarrow> ub1_ list" where
  "TPDUHandShakeAck_bytes m = THeader_bytes (hsa_header m) @ le_bytes 2 (hsa_code m)"

definition TPDUHandShakeAck_at :: "ub1_ list \<Rightarrow> TPDUHandShakeAck" where
  "TPDUHandShakeAck_at bs =
     \<lparr>hsa_header = THeader_at bs,
      hsa_code = le_word (segment 29 31 bs)\<rparr>"

record TPDUHeartBeat =
  hb_header :: THeader

definition sizeof_TPDUHeartBeat :: nat where [layout]:
  "sizeof_TPDUHeartBeat = sizeof_THeader"

definition TPDUHeartBeat_bytes :: "TPDUHeartBeat \<Rightarrow> ub1_ list" where
  "TPDUHeartBeat_bytes m = THeader_bytes (hb_header m)"

definition TPDUHeartBeat_at :: "ub1_ list \<Rightarrow> TPDUHeartBeat" where
  "TPDUHeartBeat_at bs =
     \<lparr>hb_header = THeader_at bs\<rparr>"

record TPDUHeartBeatAck =
  hba_header :: THeader
  hba_code :: ub2_

definition sizeof_TPDUHeartBeatAck :: nat where [layout]:
  "sizeof_TPDUHeartBeatAck = sizeof_THeader + 2"

definition TPDUHeartBeatAck_bytes :: "TPDUHeartBeatAck \<Rightarrow> ub1_ list" where
  "TPDUHeartBeatAck_bytes m = THeader_bytes (hba_header m) @ le_bytes 2 (hba_code m)"

definition TPDUHeartBeatAck_at :: "ub1_ list \<Rightarrow> TPDUHeartBeatAck" where
  "TPDUHeartBeatAck_at bs =
     \<lparr>hba_header = THeader_at bs,
      hba_code = le_word (segment 29 31 bs)\<rparr>"

record TPDUSendMsg =
  sm_header :: THeader
  sm_dstType :: ub1_
  sm_dstId :: ub8_
  sm_json :: "ub1_ list"

definition sizeof_TPDUSendMsg :: nat where [layout]:
  "sizeof_TPDUSendMsg = sizeof_THeader + 1 + 8 + Size_JSON"

definition TPDUSendMsg_bytes :: "TPDUSendMsg \<Rightarrow> ub1_ list" where
  "TPDUSendMsg_bytes m = THeader_bytes (sm_header m) @ le_bytes 1 (sm_dstType m) @ le_bytes 8 (sm_dstId m) @ sm_json m"

definition TPDUSendMsg_at :: "ub1_ list \<Rightarrow> TPDUSendMsg" where
  "TPDUSendMsg_at bs =
     \<lparr>sm_header = THeader_at bs,
      sm_dstType = le_word (segment 29 30 bs),
      sm_dstId = le_word (segment 30 38 bs),
      sm_json = segment 38 423 bs\<rparr>"

record TPDUSendMsgAck =
  sma_header :: THeader
  sma_code :: ub2_
  sma_messageId :: ub8_

definition sizeof_TPDUSendMsgAck :: nat where [layout]:
  "sizeof_TPDUSendMsgAck = sizeof_THeader + 2 + 8"

definition TPDUSendMsgAck_bytes :: "TPDUSendMsgAck \<Rightarrow> ub1_ list" where
  "TPDUSendMsgAck_bytes m = THeader_bytes (sma_header m) @ le_bytes 2 (sma_code m) @ le_bytes 8 (sma_messageId m)"

definition TPDUSendMsgAck_at :: "ub1_ list \<Rightarrow> TPDUSendMsgAck" where
  "TPDUSendMsgAck_at bs =
     \<lparr>sma_header = THeader_at bs,
      sma_code = le_word (segment 29 31 bs),
      sma_messageId = le_word (segment 31 39 bs)\<rparr>"

record TPDUPushMsg =
  pm_header :: THeader
  pm_ornType :: ub1_
  pm_ornId :: ub8_
  pm_ornExtId :: ub8_
  pm_messageId :: ub8_
  pm_json :: "ub1_ list"

definition sizeof_TPDUPushMsg :: nat where [layout]:
  "sizeof_TPDUPushMsg = sizeof_THeader + 1 + 8 + 8 + 8 + Size_JSON"

definition TPDUPushMsg_bytes :: "TPDUPushMsg \<Rightarrow> ub1_ list" where
  "TPDUPushMsg_bytes m = THeader_bytes (pm_header m) @ le_bytes 1 (pm_ornType m) @ le_bytes 8 (pm_ornId m) @ le_bytes 8 (pm_ornExtId m) @ le_bytes 8 (pm_messageId m) @ pm_json m"

definition TPDUPushMsg_at :: "ub1_ list \<Rightarrow> TPDUPushMsg" where
  "TPDUPushMsg_at bs =
     \<lparr>pm_header = THeader_at bs,
      pm_ornType = le_word (segment 29 30 bs),
      pm_ornId = le_word (segment 30 38 bs),
      pm_ornExtId = le_word (segment 38 46 bs),
      pm_messageId = le_word (segment 46 54 bs),
      pm_json = segment 54 439 bs\<rparr>"

record TPDUPushMsgAck =
  pma_header :: THeader
  pma_code :: ub2_

definition sizeof_TPDUPushMsgAck :: nat where [layout]:
  "sizeof_TPDUPushMsgAck = sizeof_THeader + 2"

definition TPDUPushMsgAck_bytes :: "TPDUPushMsgAck \<Rightarrow> ub1_ list" where
  "TPDUPushMsgAck_bytes m = THeader_bytes (pma_header m) @ le_bytes 2 (pma_code m)"

definition TPDUPushMsgAck_at :: "ub1_ list \<Rightarrow> TPDUPushMsgAck" where
  "TPDUPushMsgAck_at bs =
     \<lparr>pma_header = THeader_at bs,
      pma_code = le_word (segment 29 31 bs)\<rparr>"

record TPDUOnTimer =
  ot_header :: THeader
  ot_timerId :: ub8_
  ot_parameter :: ub8_

definition sizeof_TPDUOnTimer :: nat where [layout]:
  "sizeof_TPDUOnTimer = sizeof_THeader + 8 + 8"

definition TPDUOnTimer_bytes :: "TPDUOnTimer \<Rightarrow> ub1_ list" where
  "TPDUOnTimer_bytes m = THeader_bytes (ot_header m) @ le_bytes 8 (ot_timerId m) @ le_bytes 8 (ot_parameter m)"

definition TPDUOnTimer_at :: "ub1_ list \<Rightarrow> TPDUOnTimer" where
  "TPDUOnTimer_at bs =
     \<lparr>ot_header = THeader_at bs,
      ot_timerId = le_word (segment 29 37 bs),
      ot_parameter = le_word (segment 37 45 bs)\<rparr>"

record TPDUOnOver =
  oo_header :: THeader
  oo_reason :: b4_

definition sizeof_TPDUOnOver :: nat where [layout]:
  "sizeof_TPDUOnOver = sizeof_THeader + 4"

definition TPDUOnOver_bytes :: "TPDUOnOver \<Rightarrow> ub1_ list" where
  "TPDUOnOver_bytes m = THeader_bytes (oo_header m) @ le_bytes 4 (oo_reason m)"

definition TPDUOnOver_at :: "ub1_ list \<Rightarrow> TPDUOnOver" where
  "TPDUOnOver_at bs =
     \<lparr>oo_header = THeader_at bs,
      oo_reason = le_word (segment 29 33 bs)\<rparr>"

text \<open>The two round trips, for every PDU.\<close>

lemmas PDU_bytes_defs =
  TPDUHandShake_bytes_def
  TPDUHandShakeAck_bytes_def
  TPDUHeartBeat_bytes_def
  TPDUHeartBeatAck_bytes_def
  TPDUSendMsg_bytes_def
  TPDUSendMsgAck_bytes_def
  TPDUPushMsg_bytes_def
  TPDUPushMsgAck_bytes_def
  TPDUOnTimer_bytes_def
  TPDUOnOver_bytes_def

lemmas PDU_at_defs =
  TPDUHandShake_at_def
  TPDUHandShakeAck_at_def
  TPDUHeartBeat_at_def
  TPDUHeartBeatAck_at_def
  TPDUSendMsg_at_def
  TPDUSendMsgAck_at_def
  TPDUPushMsg_at_def
  TPDUPushMsgAck_at_def
  TPDUOnTimer_at_def
  TPDUOnOver_at_def

lemma length_TPDUHandShake [simp]:
  "length (hs_sessionId m) = Size_SESSION_ID \<Longrightarrow> length (TPDUHandShake_bytes m) = sizeof_TPDUHandShake"
  by (simp add: TPDUHandShake_bytes_def sizeof_TPDUHandShake_def)

lemma TPDUHandShake_at_bytes:
  "length (hs_sessionId m) = Size_SESSION_ID \<Longrightarrow> TPDUHandShake_at (TPDUHandShake_bytes m @ rest) = m"
  by (simp add: TPDUHandShake_at_def TPDUHandShake_bytes_def THeader_at_bytes layout le_word_le_bytes_full)

lemma length_TPDUHandShakeAck [simp]:
  "length (TPDUHandShakeAck_bytes m) = sizeof_TPDUHandShakeAck"
  by (simp add: TPDUHandShakeAck_bytes_def sizeof_TPDUHandShakeAck_def)

lemma TPDUHandShakeAck_at_bytes:
  "TPDUHandShakeAck_at (TPDUHandShakeAck_bytes m @ rest) = m"
  by (simp add: TPDUHandShakeAck_at_def TPDUHandShakeAck_bytes_def THeader_at_bytes layout le_word_le_bytes_full)

lemma length_TPDUHeartBeat [simp]:
  "length (TPDUHeartBeat_bytes m) = sizeof_TPDUHeartBeat"
  by (simp add: TPDUHeartBeat_bytes_def sizeof_TPDUHeartBeat_def)

lemma TPDUHeartBeat_at_bytes:
  "TPDUHeartBeat_at (TPDUHeartBeat_bytes m @ rest) = m"
  by (simp add: TPDUHeartBeat_at_def TPDUHeartBeat_bytes_def THeader_at_bytes layout le_word_le_bytes_full)

lemma length_TPDUHeartBeatAck [simp]:
  "length (TPDUHeartBeatAck_bytes m) = sizeof_TPDUHeartBeatAck"
  by (simp add: TPDUHeartBeatAck_bytes_def sizeof_TPDUHeartBeatAck_def)

lemma TPDUHeartBeatAck_at_bytes:
  "TPDUHeartBeatAck_at (TPDUHeartBeatAck_bytes m @ rest) = m"
  by (simp add: TPDUHeartBeatAck_at_def TPDUHeartBeatAck_bytes_def THeader_at_bytes layout le_word_le_bytes_full)

lemma length_TPDUSendMsg [simp]:
  "length (sm_json m) = Size_JSON \<Longrightarrow> length (TPDUSendMsg_bytes m) = sizeof_TPDUSendMsg"
  by (simp add: TPDUSendMsg_bytes_def sizeof_TPDUSendMsg_def)

lemma TPDUSendMsg_at_bytes:
  "length (sm_json m) = Size_JSON \<Longrightarrow> TPDUSendMsg_at (TPDUSendMsg_bytes m @ rest) = m"
  by (simp add: TPDUSendMsg_at_def TPDUSendMsg_bytes_def THeader_at_bytes layout le_word_le_bytes_full)

lemma length_TPDUSendMsgAck [simp]:
  "length (TPDUSendMsgAck_bytes m) = sizeof_TPDUSendMsgAck"
  by (simp add: TPDUSendMsgAck_bytes_def sizeof_TPDUSendMsgAck_def)

lemma TPDUSendMsgAck_at_bytes:
  "TPDUSendMsgAck_at (TPDUSendMsgAck_bytes m @ rest) = m"
  by (simp add: TPDUSendMsgAck_at_def TPDUSendMsgAck_bytes_def THeader_at_bytes layout le_word_le_bytes_full)

lemma length_TPDUPushMsg [simp]:
  "length (pm_json m) = Size_JSON \<Longrightarrow> length (TPDUPushMsg_bytes m) = sizeof_TPDUPushMsg"
  by (simp add: TPDUPushMsg_bytes_def sizeof_TPDUPushMsg_def)

lemma TPDUPushMsg_at_bytes:
  "length (pm_json m) = Size_JSON \<Longrightarrow> TPDUPushMsg_at (TPDUPushMsg_bytes m @ rest) = m"
  by (simp add: TPDUPushMsg_at_def TPDUPushMsg_bytes_def THeader_at_bytes layout le_word_le_bytes_full)

lemma length_TPDUPushMsgAck [simp]:
  "length (TPDUPushMsgAck_bytes m) = sizeof_TPDUPushMsgAck"
  by (simp add: TPDUPushMsgAck_bytes_def sizeof_TPDUPushMsgAck_def)

lemma TPDUPushMsgAck_at_bytes:
  "TPDUPushMsgAck_at (TPDUPushMsgAck_bytes m @ rest) = m"
  by (simp add: TPDUPushMsgAck_at_def TPDUPushMsgAck_bytes_def THeader_at_bytes layout le_word_le_bytes_full)

lemma length_TPDUOnTimer [simp]:
  "length (TPDUOnTimer_bytes m) = sizeof_TPDUOnTimer"
  by (simp add: TPDUOnTimer_bytes_def sizeof_TPDUOnTimer_def)

lemma TPDUOnTimer_at_bytes:
  "TPDUOnTimer_at (TPDUOnTimer_bytes m @ rest) = m"
  by (simp add: TPDUOnTimer_at_def TPDUOnTimer_bytes_def THeader_at_bytes layout le_word_le_bytes_full)

lemma length_TPDUOnOver [simp]:
  "length (TPDUOnOver_bytes m) = sizeof_TPDUOnOver"
  by (simp add: TPDUOnOver_bytes_def sizeof_TPDUOnOver_def)

lemma TPDUOnOver_at_bytes:
  "TPDUOnOver_at (TPDUOnOver_bytes m @ rest) = m"
  by (simp add: TPDUOnOver_at_def TPDUOnOver_bytes_def THeader_at_bytes layout le_word_le_bytes_full)


definition ex_header :: THeader where
  "ex_header = \<lparr>hd_size = 0x1234, hd_type = 1, hd_cmd = 2, hd_ver = 3, hd_lang = 4, hd_seq = 5, hd_stmp = 6, hd_ext = 7\<rparr>"


end
