(* ===== verification/Loop_Buffer.thy ===== *)
theory Loop_Buffer
  imports Prelude
begin

text \<open>
  The ring buffer of src/src/common/CLoopBuffer.h and CLoopBuffer.cpp.  The
  record has the class's fields; \<open>_writePos\<close> and \<open>_readPos\<close> are offsets from
  \<open>__buffer\<close>.  Every operation holds \<open>_mutex\<close> for its whole body, so each is one
  atomic step.  \<open>contents\<close> is the abstraction to the byte sequence that is
  stored; \<open>lb_wf\<close> is the class invariant; the locale \<open>byte_queue\<close> is the contract
  the clients of the buffer rely on, and the buffer is shown to implement it.
\<close>

section \<open>State and operations\<close>

record loopBuffer =
  buffer :: "ub1_ list"
  totalSize :: ub4_
  actualSize :: ub4_
  usedSize :: ub4_
  freeSize :: ub4_
  isPadding :: bool
  padding :: ub4_
  writePos :: nat
  readPos :: nat

definition CLoopBuffer_new :: "ub1_ list \<Rightarrow> ub4_ \<Rightarrow> bool \<Rightarrow> loopBuffer result" where
  "CLoopBuffer_new mem sz isPad =
     assertR (sz \<noteq> 0)
       (Inr \<lparr>buffer = mem, totalSize = sz, actualSize = sz, usedSize = 0,
             freeSize = sz, isPadding = isPad, padding = 0, writePos = 0, readPos = 0\<rparr>)"

definition CLoopBuffer_write :: "loopBuffer \<Rightarrow> ub1_ list \<Rightarrow> ub4_ \<Rightarrow> (bool \<times> loopBuffer) result" where
  "CLoopBuffer_write q buf sz =
     assertR (sz \<noteq> 0)
     (if freeSize q < sz then Inr (False, q)
      else bindR
        (if readPos q \<le> writePos q then
           (let rightSize = ptrdiff (unat (totalSize q)) (writePos q);
                leftSize = ptrdiff (readPos q) 0
            in assertR (padding q = 0)
              (assertR (actualSize q = totalSize q)
              (assertR (freeSize q \<le> totalSize q)
              (assertR (int (writePos q) - int (readPos q) = sint (usedSize q))
              (assertR (rightSize + leftSize = freeSize q)
              (if sz \<le> rightSize then
                 bindR (memcpy (buffer q) (writePos q) buf 0 (unat sz))
                   (\<lambda>b. Inr (True, q\<lparr>buffer := b, writePos := writePos q + unat sz\<rparr>))
               else if isPadding q then
                 (if leftSize < sz then Inr (False, q)
                  else
                    (let q1 = q\<lparr>padding := rightSize,
                               actualSize := actualSize q - rightSize,
                               freeSize := freeSize q - rightSize\<rparr>
                     in assertR (freeSize q1 = leftSize)
                       (bindR (memcpy (buffer q1) 0 buf 0 (unat sz))
                         (\<lambda>b. Inr (True, q1\<lparr>buffer := b, writePos := unat sz\<rparr>)))))
               else
                 bindR (memcpy (buffer q) (writePos q) buf 0 (unat rightSize))
                   (\<lambda>b1. bindR (memcpy b1 0 buf (unat rightSize) (unat (sz - rightSize)))
                     (\<lambda>b2. Inr (True, q\<lparr>buffer := b2,
                                        writePos := unat (sz - rightSize)\<rparr>)))))))))
         else
           assertR (int (readPos q) - int (writePos q) = sint (freeSize q))
             (bindR (memcpy (buffer q) (writePos q) buf 0 (unat sz))
               (\<lambda>b. let q1 = q\<lparr>buffer := b, writePos := writePos q + unat sz\<rparr>
                    in assertR (writePos q1 \<le> readPos q1) (Inr (True, q1)))))
        (\<lambda>(ok, q1).
           if ok then Inr (True, q1\<lparr>usedSize := usedSize q1 + sz,
                                    freeSize := freeSize q1 - sz\<rparr>)
           else Inr (False, q1)))"

text \<open>
  \<open>read(buffer, size)\<close>: the destination is a block \<open>dst\<close> and an offset into it;
  the result is the number of bytes read and the updated block.
\<close>

definition CLoopBuffer_read ::
  "loopBuffer \<Rightarrow> ub1_ list \<Rightarrow> nat \<Rightarrow> ub4_ \<Rightarrow> (ub4_ \<times> ub1_ list \<times> loopBuffer) result" where
  "CLoopBuffer_read q dst doff sz =
     assertR (sz \<noteq> 0)
     (if usedSize q = 0 then Inr (0, dst, q)
      else bindR
        (if readPos q < writePos q then
           assertR (padding q = 0)
           (assertR (int (writePos q) - int (readPos q) = sint (usedSize q))
           (let n = (if usedSize q < sz then usedSize q else sz)
            in bindR (memcpy dst doff (buffer q) (readPos q) (unat n))
                 (\<lambda>d. Inr (n, d, q\<lparr>readPos := readPos q + unat n\<rparr>))))
         else
           assertR (int (readPos q) - int (writePos q) = sint (freeSize q))
           (let uiRightSize = ptrdiff (unat (actualSize q)) (readPos q);
                uiLeftSize = ptrdiff (writePos q) 0
            in assertR (actualSize q = totalSize q - padding q)
              (assertR (uiRightSize + uiLeftSize = usedSize q)
              (if sz \<le> uiRightSize then
                 bindR (memcpy dst doff (buffer q) (readPos q) (unat sz))
                   (\<lambda>d. Inr (sz, d,
                       (if uiRightSize = sz \<and> padding q \<noteq> 0
                        then q\<lparr>actualSize := actualSize q + padding q,
                               freeSize := freeSize q + padding q,
                               padding := 0, readPos := 0\<rparr>
                        else q\<lparr>readPos := readPos q + unat sz\<rparr>)))
               else
                 (let n = (if usedSize q < sz then usedSize q else sz)
                  in bindR (memcpy dst doff (buffer q) (readPos q) (unat uiRightSize))
                    (\<lambda>d1. bindR (memcpy d1 (doff + unat uiRightSize) (buffer q) 0
                                        (unat (n - uiRightSize)))
                      (\<lambda>d2. let q1 = q\<lparr>readPos := unat (n - uiRightSize)\<rparr>
                            in Inr (n, d2,
                              (if padding q \<noteq> 0
                               then q1\<lparr>actualSize := actualSize q1 + padding q1,
                                       freeSize := freeSize q1 + padding q1,
                                       padding := 0\<rparr>
                               else q1)))))))))
        (\<lambda>(n, d, q1). Inr (n, d, q1\<lparr>usedSize := usedSize q1 - n,
                                       freeSize := freeSize q1 + n\<rparr>)))"

definition CLoopBuffer_reset :: "loopBuffer \<Rightarrow> loopBuffer" where
  "CLoopBuffer_reset q =
     q\<lparr>actualSize := totalSize q, usedSize := 0, freeSize := totalSize q,
       padding := 0, writePos := 0, readPos := 0\<rparr>"

section \<open>Invariant and abstraction\<close>

definition lb_straight :: "loopBuffer \<Rightarrow> bool" where
  "lb_straight q \<longleftrightarrow>
     padding q = 0 \<and> readPos q \<le> writePos q \<and> writePos q \<le> unat (totalSize q) \<and>
     unat (usedSize q) = writePos q - readPos q"

definition lb_wrapped :: "loopBuffer \<Rightarrow> bool" where
  "lb_wrapped q \<longleftrightarrow>
     writePos q \<le> readPos q \<and> readPos q \<le> unat (actualSize q) \<and> 0 < unat (actualSize q) \<and>
     unat (usedSize q) = (unat (actualSize q) - readPos q) + writePos q \<and>
     (padding q \<noteq> 0 \<longrightarrow> isPadding q)"

definition lb_wf :: "loopBuffer \<Rightarrow> bool" where
  "lb_wf q \<longleftrightarrow>
     length (buffer q) = unat (totalSize q) \<and> 0 < unat (totalSize q) \<and>
     unat (totalSize q) < 2 ^ 31 \<and>
     unat (actualSize q) + unat (padding q) = unat (totalSize q) \<and>
     unat (usedSize q) + unat (freeSize q) = unat (actualSize q) \<and>
     (lb_straight q \<or> lb_wrapped q)"

definition contents :: "loopBuffer \<Rightarrow> ub1_ list" where
  "contents q =
     (if readPos q < writePos q \<or> usedSize q = 0
      then segment (readPos q) (writePos q) (buffer q)
      else segment (readPos q) (unat (actualSize q)) (buffer q)
           @ segment 0 (writePos q) (buffer q))"

lemma lb_wf_bounds:
  assumes "lb_wf q"
  shows "unat (usedSize q) < 2 ^ 31" "unat (freeSize q) < 2 ^ 31" "unat (actualSize q) < 2 ^ 31"
    "unat (padding q) < 2 ^ 31" "unat (totalSize q) < 2 ^ 31"
    "writePos q \<le> unat (totalSize q)" "readPos q \<le> unat (totalSize q)"
  using assms by (auto simp: lb_wf_def lb_straight_def lb_wrapped_def)

lemma lb_straightI:
  assumes "lb_wf q" and "readPos q \<le> writePos q" and "0 < unat (freeSize q)"
  shows "lb_straight q"
  using assms by (auto simp: lb_wf_def lb_wrapped_def)

lemma lb_wrappedI:
  assumes "lb_wf q" and "writePos q \<le> readPos q" and "0 < unat (usedSize q) \<or> writePos q < readPos q"
  shows "lb_wrapped q"
  using assms by (auto simp: lb_wf_def lb_straight_def)

lemma lb_straight_asserts:
  assumes "lb_wf q" and "lb_straight q"
  shows "padding q = 0" "actualSize q = totalSize q" "freeSize q \<le> totalSize q"
    "int (writePos q) - int (readPos q) = sint (usedSize q)"
    "ptrdiff (unat (totalSize q)) (writePos q) + ptrdiff (readPos q) 0 = freeSize q"
proof -
  note b = lb_wf_bounds [OF assms(1)]
  show "padding q = 0" using assms(2) by (simp add: lb_straight_def)
  then show a: "actualSize q = totalSize q"
    using assms(1) by (simp add: lb_wf_def word_eq_unat)
  show "freeSize q \<le> totalSize q"
    using assms(1) a by (simp add: lb_wf_def word_le_nat_alt)
  show "int (writePos q) - int (readPos q) = sint (usedSize q)"
    using assms(2) b(1) by (simp add: sint_small lb_straight_def of_nat_diff)
  have "unat (ptrdiff (unat (totalSize q)) (writePos q)) = unat (totalSize q) - writePos q"
    using b by (intro unat_ptrdiff) simp_all
  moreover have "unat (ptrdiff (readPos q) 0) = readPos q"
    using b by (subst unat_ptrdiff) simp_all
  ultimately show "ptrdiff (unat (totalSize q)) (writePos q) + ptrdiff (readPos q) 0 = freeSize q"
    using assms a b unfolding word_eq_unat by (subst unat_plus_lt) (auto simp: lb_wf_def lb_straight_def)
qed

lemma lb_wrapped_asserts:
  assumes "lb_wf q" and "lb_wrapped q"
  shows "int (readPos q) - int (writePos q) = sint (freeSize q)"
    "actualSize q = totalSize q - padding q"
    "ptrdiff (unat (actualSize q)) (readPos q) + ptrdiff (writePos q) 0 = usedSize q"
proof -
  note b = lb_wf_bounds [OF assms(1)]
  show "int (readPos q) - int (writePos q) = sint (freeSize q)"
  proof -
    have "readPos q = writePos q + unat (freeSize q)"
      using assms by (auto simp: lb_wf_def lb_wrapped_def)
    then show ?thesis using b(2) by (simp add: sint_small)
  qed
  show "actualSize q = totalSize q - padding q"
    using assms(1) by (auto simp: lb_wf_def word_eq_unat unat_minus_le)
  have "unat (ptrdiff (unat (actualSize q)) (readPos q)) = unat (actualSize q) - readPos q"
    using assms(2) b by (intro unat_ptrdiff) (simp_all add: lb_wrapped_def)
  moreover have "unat (ptrdiff (writePos q) 0) = writePos q"
    using b by (subst unat_ptrdiff) simp_all
  ultimately show "ptrdiff (unat (actualSize q)) (readPos q) + ptrdiff (writePos q) 0 = usedSize q"
    using assms(2) b unfolding word_eq_unat by (subst unat_plus_lt) (auto simp: lb_wrapped_def)
qed
lemma contents_straight:
  "lb_wf q \<Longrightarrow> lb_straight q \<Longrightarrow> contents q = segment (readPos q) (writePos q) (buffer q)"
  by (auto simp: contents_def lb_straight_def word_eq_unat)

lemma contents_wrapped:
  "lb_wf q \<Longrightarrow> lb_wrapped q \<Longrightarrow>
   contents q = segment (readPos q) (unat (actualSize q)) (buffer q) @ segment 0 (writePos q) (buffer q)"
  by (auto simp: contents_def lb_wrapped_def word_eq_unat lb_wf_def)

lemma length_contents: "lb_wf q \<Longrightarrow> length (contents q) = unat (usedSize q)"
  unfolding lb_wf_def
  by (auto simp: contents_straight contents_wrapped lb_wf_def lb_straight_def lb_wrapped_def)


section \<open>The branches of write\<close>

text \<open>What a successful write stores, branch by branch.\<close>

lemma write_right:
  assumes wf: "lb_wf q" and st: "lb_straight q" and sz: "sz \<noteq> 0" "unat sz \<le> length buf"
    and fits: "unat sz \<le> unat (totalSize q) - writePos q"
  shows "CLoopBuffer_write q buf sz = Inr (True,
     q\<lparr>buffer := take (writePos q) (buffer q) @ take (unat sz) buf @ drop (writePos q + unat sz) (buffer q),
       writePos := writePos q + unat sz, usedSize := usedSize q + sz, freeSize := freeSize q - sz\<rparr>)"
proof -
  note b = lb_wf_bounds [OF wf] and a = lb_straight_asserts [OF wf st]
  have "unat (ptrdiff (unat (totalSize q)) (writePos q)) = unat (totalSize q) - writePos q"
    using b by (intro unat_ptrdiff) simp_all
  then have right: "sz \<le> ptrdiff (unat (totalSize q)) (writePos q)"
    using fits by (simp add: word_le_nat_alt)
  have "unat sz \<le> unat (freeSize q)"
    using wf st fits a(2) by (auto simp: lb_wf_def lb_straight_def)
  then have "\<not> freeSize q < sz" by (simp add: word_less_nat_alt)
  moreover have "readPos q \<le> writePos q" using st by (simp add: lb_straight_def)
  moreover have "memcpy (buffer q) (writePos q) buf 0 (unat sz) =
      Inr (take (writePos q) (buffer q) @ take (unat sz) buf @ drop (writePos q + unat sz) (buffer q))"
    using fits sz b wf by (subst memcpy_ok) (auto simp: lb_wf_def)
  ultimately show ?thesis
    using sz a right by (simp add: CLoopBuffer_write_def Let_def)
qed

lemma write_around:
  assumes wf: "lb_wf q" and st: "lb_straight q" and sz: "unat sz \<le> length buf"
    and over: "unat (totalSize q) - writePos q < unat sz" and fits: "unat sz \<le> unat (freeSize q)"
    and np: "\<not> isPadding q"
  shows "CLoopBuffer_write q buf sz = Inr (True,
     (let rs = unat (totalSize q) - writePos q; ls = unat sz - rs in
     q\<lparr>buffer := take ls (drop rs buf) @ drop ls (take (writePos q) (buffer q) @ take rs buf),
       writePos := ls, usedSize := usedSize q + sz, freeSize := freeSize q - sz\<rparr>))"
proof -
  note b = lb_wf_bounds [OF wf] and a = lb_straight_asserts [OF wf st]
  define rs where "rs = unat (totalSize q) - writePos q"
  have ur: "unat (ptrdiff (unat (totalSize q)) (writePos q)) = rs"
    unfolding rs_def using b by (intro unat_ptrdiff) simp_all
  then have right: "\<not> sz \<le> ptrdiff (unat (totalSize q)) (writePos q)"
    using over by (simp add: word_le_nat_alt rs_def)
  have us: "unat (sz - ptrdiff (unat (totalSize q)) (writePos q)) = unat sz - rs"
    using over ur by (subst unat_minus_le) (simp_all add: rs_def)
  have nz: "sz \<noteq> 0" using over by auto
  have "\<not> freeSize q < sz" using fits by (simp add: word_less_nat_alt)
  moreover have "readPos q \<le> writePos q" using st by (simp add: lb_straight_def)
  moreover have l: "length (buffer q) = writePos q + rs"
    using wf b by (simp add: lb_wf_def rs_def)
  have m1: "memcpy (buffer q) (writePos q) buf 0 rs = Inr (take (writePos q) (buffer q) @ take rs buf)"
    using over sz l by (subst memcpy_ok) (auto simp: rs_def)
  have "unat sz - rs \<le> writePos q + rs"
    using fits wf st a(2) l by (auto simp: lb_wf_def lb_straight_def)
  then have m2: "memcpy (take (writePos q) (buffer q) @ take rs buf) 0 buf rs (unat sz - rs) =
     Inr (take (unat sz - rs) (drop rs buf) @ drop (unat sz - rs) (take (writePos q) (buffer q) @ take rs buf))"
    using over sz l by (subst memcpy_ok) (auto simp: rs_def)
  ultimately show ?thesis
    using a right nz np by (simp add: CLoopBuffer_write_def Let_def ur us m1 m2 flip: rs_def)
qed

lemma write_left:
  assumes wf: "lb_wf q" and lt: "writePos q < readPos q" and sz: "sz \<noteq> 0" "unat sz \<le> length buf"
    and fits: "unat sz \<le> unat (freeSize q)"
  shows "CLoopBuffer_write q buf sz = Inr (True,
     q\<lparr>buffer := take (writePos q) (buffer q) @ take (unat sz) buf @ drop (writePos q + unat sz) (buffer q),
       writePos := writePos q + unat sz, usedSize := usedSize q + sz, freeSize := freeSize q - sz\<rparr>)"
proof -
  note b = lb_wf_bounds [OF wf]
  have wr: "lb_wrapped q" using lb_wrappedI [OF wf] lt by simp
  note a = lb_wrapped_asserts [OF wf wr]
  have r: "readPos q = writePos q + unat (freeSize q)"
    using wf wr by (auto simp: lb_wf_def lb_wrapped_def)
  have "memcpy (buffer q) (writePos q) buf 0 (unat sz) =
      Inr (take (writePos q) (buffer q) @ take (unat sz) buf @ drop (writePos q + unat sz) (buffer q))"
    using fits sz b wf r by (subst memcpy_ok) (auto simp: lb_wf_def)
  then show ?thesis
    using sz a lt fits r by (simp add: CLoopBuffer_write_def Let_def word_less_nat_alt not_less)
qed

lemma write_padded:
  assumes wf: "lb_wf q" and st: "lb_straight q" and sz: "unat sz \<le> length buf"
    and over: "unat (totalSize q) - writePos q < unat sz" and fits: "unat sz \<le> readPos q"
    and np: "isPadding q"
  shows "CLoopBuffer_write q buf sz = Inr (True,
     (let pad = ptrdiff (unat (totalSize q)) (writePos q) in
     q\<lparr>buffer := take (unat sz) buf @ drop (unat sz) (buffer q), padding := pad,
       actualSize := actualSize q - pad, writePos := unat sz,
       usedSize := usedSize q + sz, freeSize := freeSize q - pad - sz\<rparr>))"
proof -
  note b = lb_wf_bounds [OF wf] and a = lb_straight_asserts [OF wf st]
  have ur: "unat (ptrdiff (unat (totalSize q)) (writePos q)) = unat (totalSize q) - writePos q"
    using b by (intro unat_ptrdiff) simp_all
  have ul: "unat (ptrdiff (readPos q) 0) = readPos q"
    using b by (subst unat_ptrdiff) simp_all
  have le: "readPos q \<le> writePos q" using st by (simp add: lb_straight_def)
  have "\<not> freeSize q < sz" "\<not> sz \<le> ptrdiff (unat (totalSize q)) (writePos q)"
    "\<not> ptrdiff (readPos q) 0 < sz" "sz \<noteq> 0"
    using fits over wf st a(2) ur ul by (auto simp: word_nat lb_wf_def lb_straight_def)
  moreover have "freeSize q - ptrdiff (unat (totalSize q)) (writePos q) = ptrdiff (readPos q) 0"
    by (simp flip: a(5))
  moreover have "memcpy (buffer q) 0 buf 0 (unat sz) = Inr (take (unat sz) buf @ drop (unat sz) (buffer q))"
    using fits sz wf b by (subst memcpy_ok) (auto simp: lb_wf_def)
  ultimately show ?thesis
    using a np le by (simp add: CLoopBuffer_write_def Let_def)
qed

text \<open>Each of them keeps the invariant and appends the bytes.\<close>

lemma wf_append_straight:
  assumes wf: "lb_wf q" and st: "lb_straight q" and sz: "unat sz \<le> length buf"
    and fits: "unat sz \<le> unat (totalSize q) - writePos q"
  defines "q' \<equiv> q\<lparr>buffer := take (writePos q) (buffer q) @ take (unat sz) buf @ drop (writePos q + unat sz) (buffer q),
       writePos := writePos q + unat sz, usedSize := usedSize q + sz, freeSize := freeSize q - sz\<rparr>"
  shows "lb_wf q' \<and> contents q' = contents q @ take (unat sz) buf"
proof -
  note b = lb_wf_bounds [OF wf] and a = lb_straight_asserts [OF wf st]
  have free: "unat sz \<le> unat (freeSize q)"
    using wf st fits a(2) by (auto simp: lb_wf_def lb_straight_def)
  have u: "unat (usedSize q + sz) = unat (usedSize q) + unat sz"
    using wf free b by (intro unat_plus_lt) (auto simp: lb_wf_def)
  have f: "unat (freeSize q - sz) = unat (freeSize q) - unat sz"
    using free by (rule unat_minus_le)
  have st': "lb_straight q'"
    using st fits u b by (auto simp: q'_def lb_straight_def)
  moreover have wf': "lb_wf q'"
    using wf st' u f free b sz fits by (auto simp: q'_def lb_wf_def)
  moreover have "contents q' = contents q @ take (unat sz) buf"
  proof -
    have "contents q' = segment (readPos q) (writePos q + unat sz) (buffer q')"
      using contents_straight [OF wf' st'] by (simp add: q'_def)
    also have "\<dots> = segment (readPos q) (writePos q) (buffer q')
        @ segment (writePos q) (writePos q + unat sz) (buffer q')"
      using st by (subst segment_append_segment) (auto simp: lb_straight_def)
    also have "segment (readPos q) (writePos q) (buffer q') = contents q"
      using b wf st by (simp add: q'_def segment_overwrite_before contents_straight lb_wf_def)
    also have "segment (writePos q) (writePos q + unat sz) (buffer q') = take (unat sz) buf"
      using segment_write_same [of "writePos q" "unat sz" "buffer q" 0 buf] wf b sz fits
      by (auto simp: q'_def lb_wf_def)
    finally show ?thesis .
  qed
  ultimately show ?thesis by simp
qed

lemma wf_append_wrapped:
  assumes wf: "lb_wf q" and lt: "writePos q < readPos q" and sz: "unat sz \<le> length buf"
    and fits: "unat sz \<le> unat (freeSize q)"
  defines "q' \<equiv> q\<lparr>buffer := take (writePos q) (buffer q) @ take (unat sz) buf @ drop (writePos q + unat sz) (buffer q),
       writePos := writePos q + unat sz, usedSize := usedSize q + sz, freeSize := freeSize q - sz\<rparr>"
  shows "lb_wf q' \<and> contents q' = contents q @ take (unat sz) buf"
proof -
  note b = lb_wf_bounds [OF wf]
  have wr: "lb_wrapped q" using lb_wrappedI [OF wf] lt by simp
  have r: "readPos q = writePos q + unat (freeSize q)"
    using wf wr by (auto simp: lb_wf_def lb_wrapped_def)
  have u: "unat (usedSize q + sz) = unat (usedSize q) + unat sz"
    using wf fits b by (intro unat_plus_lt) (auto simp: lb_wf_def)
  have f: "unat (freeSize q - sz) = unat (freeSize q) - unat sz"
    using fits by (rule unat_minus_le)
  have wr': "lb_wrapped q'"
    using wr fits u r by (auto simp: q'_def lb_wrapped_def)
  have wf': "lb_wf q'"
    using wf wr' u f fits r b sz by (auto simp: q'_def lb_wf_def)
  have len: "length (buffer q) = unat (totalSize q)" using wf by (simp add: lb_wf_def)
  have "contents q' = segment (readPos q) (unat (actualSize q)) (buffer q')
      @ segment 0 (writePos q + unat sz) (buffer q')"
    using contents_wrapped [OF wf' wr'] by (simp add: q'_def)
  also have "segment (readPos q) (unat (actualSize q)) (buffer q')
      = segment (readPos q) (unat (actualSize q)) (buffer q)"
    using segment_write_after [of "writePos q" "unat sz" "readPos q" "buffer q" 0 buf] r fits sz b len
    by (simp add: q'_def)
  also have "segment 0 (writePos q + unat sz) (buffer q') =
      segment 0 (writePos q) (buffer q') @ segment (writePos q) (writePos q + unat sz) (buffer q')"
    by (simp add: segment_append_segment)
  also have "segment 0 (writePos q) (buffer q') = segment 0 (writePos q) (buffer q)"
    using b len by (simp add: q'_def segment_overwrite_before)
  also have "segment (writePos q) (writePos q + unat sz) (buffer q') = take (unat sz) buf"
    using segment_write_same [of "writePos q" "unat sz" "buffer q" 0 buf] r fits sz b len
    by (simp add: q'_def)
  finally show ?thesis using wf' contents_wrapped [OF wf wr] by simp
qed

lemma wf_append_around:
  assumes wf: "lb_wf q" and st: "lb_straight q" and sz: "unat sz \<le> length buf"
    and over: "unat (totalSize q) - writePos q < unat sz" and fits: "unat sz \<le> unat (freeSize q)"
  defines "rs \<equiv> unat (totalSize q) - writePos q"
  defines "ls \<equiv> unat sz - rs"
  defines "q' \<equiv> q\<lparr>buffer := take ls (drop rs buf) @ drop ls (take (writePos q) (buffer q) @ take rs buf),
       writePos := ls, usedSize := usedSize q + sz, freeSize := freeSize q - sz\<rparr>"
  shows "lb_wf q' \<and> contents q' = contents q @ take (unat sz) buf"
proof -
  note b = lb_wf_bounds [OF wf] and a = lb_straight_asserts [OF wf st]
  have u: "unat (usedSize q + sz) = unat (usedSize q) + unat sz"
    using wf fits b by (intro unat_plus_lt) (auto simp: lb_wf_def)
  have f: "unat (freeSize q - sz) = unat (freeSize q) - unat sz"
    using fits by (rule unat_minus_le)
  have len: "length (buffer q) = unat (totalSize q)" "writePos q + rs = unat (totalSize q)"
    using wf b by (simp_all add: lb_wf_def rs_def)
  have ls: "ls \<le> readPos q" "readPos q \<le> writePos q" "ls + rs = unat sz"
    using wf st fits a(2) over b by (auto simp: lb_wf_def lb_straight_def ls_def rs_def)
  have wr': "lb_wrapped q'"
    using wf st u ls a len over by (auto simp: q'_def lb_wrapped_def lb_straight_def lb_wf_def)
  have wf': "lb_wf q'"
    using wf wr' u f fits ls len sz a by (auto simp: q'_def lb_wf_def)
  have tk: "length (take ls (drop rs buf)) = ls" "length (take rs buf) = rs"
    using sz ls by simp_all
  have "contents q' = segment (readPos q) (unat (totalSize q)) (buffer q') @ segment 0 ls (buffer q')"
    using contents_wrapped [OF wf' wr'] a by (simp add: q'_def)
  also have "segment 0 ls (buffer q') = take ls (drop rs buf)"
    using tk by (simp add: q'_def segment_def)
  also have "segment (readPos q) (unat (totalSize q)) (buffer q')
     = segment (readPos q) (unat (totalSize q)) (take (writePos q) (buffer q) @ take rs buf)"
  proof -
    have "drop (readPos q) (take ls (drop rs buf) @ drop ls xs) = drop (readPos q) xs" for xs
      using tk ls by simp
    moreover have "buffer q' = take ls (drop rs buf) @ drop ls (take (writePos q) (buffer q) @ take rs buf)"
      by (simp add: q'_def)
    ultimately show ?thesis by (simp only: segment_def)
  qed
  also have "\<dots> = segment (readPos q) (writePos q) (take (writePos q) (buffer q) @ take rs buf)
      @ segment (writePos q) (unat (totalSize q)) (take (writePos q) (buffer q) @ take rs buf)"
    using ls b by (simp add: segment_append_segment)
  also have "segment (readPos q) (writePos q) (take (writePos q) (buffer q) @ take rs buf) = contents q"
    using b len by (simp add: segment_overwrite_before contents_straight [OF wf st])
  also have "segment (writePos q) (unat (totalSize q)) (take (writePos q) (buffer q) @ take rs buf) = take rs buf"
    using b len by (simp add: segment_def rs_def)
  finally show ?thesis using wf' ls(3) by (simp add: add.commute flip: take_add)
qed

lemma wf_append_padded:
  assumes wf: "lb_wf q" and st: "lb_straight q" and sz: "unat sz \<le> length buf"
    and over: "unat (totalSize q) - writePos q < unat sz" and fits: "unat sz \<le> readPos q"
    and np: "isPadding q"
  defines "pad \<equiv> ptrdiff (unat (totalSize q)) (writePos q)"
  defines "q' \<equiv> q\<lparr>buffer := take (unat sz) buf @ drop (unat sz) (buffer q), padding := pad,
       actualSize := actualSize q - pad, writePos := unat sz,
       usedSize := usedSize q + sz, freeSize := freeSize q - pad - sz\<rparr>"
  shows "lb_wf q' \<and> contents q' = contents q @ take (unat sz) buf"
proof -
  note b = lb_wf_bounds [OF wf] and a = lb_straight_asserts [OF wf st]
  have len: "length (buffer q) = unat (totalSize q)" using wf by (simp add: lb_wf_def)
  have up: "unat pad = unat (totalSize q) - writePos q"
    unfolding pad_def using b by (intro unat_ptrdiff) simp_all
  have rw: "readPos q \<le> writePos q" "unat (usedSize q) = writePos q - readPos q"
    using st by (simp_all add: lb_straight_def)
  have u: "unat (usedSize q + sz) = unat (usedSize q) + unat sz"
    using rw fits b by (intro unat_plus_lt) simp
  have fp: "unat (freeSize q - pad) = readPos q"
    using wf st up b a(2) by (subst unat_minus_le) (auto simp: lb_wf_def lb_straight_def)
  have f: "unat (freeSize q - pad - sz) = readPos q - unat sz"
    using fits fp by (subst unat_minus_le) simp_all
  have ac: "unat (actualSize q - pad) = writePos q"
    using up b a(2) by (subst unat_minus_le) auto
  have wr': "lb_wrapped q'"
    using rw u ac fits over np by (auto simp: q'_def lb_wrapped_def)
  have wf': "lb_wf q'"
    using wf wr' u f fits ac up sz b rw by (auto simp: q'_def lb_wf_def)
  have "contents q' = segment (readPos q) (writePos q) (buffer q') @ segment 0 (unat sz) (buffer q')"
    using contents_wrapped [OF wf' wr'] ac by (simp add: q'_def)
  also have "segment (readPos q) (writePos q) (buffer q') = contents q"
    using fits sz by (simp add: q'_def segment_def contents_straight [OF wf st])
  also have "segment 0 (unat sz) (buffer q') = take (unat sz) buf"
    using sz by (simp add: q'_def segment_def)
  finally show ?thesis using wf' by simp
qed

section \<open>The branches of read\<close>

lemma read_straight:
  assumes wf: "lb_wf q" and lt: "readPos q < writePos q" and sz: "sz \<noteq> 0"
    and n: "n = (if usedSize q < sz then usedSize q else sz)"
    and dst: "doff + unat n \<le> length dst"
  defines "q' \<equiv> q\<lparr>readPos := readPos q + unat n, usedSize := usedSize q - n, freeSize := freeSize q + n\<rparr>"
  shows "CLoopBuffer_read q dst doff sz = Inr (n, overwrite dst doff (take (unat n) (contents q)), q')
    \<and> lb_wf q' \<and> contents q' = drop (unat n) (contents q)"
proof -
  note b = lb_wf_bounds [OF wf]
  have st: "lb_straight q" using wf lt by (auto simp: lb_wf_def lb_wrapped_def)
  note a = lb_straight_asserts [OF wf st]
  have us: "unat (usedSize q) = writePos q - readPos q" using st by (simp add: lb_straight_def)
  have nz: "usedSize q \<noteq> 0" using us lt by auto
  have nu: "unat n \<le> unat (usedSize q)" using n by (simp add: word_less_nat_alt)
  have len: "length (buffer q) = unat (totalSize q)" using wf by (simp add: lb_wf_def)
  have c: "contents q = segment (readPos q) (writePos q) (buffer q)"
    using wf st by (rule contents_straight)
  have "memcpy dst doff (buffer q) (readPos q) (unat n)
      = Inr (overwrite dst doff (take (unat n) (contents q)))"
    using dst nu us b len by (subst memcpy_overwrite) (simp_all add: c take_segment)
  then have r: "CLoopBuffer_read q dst doff sz = Inr (n, overwrite dst doff (take (unat n) (contents q)), q')"
    using sz lt a n nz by (simp add: CLoopBuffer_read_def Let_def q'_def)
  have u: "unat (usedSize q - n) = unat (usedSize q) - unat n" using nu by (rule unat_minus_le)
  have f: "unat (freeSize q + n) = unat (freeSize q) + unat n"
    using wf nu b by (intro unat_plus_lt) (auto simp: lb_wf_def)
  have st': "lb_straight q'" using st u nu us by (auto simp: q'_def lb_straight_def)
  have wf': "lb_wf q'" using wf st' u f nu by (auto simp: q'_def lb_wf_def)
  show ?thesis using r wf' contents_straight [OF wf' st'] by (simp add: q'_def c drop_segment)
qed

lemma wrapped_facts:
  assumes wf: "lb_wf q" and le: "writePos q \<le> readPos q" and us: "usedSize q \<noteq> 0"
  shows "lb_wrapped q" "readPos q \<le> unat (actualSize q)"
    "unat (usedSize q) = unat (actualSize q) - readPos q + writePos q"
    "length (buffer q) = unat (actualSize q) + unat (padding q)"
    "unat (actualSize q) + unat (padding q) = unat (totalSize q)"
    "unat (ptrdiff (unat (actualSize q)) (readPos q)) = unat (actualSize q) - readPos q"
proof -
  show wr: "lb_wrapped q" using lb_wrappedI [OF wf le] us by (simp add: word_eq_unat)
  then show le': "readPos q \<le> unat (actualSize q)"
    "unat (usedSize q) = unat (actualSize q) - readPos q + writePos q"
    by (simp_all add: lb_wrapped_def)
  show "length (buffer q) = unat (actualSize q) + unat (padding q)"
    "unat (actualSize q) + unat (padding q) = unat (totalSize q)"
    using wf by (simp_all add: lb_wf_def)
  show "unat (ptrdiff (unat (actualSize q)) (readPos q)) = unat (actualSize q) - readPos q"
    using le' lb_wf_bounds [OF wf] by (intro unat_ptrdiff) simp_all
qed

lemma contents_right:
  assumes wf: "lb_wf q" and le: "writePos q \<le> readPos q" and us: "usedSize q \<noteq> 0"
    and fits: "n \<le> unat (actualSize q) - readPos q"
  shows "take n (contents q) = segment (readPos q) (readPos q + n) (buffer q)"
    and "drop n (contents q) =
      segment (readPos q + n) (unat (actualSize q)) (buffer q) @ segment 0 (writePos q) (buffer q)"
  using fits wrapped_facts [OF wf le us] contents_wrapped [OF wf]
  by (simp_all add: take_segment drop_segment)

lemma read_right_result:
  assumes wf: "lb_wf q" and le: "writePos q \<le> readPos q" and us: "usedSize q \<noteq> 0" and sz: "sz \<noteq> 0"
    and fits: "unat sz \<le> unat (actualSize q) - readPos q"
    and dst: "doff + unat sz \<le> length dst"
  shows "CLoopBuffer_read q dst doff sz = Inr (sz, overwrite dst doff (take (unat sz) (contents q)),
     if unat sz = unat (actualSize q) - readPos q \<and> padding q \<noteq> 0
     then q\<lparr>actualSize := actualSize q + padding q, freeSize := freeSize q + padding q + sz,
       padding := 0, readPos := 0, usedSize := usedSize q - sz\<rparr>
     else q\<lparr>readPos := readPos q + unat sz, usedSize := usedSize q - sz, freeSize := freeSize q + sz\<rparr>)"
proof -
  note w = wrapped_facts [OF wf le us]
  have "memcpy dst doff (buffer q) (readPos q) (unat sz)
      = Inr (overwrite dst doff (take (unat sz) (contents q)))"
    using dst fits w contents_right(1) [OF wf le us fits] by (subst memcpy_overwrite) simp_all
  then show ?thesis
    using sz le us fits w(6) lb_wrapped_asserts [OF wf w(1)]
    by (simp add: CLoopBuffer_read_def Let_def word_nat)
qed

lemma wf_consume_right:
  assumes wf: "lb_wf q" and le: "writePos q \<le> readPos q" and us: "usedSize q \<noteq> 0"
    and fits: "unat sz \<le> unat (actualSize q) - readPos q"
  defines "q' \<equiv> q\<lparr>readPos := readPos q + unat sz, usedSize := usedSize q - sz, freeSize := freeSize q + sz\<rparr>"
  shows "lb_wf q' \<and> contents q' = drop (unat sz) (contents q)"
proof -
  note b = lb_wf_bounds [OF wf] and w = wrapped_facts [OF wf le us]
  have u: "unat (usedSize q - sz) = unat (usedSize q) - unat sz"
    using fits w by (intro unat_minus_le) simp
  have f: "unat (freeSize q + sz) = unat (freeSize q) + unat sz"
    using wf b fits w by (intro unat_plus_lt) (auto simp: lb_wf_def)
  have wr': "lb_wrapped q'" using w(1) u fits w by (auto simp: q'_def lb_wrapped_def)
  have wf': "lb_wf q'" using wf wr' u f fits w by (auto simp: q'_def lb_wf_def)
  then show ?thesis
    using contents_wrapped [OF wf' wr'] contents_right(2) [OF wf le us fits] by (simp add: q'_def)
qed

text \<open>Reading up to the padding gives the padding back: the data starts at offset 0 again.\<close>

lemma wf_consume_unpad:
  assumes wf: "lb_wf q" and le: "writePos q \<le> readPos q" and us: "usedSize q \<noteq> 0"
    and n: "unat (actualSize q) - readPos q \<le> unat n" "unat n \<le> unat (usedSize q)"
  defines "q' \<equiv> q\<lparr>actualSize := actualSize q + padding q, freeSize := freeSize q + padding q + n,
       padding := 0, readPos := unat n - (unat (actualSize q) - readPos q), usedSize := usedSize q - n\<rparr>"
  shows "lb_wf q' \<and> contents q' = drop (unat n) (contents q)"
proof -
  note b = lb_wf_bounds [OF wf] and w = wrapped_facts [OF wf le us]
  have u: "unat (usedSize q - n) = unat (usedSize q) - unat n"
    using n by (intro unat_minus_le)
  have ac: "unat (actualSize q + padding q) = unat (totalSize q)"
    using w b by (subst unat_plus_lt) simp_all
  have f1: "unat (freeSize q + padding q) = unat (freeSize q) + unat (padding q)"
    using wf b by (intro unat_plus_lt) (auto simp: lb_wf_def)
  have f: "unat (freeSize q + padding q + n) = unat (freeSize q) + unat (padding q) + unat n"
    using wf b f1 n by (subst unat_plus_lt) (auto simp: lb_wf_def)
  have st': "lb_straight q'" using u w n b le by (auto simp: q'_def lb_straight_def)
  have wf': "lb_wf q'" using wf st' u f ac n w by (auto simp: q'_def lb_wf_def)
  have "drop (unat n) (contents q)
      = segment (unat n - (unat (actualSize q) - readPos q)) (writePos q) (buffer q)"
    using n w by (simp add: contents_wrapped [OF wf w(1)] drop_segment)
  then show ?thesis using wf' contents_straight [OF wf' st'] by (simp add: q'_def)
qed

lemma read_around_result:
  assumes wf: "lb_wf q" and le: "writePos q \<le> readPos q" and us: "usedSize q \<noteq> 0"
    and n: "n = (if usedSize q < sz then usedSize q else sz)"
    and over: "unat (actualSize q) - readPos q < unat sz"
    and dst: "doff + unat n \<le> length dst"
  shows "CLoopBuffer_read q dst doff sz = Inr (n, overwrite dst doff (take (unat n) (contents q)),
     q\<lparr>actualSize := actualSize q + padding q, freeSize := freeSize q + padding q + n,
       padding := 0, readPos := unat n - (unat (actualSize q) - readPos q), usedSize := usedSize q - n\<rparr>)"
proof -
  note b = lb_wf_bounds [OF wf] and w = wrapped_facts [OF wf le us]
  note a = lb_wrapped_asserts [OF wf w(1)]
  define rs where "rs = unat (actualSize q) - readPos q"
  define right where "right = segment (readPos q) (readPos q + rs) (buffer q)"
  have l1: "length right = rs" "readPos q + rs = unat (actualSize q)" using w by (simp_all add: right_def rs_def)
  have rn: "rs \<le> unat n" "unat n - rs \<le> writePos q" "rs \<le> unat sz"
    using n w over by (auto simp: rs_def word_less_nat_alt split: if_splits)
  have un: "unat (n - ptrdiff (unat (actualSize q)) (readPos q)) = unat n - rs"
    using rn w(6) by (subst unat_minus_le) (simp_all add: rs_def)
  have tk: "take (unat n) (contents q) = right @ segment 0 (unat n - rs) (buffer q)"
    using rn l1 w by (simp add: contents_wrapped [OF wf w(1)] take_segment right_def)
  have m1: "memcpy dst doff (buffer q) (readPos q) rs = Inr (overwrite dst doff right)"
    using dst rn l1 w b by (subst memcpy_overwrite) (simp_all add: right_def)
  have m2: "memcpy (overwrite dst doff right) (doff + rs) (buffer q) 0 (unat n - rs)
      = Inr (overwrite dst doff (take (unat n) (contents q)))"
    using dst rn w l1 le b overwrite_overwrite [of doff right]
    by (subst memcpy_overwrite) (simp_all add: tk)
  have "sz \<noteq> 0" "\<not> sz \<le> ptrdiff (unat (actualSize q)) (readPos q)"
    using over w(6) by (auto simp: word_nat rs_def)
  then show ?thesis
    using le a(1) a(2) [symmetric] a(3) us w(6) un m1 m2
    by (auto simp: CLoopBuffer_read_def Let_def rs_def [symmetric] n [symmetric]
        intro!: loopBuffer.equality)
qed

section \<open>Functional specification\<close>

definition lb_accepts :: "loopBuffer \<Rightarrow> nat \<Rightarrow> bool" where
  "lb_accepts q n \<longleftrightarrow>
     n \<le> unat (freeSize q) \<and>
     (isPadding q \<and> readPos q \<le> writePos q \<longrightarrow>
        n \<le> unat (totalSize q) - writePos q \<or> n \<le> readPos q)"

lemma write_refused:
  assumes wf: "lb_wf q" and sz: "sz \<noteq> 0" and no: "\<not> lb_accepts q (unat sz)"
  shows "CLoopBuffer_write q buf sz = Inr (False, q)"
proof (cases "freeSize q < sz")
  case True
  then show ?thesis using sz by (simp add: CLoopBuffer_write_def)
next
  case False
  then have fits: "unat sz \<le> unat (freeSize q)" by (simp add: word_less_nat_alt)
  then have no': "isPadding q" "readPos q \<le> writePos q"
    "unat (totalSize q) - writePos q < unat sz" "readPos q < unat sz"
    using no by (auto simp: lb_accepts_def)
  then have st: "lb_straight q"
    using fits wf sz by (auto intro!: lb_straightI simp: word_eq_unat)
  note b = lb_wf_bounds [OF wf] and a = lb_straight_asserts [OF wf st]
  have "unat (ptrdiff (unat (totalSize q)) (writePos q)) = unat (totalSize q) - writePos q"
    and "unat (ptrdiff (readPos q) 0) = readPos q"
    using b by (simp_all add: unat_ptrdiff)
  then have "\<not> sz \<le> ptrdiff (unat (totalSize q)) (writePos q)" "ptrdiff (readPos q) 0 < sz"
    using no' by (simp_all add: word_nat)
  then show ?thesis using False sz no' a by (simp add: CLoopBuffer_write_def Let_def)
qed

lemma write_accepted:
  assumes wf: "lb_wf q" and sz: "sz \<noteq> 0" "unat sz \<le> length buf" and ok: "lb_accepts q (unat sz)"
  shows "\<exists>q'. CLoopBuffer_write q buf sz = Inr (True, q') \<and> lb_wf q' \<and>
     contents q' = contents q @ take (unat sz) buf \<and>
     isPadding q' = isPadding q \<and> totalSize q' = totalSize q"
proof -
  have fits: "unat sz \<le> unat (freeSize q)" using ok by (simp add: lb_accepts_def)
  consider "writePos q < readPos q"
    | "lb_straight q" "unat sz \<le> unat (totalSize q) - writePos q"
    | "lb_straight q" "unat (totalSize q) - writePos q < unat sz" "\<not> isPadding q"
    | "lb_straight q" "unat (totalSize q) - writePos q < unat sz" "isPadding q" "unat sz \<le> readPos q"
    using ok lb_straightI [OF wf] fits sz by (fastforce simp: lb_accepts_def word_eq_unat)
  then show ?thesis
  proof cases
    case 1 then show ?thesis
      using write_left [OF wf 1 sz fits] wf_append_wrapped [OF wf 1 sz(2) fits] by simp
  next
    case 2 then show ?thesis
      using write_right [OF wf 2(1) sz 2(2)] wf_append_straight [OF wf 2(1) sz(2) 2(2)] by simp
  next
    case 3 then show ?thesis
      using write_around [OF wf 3(1) sz(2) 3(2) fits 3(3)] wf_append_around [OF wf 3(1) sz(2) 3(2) fits]
      by (simp add: Let_def)
  next
    case 4 then show ?thesis
      using write_padded [OF wf 4(1) sz(2) 4(2,4,3)] wf_append_padded [OF wf 4(1) sz(2) 4(2,4,3)]
      by (simp add: Let_def)
  qed
qed

lemma read_returns:
  assumes wf: "lb_wf q" and sz: "sz \<noteq> 0" and m: "m = min (unat sz) (length (contents q))"
    and dst: "doff + m \<le> length dst"
  shows "\<exists>q'. CLoopBuffer_read q dst doff sz = Inr (of_nat m, overwrite dst doff (take m (contents q)), q') \<and>
     lb_wf q' \<and> contents q' = drop m (contents q) \<and>
     isPadding q' = isPadding q \<and> totalSize q' = totalSize q"
proof (cases "usedSize q = 0")
  case True
  then have "contents q = []" using length_contents [OF wf] by simp
  then show ?thesis using True sz wf m by (simp add: CLoopBuffer_read_def overwrite_def)
next
  case us: False
  define n where "n = (if usedSize q < sz then usedSize q else sz)"
  have n: "unat n = m" "of_nat m = n"
    using m length_contents [OF wf] by (auto simp: n_def word_less_nat_alt min_def word_eq_unat)
  have d: "doff + unat n \<le> length dst" using dst n by simp
  consider "readPos q < writePos q"
    | "writePos q \<le> readPos q" "unat sz \<le> unat (actualSize q) - readPos q"
    | "writePos q \<le> readPos q" "unat (actualSize q) - readPos q < unat sz"
    by linarith
  then show ?thesis
  proof cases
    case 1 then show ?thesis using read_straight [OF wf 1 sz n_def d] n by simp
  next
    case 2
    then have "n = sz"
      using wrapped_facts(3) [OF wf 2(1) us] by (auto simp: n_def word_nat)
    moreover have "unat sz = unat (actualSize q) - readPos q \<Longrightarrow>
        lb_wf (q\<lparr>actualSize := actualSize q + padding q, freeSize := freeSize q + padding q + sz,
          padding := 0, readPos := 0, usedSize := usedSize q - sz\<rparr>) \<and>
        contents (q\<lparr>actualSize := actualSize q + padding q, freeSize := freeSize q + padding q + sz,
          padding := 0, readPos := 0, usedSize := usedSize q - sz\<rparr>) = drop (unat sz) (contents q)"
      using wf_consume_unpad [OF wf 2(1) us, of sz] wrapped_facts(3) [OF wf 2(1) us] by simp
    ultimately show ?thesis
      using read_right_result [OF wf 2(1) us sz 2(2)] wf_consume_right [OF wf 2(1) us 2(2)] d n
      by (auto split: if_splits)
  next
    case 3
    have "unat (actualSize q) - readPos q \<le> unat n" "unat n \<le> unat (usedSize q)"
      using 3 wrapped_facts(3) [OF wf 3(1) us] by (auto simp: n_def word_less_nat_alt)
    then show ?thesis
      using read_around_result [OF wf 3(1) us n_def 3(2) d] wf_consume_unpad [OF wf 3(1) us, of n] n
      by simp
  qed
qed

lemma wf_new:
  "length mem = unat sz \<Longrightarrow> 0 < unat sz \<Longrightarrow> unat sz < 2 ^ 31 \<Longrightarrow>
   \<exists>q. CLoopBuffer_new mem sz p = Inr q \<and> lb_wf q \<and> contents q = [] \<and>
       isPadding q = p \<and> totalSize q = sz"
  by (auto simp: CLoopBuffer_new_def lb_wf_def lb_straight_def contents_def word_eq_unat)

lemma wf_reset: "lb_wf q \<Longrightarrow> lb_wf (CLoopBuffer_reset q) \<and> contents (CLoopBuffer_reset q) = []"
  by (simp add: CLoopBuffer_reset_def lb_wf_def lb_straight_def contents_def)

section \<open>The contract of a byte queue\<close>

text \<open>
  A client of the buffer issues a sequence of writes and reads.  \<open>queue_run\<close> runs
  such a sequence on any implementation of the two operations and collects the
  bytes of the accepted writes and the bytes the reads returned.
\<close>

datatype queueOp = Write "ub1_ list" | Read nat

fun queueOp_ok :: "queueOp \<Rightarrow> bool" where
  "queueOp_ok (Write bs) \<longleftrightarrow> 0 < length bs \<and> length bs < 2 ^ 32"
| "queueOp_ok (Read n) \<longleftrightarrow> 0 < n \<and> n < 2 ^ 32"

fun queue_run ::
  "('q \<Rightarrow> ub1_ list \<Rightarrow> ub4_ \<Rightarrow> (bool \<times> 'q) result) \<Rightarrow>
   ('q \<Rightarrow> ub1_ list \<Rightarrow> nat \<Rightarrow> ub4_ \<Rightarrow> (ub4_ \<times> ub1_ list \<times> 'q) result) \<Rightarrow>
   'q \<Rightarrow> queueOp list \<Rightarrow> (ub1_ list \<times> ub1_ list \<times> 'q) result" where
  "queue_run put get q [] = Inr ([], [], q)"
| "queue_run put get q (Write bs # ops) =
     bindR (put q bs (of_nat (length bs)))
       (\<lambda>(ok, q1). bindR (queue_run put get q1 ops)
         (\<lambda>(acc, out, q2). Inr ((if ok then bs else []) @ acc, out, q2)))"
| "queue_run put get q (Read n # ops) =
     bindR (get q (replicate n 0) 0 (of_nat n))
       (\<lambda>(m, d, q1). bindR (queue_run put get q1 ops)
         (\<lambda>(acc, out, q2). Inr (acc, take (unat m) d @ out, q2)))"

locale byte_queue =
  fixes wf :: "'q \<Rightarrow> bool"
    and bytes :: "'q \<Rightarrow> ub1_ list"
    and capacity :: "'q \<Rightarrow> nat"
    and put :: "'q \<Rightarrow> ub1_ list \<Rightarrow> ub4_ \<Rightarrow> (bool \<times> 'q) result"
    and get :: "'q \<Rightarrow> ub1_ list \<Rightarrow> nat \<Rightarrow> ub4_ \<Rightarrow> (ub4_ \<times> ub1_ list \<times> 'q) result"
  assumes put_fits:
      "wf q \<Longrightarrow> sz \<noteq> 0 \<Longrightarrow> unat sz \<le> length buf \<Longrightarrow> length (bytes q) + unat sz \<le> capacity q \<Longrightarrow>
       \<exists>q'. put q buf sz = Inr (True, q') \<and> wf q' \<and> bytes q' = bytes q @ take (unat sz) buf \<and>
            capacity q' = capacity q"
    and put_full:
      "wf q \<Longrightarrow> sz \<noteq> 0 \<Longrightarrow> capacity q < length (bytes q) + unat sz \<Longrightarrow>
       put q buf sz = Inr (False, q)"
    and get_bytes:
      "wf q \<Longrightarrow> sz \<noteq> 0 \<Longrightarrow> off + min (unat sz) (length (bytes q)) \<le> length dst \<Longrightarrow>
       \<exists>q'. get q dst off sz =
              Inr (of_nat (min (unat sz) (length (bytes q))),
                   overwrite dst off (take (unat sz) (bytes q)), q') \<and>
            wf q' \<and> bytes q' = drop (unat sz) (bytes q) \<and> capacity q' = capacity q"
    and within: "wf q \<Longrightarrow> length (bytes q) \<le> capacity q"
begin

lemma put_total:
  assumes "wf q" and "sz \<noteq> 0" and "unat sz \<le> length buf"
  obtains ok q' where "put q buf sz = Inr (ok, q')" and "wf q'" and "capacity q' = capacity q"
    and "bytes q' = bytes q @ (if ok then take (unat sz) buf else [])"
    and "ok \<longleftrightarrow> length (bytes q) + unat sz \<le> capacity q"
  using put_fits [OF assms] put_full [OF assms(1,2), of buf] assms(1)
  by (cases "length (bytes q) + unat sz \<le> capacity q") auto

lemma run_Write:
  assumes "wf q" and "queueOp_ok (Write bs)"
  obtains ok q1 where "put q bs (of_nat (length bs)) = Inr (ok, q1)" and "wf q1"
    and "capacity q1 = capacity q" and "bytes q1 = bytes q @ (if ok then bs else [])"
proof -
  have l: "0 < length bs" "unat (of_nat (length bs) :: ub4_) = length bs"
    using assms(2) by (simp_all add: unat_of_nat_lt)
  then have nz: "(of_nat (length bs) :: ub4_) \<noteq> 0" by (auto simp: word_eq_unat)
  show thesis
    by (rule put_total [OF assms(1) nz, of bs]) (use l that in \<open>auto split: if_splits\<close>)
qed

lemma run_Read:
  assumes "wf q" and "queueOp_ok (Read n)"
  obtains m d q1 where "get q (replicate n 0) 0 (of_nat n) = Inr (m, d, q1)" and "wf q1"
    and "capacity q1 = capacity q" and "bytes q = take (unat m) d @ bytes q1"
proof -
  have l: "0 < n" "unat (of_nat n :: ub4_) = n"
    using assms(2) by (simp_all add: unat_of_nat_lt)
  then have nz: "(of_nat n :: ub4_) \<noteq> 0" by (auto simp: word_eq_unat)
  define m where "m = min n (length (bytes q))"
  have m: "unat (of_nat m :: ub4_) = m"
    using assms(2) by (intro unat_of_nat_lt) (simp add: m_def min_less_iff_disj)
  have d: "take m (overwrite (replicate n 0) 0 (take n (bytes q))) = take n (bytes q)"
    by (simp add: overwrite_def m_def min_def)
  obtain q1 where "get q (replicate n 0) 0 (of_nat n) =
      Inr (of_nat m, overwrite (replicate n 0) 0 (take n (bytes q)), q1)" and "wf q1"
    and "bytes q1 = drop n (bytes q)" and "capacity q1 = capacity q"
    using get_bytes [OF assms(1) nz, of 0 "replicate n 0"] l by (auto simp: m_def)
  then show thesis
    by (intro that) (assumption | simp add: m d)+
qed

lemma run_fifo:
  assumes "wf q" and "\<forall>p \<in> set ops. queueOp_ok p"
  shows "\<exists>acc out q'. queue_run put get q ops = Inr (acc, out, q') \<and> wf q' \<and>
    bytes q @ acc = out @ bytes q' \<and> capacity q' = capacity q"
  using assms
proof (induction ops arbitrary: q)
  case Nil
  then show ?case by simp
next
  case (Cons p ops)
  show ?case
  proof (cases p)
    case (Write bs)
    then obtain ok q1 where q1: "put q bs (of_nat (length bs)) = Inr (ok, q1)" "wf q1"
      "capacity q1 = capacity q" "bytes q1 = bytes q @ (if ok then bs else [])"
      using Cons.prems by (auto elim: run_Write)
    obtain acc out q' where "queue_run put get q1 ops = Inr (acc, out, q')" "wf q'"
      "bytes q1 @ acc = out @ bytes q'" "capacity q' = capacity q1"
      using Cons.IH [OF q1(2)] Cons.prems by auto
    with q1 Write show ?thesis by simp
  next
    case (Read n)
    then obtain m d q1 where q1: "get q (replicate n 0) 0 (of_nat n) = Inr (m, d, q1)" "wf q1"
      "capacity q1 = capacity q" "bytes q = take (unat m) d @ bytes q1"
      using Cons.prems by (auto elim: run_Read)
    obtain acc out q' where "queue_run put get q1 ops = Inr (acc, out, q')" "wf q'"
      "bytes q1 @ acc = out @ bytes q'" "capacity q' = capacity q1"
      using Cons.IH [OF q1(2)] Cons.prems by auto
    with q1 Read show ?thesis by simp
  qed
qed

end

text \<open>The queues of the server are created without padding (CNodeGroup.cpp, line 20).\<close>

definition lb_plain :: "loopBuffer \<Rightarrow> bool" where
  "lb_plain q \<longleftrightarrow> lb_wf q \<and> \<not> isPadding q"

lemma lb_plain_free:
  assumes "lb_plain q"
  shows "unat (freeSize q) + length (contents q) = unat (totalSize q)"
proof -
  have wf: "lb_wf q" and np: "\<not> isPadding q" using assms by (simp_all add: lb_plain_def)
  then have "padding q = 0" by (auto simp: lb_wf_def lb_straight_def lb_wrapped_def)
  then show ?thesis using wf length_contents [OF wf] by (simp add: lb_wf_def)
qed

interpretation lb: byte_queue lb_plain contents "\<lambda>q. unat (totalSize q)"
  CLoopBuffer_write CLoopBuffer_read
proof unfold_locales
  fix q :: loopBuffer and sz :: ub4_ and buf :: "ub1_ list"
  assume q: "lb_plain q" and sz: "sz \<noteq> 0"
  have acc: "lb_accepts q (unat sz) \<longleftrightarrow> length (contents q) + unat sz \<le> unat (totalSize q)"
    using lb_plain_free [OF q] q by (auto simp: lb_accepts_def lb_plain_def)
  show "\<exists>q'. CLoopBuffer_write q buf sz = Inr (True, q') \<and> lb_plain q' \<and>
      contents q' = contents q @ take (unat sz) buf \<and> unat (totalSize q') = unat (totalSize q)"
    if "unat sz \<le> length buf" "length (contents q) + unat sz \<le> unat (totalSize q)"
    using write_accepted [of q sz buf] q sz acc that by (auto simp: lb_plain_def)
  show "CLoopBuffer_write q buf sz = Inr (False, q)"
    if "unat (totalSize q) < length (contents q) + unat sz"
    using write_refused [of q sz buf] q sz acc that by (simp add: lb_plain_def)
next
  fix q :: loopBuffer and sz :: ub4_ and off :: nat and dst :: "ub1_ list"
  assume "lb_plain q" and "sz \<noteq> 0" and "off + min (unat sz) (length (contents q)) \<le> length dst"
  then show "\<exists>q'. CLoopBuffer_read q dst off sz =
      Inr (of_nat (min (unat sz) (length (contents q))), overwrite dst off (take (unat sz) (contents q)), q') \<and>
      lb_plain q' \<and> contents q' = drop (unat sz) (contents q) \<and> unat (totalSize q') = unat (totalSize q)"
    using read_returns [of q sz "min (unat sz) (length (contents q))" off dst]
    by (fastforce simp: lb_plain_def min_def)
next
  show "length (contents q) \<le> unat (totalSize q)" if "lb_plain q" for q
    using lb_plain_free [OF that] by simp
qed

end
