(* ===== verification/Resource_Pool.thy ===== *)
theory Resource_Pool
  imports Prelude
begin

text \<open>
  The object pool template of src/src/common/CResource.h.  A unit is the address of
  an object; the addresses that the constructor's \<open>new T()\<close> calls return are the
  parameter \<open>fresh\<close>, of which the C++ standard promises that they are distinct
  and not null.  The locale \<open>pool\<close> is what CTimerManager and CTrafficManager
  rely on; its client lemma is that units move between the pool and their holders
  and are never handed out twice.
\<close>

section \<open>State and operations\<close>

record resource =
  maxNum :: ub4_
  unitGroup :: "ub8_ list"
  freeDeque :: "ub8_ list"

definition CResource_new :: "ub4_ \<Rightarrow> (nat \<Rightarrow> ub8_) \<Rightarrow> resource result" where
  "CResource_new n fresh =
     assertR (1 < n)
       (let units = map fresh [0..<unat n]
        in Inr \<lparr>maxNum = n, unitGroup = units, freeDeque = units\<rparr>)"

definition CResource_allocate :: "resource \<Rightarrow> (ub8_ \<times> resource) result" where
  "CResource_allocate r =
     (case freeDeque r of
        [] \<Rightarrow> Inr (null_v, r)
      | pUnit # rest \<Rightarrow> assertR (pUnit \<noteq> null_v) (Inr (pUnit, r\<lparr>freeDeque := rest\<rparr>)))"

text \<open>The search loop of \<open>reclaim\<close>: the index of the unit, or the length of the group.\<close>

fun findUnit :: "ub8_ \<Rightarrow> ub8_ list \<Rightarrow> nat" where
  "findUnit u [] = 0"
| "findUnit u (x # xs) = (if u = x then 0 else Suc (findUnit u xs))"

definition CResource_reclaim :: "resource \<Rightarrow> ub8_ \<Rightarrow> (bool \<times> resource) result" where
  "CResource_reclaim r u =
     assertR (u \<noteq> null_v)
       (if findUnit u (unitGroup r) \<noteq> unat (maxNum r)
        then Inr (True, r\<lparr>freeDeque := freeDeque r @ [u]\<rparr>)
        else Inr (False, r))"

definition CResource_size :: "resource \<Rightarrow> ub4_" where
  "CResource_size r = of_nat (length (freeDeque r))"

section \<open>Invariant\<close>

definition pool_wf :: "resource \<Rightarrow> bool" where
  "pool_wf r \<longleftrightarrow>
     length (unitGroup r) = unat (maxNum r) \<and> distinct (unitGroup r) \<and>
     null_v \<notin> set (unitGroup r) \<and>
     set (freeDeque r) \<subseteq> set (unitGroup r) \<and> distinct (freeDeque r)"

lemma findUnit_le: "findUnit u xs \<le> length xs"
  by (induction xs) auto

lemma findUnit_found: "findUnit u xs \<noteq> length xs \<longleftrightarrow> u \<in> set xs"
  by (induction xs) auto

lemma pool_wf_new:
  assumes "1 < n" and "inj_on fresh {0..<unat n}" and "\<forall>i < unat n. fresh i \<noteq> null_v"
  shows "\<exists>r. CResource_new n fresh = Inr r \<and> pool_wf r \<and> freeDeque r = unitGroup r \<and>
     length (unitGroup r) = unat n"
  using assms by (fastforce simp: CResource_new_def pool_wf_def Let_def distinct_map)

lemma length_freeDeque: "pool_wf r \<Longrightarrow> length (freeDeque r) \<le> unat (maxNum r)"
  by (metis card_mono distinct_card List.finite_set pool_wf_def)

lemma size_zero_iff: "pool_wf r \<Longrightarrow> CResource_size r = 0 \<longleftrightarrow> freeDeque r = []"
proof -
  assume "pool_wf r"
  then have "length (freeDeque r) < 2 ^ 32"
    using length_freeDeque [of r] unat_ub4_lt [of "maxNum r"] by simp
  then have "unat (CResource_size r) = length (freeDeque r)"
    by (simp add: CResource_size_def unat_of_nat_lt)
  then show ?thesis by (auto simp: word_eq_unat)
qed

section \<open>The contract of a pool\<close>

datatype poolOp = Allocate | Reclaim ub8_

text \<open>
  A client that holds the units it was given: it may only return what it holds.
  The run collects the units that were handed out.
\<close>

fun pool_run ::
  "('r \<Rightarrow> (ub8_ \<times> 'r) result) \<Rightarrow> ('r \<Rightarrow> ub8_ \<Rightarrow> (bool \<times> 'r) result) \<Rightarrow>
   'r \<Rightarrow> ub8_ set \<Rightarrow> poolOp list \<Rightarrow> ('r \<times> ub8_ set) result" where
  "pool_run alloc recl r held [] = Inr (r, held)"
| "pool_run alloc recl r held (Allocate # ops) =
     bindR (alloc r) (\<lambda>(u, r1).
       pool_run alloc recl r1 (if u = null_v then held else insert u held) ops)"
| "pool_run alloc recl r held (Reclaim u # ops) =
     (if u \<in> held
      then bindR (recl r u) (\<lambda>(ok, r1). pool_run alloc recl r1 (held - {u}) ops)
      else pool_run alloc recl r held ops)"

locale pool =
  fixes wf :: "'r \<Rightarrow> bool"
    and units :: "'r \<Rightarrow> ub8_ set"
    and free :: "'r \<Rightarrow> ub8_ list"
    and alloc :: "'r \<Rightarrow> (ub8_ \<times> 'r) result"
    and recl :: "'r \<Rightarrow> ub8_ \<Rightarrow> (bool \<times> 'r) result"
  assumes free_units: "wf r \<Longrightarrow> set (free r) \<subseteq> units r"
    and free_distinct: "wf r \<Longrightarrow> distinct (free r)"
    and units_nonnull: "wf r \<Longrightarrow> null_v \<notin> units r"
    and alloc_empty: "wf r \<Longrightarrow> free r = [] \<Longrightarrow> alloc r = Inr (null_v, r)"
    and alloc_first: "wf r \<Longrightarrow> free r = u # us \<Longrightarrow>
        \<exists>r'. alloc r = Inr (u, r') \<and> wf r' \<and> free r' = us \<and> units r' = units r"
    and recl_held: "wf r \<Longrightarrow> u \<in> units r \<Longrightarrow> u \<notin> set (free r) \<Longrightarrow>
        \<exists>r'. recl r u = Inr (True, r') \<and> wf r' \<and> free r' = free r @ [u] \<and> units r' = units r"
begin

lemma alloc_total:
  assumes "wf r"
  obtains u r' where "alloc r = Inr (u, r')" and "wf r'" and "units r' = units r"
    and "u = null_v \<and> free r = [] \<and> r' = r \<or> u \<noteq> null_v \<and> free r = u # free r' \<and> u \<in> units r"
proof (cases "free r")
  case Nil
  then show ?thesis using alloc_empty [OF assms] that assms by auto
next
  case (Cons u us)
  then have "u \<in> units r" and "u \<noteq> null_v"
    using free_units [OF assms] units_nonnull [OF assms] by auto
  then show ?thesis using alloc_first [OF assms Cons] that Cons by auto
qed

lemma run_partition:
  assumes "wf r" and "held \<union> set (free r) = units r" and "held \<inter> set (free r) = {}"
  shows "\<exists>r' held'. pool_run alloc recl r held ops = Inr (r', held') \<and> wf r' \<and>
    units r' = units r \<and> held' \<union> set (free r') = units r \<and> held' \<inter> set (free r') = {}"
  using assms
proof (induction ops arbitrary: r held)
  case Nil
  then show ?case by simp
next
  case (Cons p ops)
  show ?case
  proof (cases p)
    case Allocate
    obtain u r1 where r1: "alloc r = Inr (u, r1)" "wf r1" "units r1 = units r"
      "u = null_v \<and> free r = [] \<and> r1 = r \<or> u \<noteq> null_v \<and> free r = u # free r1 \<and> u \<in> units r"
      by (rule alloc_total [OF Cons.prems(1)])
    let ?held = "if u = null_v then held else insert u held"
    have "?held \<union> set (free r1) = units r1" "?held \<inter> set (free r1) = {}"
      using r1 Cons.prems free_distinct [OF Cons.prems(1)] by auto
    from Cons.IH [OF r1(2) this] show ?thesis using Allocate r1 by simp
  next
    case (Reclaim u)
    show ?thesis
    proof (cases "u \<in> held")
      case True
      then obtain r1 where r1: "recl r u = Inr (True, r1)" "wf r1" "free r1 = free r @ [u]" "units r1 = units r"
        using recl_held [OF Cons.prems(1), of u] Cons.prems by auto
      then have "(held - {u}) \<union> set (free r1) = units r1" "(held - {u}) \<inter> set (free r1) = {}"
        using Cons.prems True by auto
      from Cons.IH [OF r1(2) this] show ?thesis using Reclaim r1 True by simp
    next
      case False
      then show ?thesis using Cons.IH [OF Cons.prems] Reclaim by simp
    qed
  qed
qed

end

interpretation res: pool pool_wf "\<lambda>r. set (unitGroup r)" freeDeque CResource_allocate CResource_reclaim
proof unfold_locales
  fix r :: resource and u :: ub8_ and us :: "ub8_ list"
  assume wf: "pool_wf r"
  show "set (freeDeque r) \<subseteq> set (unitGroup r)" "distinct (freeDeque r)" "null_v \<notin> set (unitGroup r)"
    using wf by (simp_all add: pool_wf_def)
  show "CResource_allocate r = Inr (null_v, r)" if "freeDeque r = []"
    using that by (simp add: CResource_allocate_def)
  show "\<exists>r'. CResource_allocate r = Inr (u, r') \<and> pool_wf r' \<and> freeDeque r' = us \<and>
      set (unitGroup r') = set (unitGroup r)" if "freeDeque r = u # us"
    using that wf by (intro exI [of _ "r\<lparr>freeDeque := us\<rparr>"])
      (auto simp: CResource_allocate_def pool_wf_def assertR_def)
  show "\<exists>r'. CResource_reclaim r u = Inr (True, r') \<and> pool_wf r' \<and> freeDeque r' = freeDeque r @ [u] \<and>
      set (unitGroup r') = set (unitGroup r)" if "u \<in> set (unitGroup r)" "u \<notin> set (freeDeque r)"
    using that wf findUnit_found [of u "unitGroup r"]
    by (intro exI [of _ "r\<lparr>freeDeque := freeDeque r @ [u]\<rparr>"])
      (auto simp: CResource_reclaim_def pool_wf_def assertR_def)
qed

lemma reclaim_foreign:
  assumes "pool_wf r" and "u \<noteq> null_v" and "u \<notin> set (unitGroup r)"
  shows "CResource_reclaim r u = Inr (False, r)"
  using assms findUnit_found [of u "unitGroup r"] by (simp add: CResource_reclaim_def pool_wf_def)

end
