(* ===== verification/Timer_Manager.thy ===== *)
theory Timer_Manager
  imports Resource_Pool
begin

text \<open>
  The timer service of src/src/common/CTimerManager.h and CTimerManager.cpp: a
  doubly linked list of \<open>TTimer\<close> objects that come from a pool, a queue of timers
  to add, a queue of timers to delete, and a cursor that the worker thread moves
  through the list.  The objects live in a store from addresses to records, so the
  pointer updates of the source are store updates; reading through a pointer that
  addresses no timer is a fault.  \<open>setTimer\<close>, \<open>killTimer\<close>, the part of \<open>working\<close>
  that holds the mutex and the part that does not are one atomic step each; the
  overridable \<open>__onTimer\<close> is a parameter of \<open>working\<close> that acts on the rest of the
  server (\<open>'w\<close>).
\<close>

section \<open>State\<close>

datatype ETimerStatus = NOTHING | TO_BE_ADD | ADDED | TO_BE_DEL | DELETED

record TTimer =
  period :: ub4_
  parameterI :: ub8_
  parameterII :: ub8_
  ttimes :: ub4_
  baseS :: b4_
  baseUS :: b4_
  previousT :: ub8_
  nextT :: ub8_
  tstatus :: ETimerStatus

text \<open>\<open>new TTimer()\<close> value-initialises every member.\<close>

definition TTimer_new :: TTimer where
  "TTimer_new = \<lparr>period = 0, parameterI = 0, parameterII = 0, ttimes = 0, baseS = 0, baseUS = 0,
     previousT = null_v, nextT = null_v, tstatus = NOTHING\<rparr>"

text \<open>The seconds and microseconds that \<open>gettimeofday\<close> stores.\<close>

record timeval =
  tv_sec :: int
  tv_usec :: int

record timerManager =
  timerRes :: resource
  timers :: "ub8_ \<rightharpoonup> TTimer"
  timerList :: ub8_
  lastTimer :: ub8_
  queueForAdd :: "ub8_ list"
  queueForDel :: "ub8_ list"
  curTimer :: ub8_

section \<open>Operations\<close>

definition getT :: "timerManager \<Rightarrow> ub8_ \<Rightarrow> (TTimer \<Rightarrow> 'a result) \<Rightarrow> 'a result" where
  "getT m p k = (case timers m p of None \<Rightarrow> Inl NullDeref | Some t \<Rightarrow> k t)"

definition updT :: "ub8_ \<Rightarrow> (TTimer \<Rightarrow> TTimer) \<Rightarrow> timerManager \<Rightarrow> timerManager result" where
  "updT p f m = getT m p (\<lambda>t. Inr (m\<lparr>timers := (timers m)(p \<mapsto> f t)\<rparr>))"

definition CTimerManager_new :: "ub4_ \<Rightarrow> (nat \<Rightarrow> ub8_) \<Rightarrow> timerManager result" where
  "CTimerManager_new maxTimerNum fresh =
     bindR (CResource_new maxTimerNum fresh)
       (\<lambda>r. Inr \<lparr>timerRes = r,
                 timers = (\<lambda>p. if p \<in> set (unitGroup r) then Some TTimer_new else None),
                 timerList = null_v, lastTimer = null_v, queueForAdd = [], queueForDel = [],
                 curTimer = null_v\<rparr>)"

definition CTimerManager_addTimer :: "timerManager \<Rightarrow> ub8_ \<Rightarrow> timerManager result" where
  "CTimerManager_addTimer m timer =
     assertR (timer \<noteq> null_v)
       (bindR
         (if timerList m = null_v then
            assertR (lastTimer m = null_v) (Inr (m\<lparr>lastTimer := timer, timerList := timer\<rparr>))
          else
            bindR (updT timer (\<lambda>t. t\<lparr>previousT := lastTimer m\<rparr>) m)
              (\<lambda>m1. bindR (updT (lastTimer m1) (\<lambda>t. t\<lparr>nextT := timer\<rparr>) m1)
                (\<lambda>m2. Inr (m2\<lparr>lastTimer := timer\<rparr>))))
         (\<lambda>m3. updT timer (\<lambda>t. t\<lparr>tstatus := ADDED\<rparr>) m3))"

definition CTimerManager_delTimer :: "timerManager \<Rightarrow> ub8_ \<Rightarrow> timerManager result" where
  "CTimerManager_delTimer m timer =
     assertR (timer \<noteq> null_v)
       (getT m timer (\<lambda>t.
         bindR
           (if previousT t = null_v then
              assertR (timer = timerList m)
                (if nextT t = null_v then
                   assertR (timer = lastTimer m)
                     (Inr (m\<lparr>lastTimer := null_v, timerList := null_v\<rparr>))
                 else
                   updT (nextT t) (\<lambda>n. n\<lparr>previousT := null_v\<rparr>) (m\<lparr>timerList := nextT t\<rparr>))
            else
              (if nextT t = null_v then
                 assertR (timer = lastTimer m)
                   (updT (previousT t) (\<lambda>p. p\<lparr>nextT := null_v\<rparr>) (m\<lparr>lastTimer := previousT t\<rparr>))
               else
                 bindR (updT (previousT t) (\<lambda>p. p\<lparr>nextT := nextT t\<rparr>) m)
                   (updT (nextT t) (\<lambda>n. n\<lparr>previousT := previousT t\<rparr>))))
           (\<lambda>m1. bindR (updT timer (\<lambda>t. t\<lparr>tstatus := DELETED\<rparr>) m1)
             (\<lambda>m2. bindR (CResource_reclaim (timerRes m2) timer)
               (\<lambda>(_, r). Inr (m2\<lparr>timerRes := r\<rparr>))))))"

definition CTimerManager_setTimer ::
  "timeval \<Rightarrow> timerManager \<Rightarrow> ub4_ \<Rightarrow> ub8_ \<Rightarrow> ub8_ \<Rightarrow> ub4_ \<Rightarrow> (ub8_ \<times> timerManager) result" where
  "CTimerManager_setTimer curTime m per pI pII n =
     bindR (CResource_allocate (timerRes m)) (\<lambda>(timer, r).
       let m1 = m\<lparr>timerRes := r\<rparr> in
       if timer = null_v then Inr (0, m1)
       else getT m1 timer (\<lambda>t.
         assertR (tstatus t = NOTHING \<or> tstatus t = DELETED)
           (bindR
             (updT timer
               (\<lambda>_. \<lparr>period = per, parameterI = pI, parameterII = pII, ttimes = n,
                      baseS = word_of_int (tv_sec curTime), baseUS = word_of_int (tv_usec curTime),
                      previousT = null_v, nextT = null_v, tstatus = TO_BE_ADD\<rparr>) m1)
             (\<lambda>m2. Inr (timer, m2\<lparr>queueForAdd := queueForAdd m2 @ [timer]\<rparr>)))))"

definition CTimerManager_killTimer :: "timerManager \<Rightarrow> ub8_ \<Rightarrow> timerManager result" where
  "CTimerManager_killTimer m timerId =
     assertR (timerId \<noteq> 0)
       (getT m timerId (\<lambda>t.
         assertR (tstatus t \<noteq> NOTHING)
           (if tstatus t = TO_BE_ADD then
              bindR (updT timerId (\<lambda>t. t\<lparr>tstatus := DELETED\<rparr>) m)
                (\<lambda>m1. bindR (CResource_reclaim (timerRes m1) timerId)
                  (\<lambda>(_, r). Inr (m1\<lparr>timerRes := r\<rparr>)))
            else if tstatus t \<noteq> ADDED then Inr m
            else
              bindR (updT timerId (\<lambda>t. t\<lparr>tstatus := TO_BE_DEL\<rparr>) m)
                (\<lambda>m1. Inr (m1\<lparr>queueForDel := queueForDel m1 @ [timerId]\<rparr>)))))"

text \<open>The two loops at the start of \<open>working\<close>, over the queues they empty.\<close>

fun drainAdd :: "timerManager \<Rightarrow> ub8_ list \<Rightarrow> timerManager result" where
  "drainAdd m [] = Inr m"
| "drainAdd m (timer # rest) =
     getT m timer (\<lambda>t.
       bindR (if tstatus t = TO_BE_ADD then CTimerManager_addTimer m timer else Inr m)
         (\<lambda>m1. drainAdd (m1\<lparr>queueForAdd := rest\<rparr>) rest))"

fun drainDel :: "timerManager \<Rightarrow> ub8_ list \<Rightarrow> timerManager result" where
  "drainDel m [] = Inr m"
| "drainDel m (timer # rest) =
     getT m timer (\<lambda>t.
       bindR
         (if tstatus t = TO_BE_DEL then
            (let m1 = (if timer = curTimer m then m\<lparr>curTimer := nextT t\<rparr> else m)
             in CTimerManager_delTimer m1 timer)
          else Inr m)
         (\<lambda>m1. drainDel (m1\<lparr>queueForDel := rest\<rparr>) rest))"

definition timer_due :: "timeval \<Rightarrow> TTimer \<Rightarrow> bool" where
  "timer_due curTime t \<longleftrightarrow>
     (let i = period t + baseS t in
        sint i < tv_sec curTime \<or> sint i = tv_sec curTime \<and> sint (baseUS t) \<le> tv_usec curTime)"

definition CTimerManager_fire ::
  "(ub8_ \<Rightarrow> ub8_ \<Rightarrow> ub8_ \<Rightarrow> 'w \<Rightarrow> (bool \<times> 'w) result) \<Rightarrow> timeval \<Rightarrow>
   timerManager \<Rightarrow> 'w \<Rightarrow> (timerManager \<times> 'w) result" where
  "CTimerManager_fire onTimer curTime m w =
     (let cur = curTimer m in
      getT m cur (\<lambda>t.
        if timer_due curTime t then
          bindR (onTimer cur (parameterI t) (parameterII t) w) (\<lambda>(again, w1).
            if again then
              bindR (updT cur (\<lambda>t. t\<lparr>baseS := word_of_int (tv_sec curTime),
                                     baseUS := word_of_int (tv_usec curTime),
                                     ttimes := (if ttimes t \<noteq> 0 then ttimes t - 1 else ttimes t)\<rparr>) m)
                (\<lambda>m1. if ttimes t \<noteq> 0 \<and> ttimes t - 1 = 0 then
                         bindR (CTimerManager_delTimer (m1\<lparr>curTimer := nextT t\<rparr>) cur)
                           (\<lambda>m2. Inr (m2, w1))
                       else Inr (m1\<lparr>curTimer := nextT t\<rparr>, w1))
            else
              bindR (CTimerManager_delTimer (m\<lparr>curTimer := nextT t\<rparr>) cur) (\<lambda>m1. Inr (m1, w1)))
        else Inr (m\<lparr>curTimer := nextT t\<rparr>, w)))"

text \<open>
  \<open>working\<close> has two parts: the two loops run while the mutex is held, the rest runs
  without it, so that calls of other threads may come between them.
\<close>

definition CTimerManager_sync :: "timerManager \<Rightarrow> timerManager result" where
  "CTimerManager_sync m =
     bindR (drainAdd m (queueForAdd m)) (\<lambda>m1. drainDel m1 (queueForDel m1))"

definition CTimerManager_poll ::
  "(ub8_ \<Rightarrow> ub8_ \<Rightarrow> ub8_ \<Rightarrow> 'w \<Rightarrow> (bool \<times> 'w) result) \<Rightarrow> timeval \<Rightarrow>
   timerManager \<Rightarrow> 'w \<Rightarrow> (timerManager \<times> 'w) result" where
  "CTimerManager_poll onTimer curTime m w =
     (if curTimer m = null_v then
        (if timerList m = null_v then Inr (m, w)
         else CTimerManager_fire onTimer curTime (m\<lparr>curTimer := timerList m\<rparr>) w)
      else CTimerManager_fire onTimer curTime m w)"

definition CTimerManager_working ::
  "(ub8_ \<Rightarrow> ub8_ \<Rightarrow> ub8_ \<Rightarrow> 'w \<Rightarrow> (bool \<times> 'w) result) \<Rightarrow> timeval \<Rightarrow>
   timerManager \<Rightarrow> 'w \<Rightarrow> (bool \<times> timerManager \<times> 'w) result" where
  "CTimerManager_working onTimer curTime m w =
     bindR (CTimerManager_sync m) (\<lambda>m1.
       bindR (CTimerManager_poll onTimer curTime m1 w) (\<lambda>(m2, w1). Inr (True, m2, w1)))"

section \<open>Linked lists in the store\<close>

fun headOr :: "ub8_ list \<Rightarrow> ub8_ \<Rightarrow> ub8_" where
  "headOr [] n = n"
| "headOr (x # _) n = x"

fun lastOr :: "ub8_ \<Rightarrow> ub8_ list \<Rightarrow> ub8_" where
  "lastOr p [] = p"
| "lastOr p (x # xs) = lastOr x xs"

text \<open>
  \<open>dseg h p xs n\<close>: the timers \<open>xs\<close> are linked in this order, the first one's
  \<open>previous\<close> is \<open>p\<close> and the last one's \<open>next\<close> is \<open>n\<close>.
\<close>

fun dseg :: "(ub8_ \<rightharpoonup> TTimer) \<Rightarrow> ub8_ \<Rightarrow> ub8_ list \<Rightarrow> ub8_ \<Rightarrow> bool" where
  "dseg h p [] n \<longleftrightarrow> True"
| "dseg h p (x # xs) n \<longleftrightarrow>
     (case h x of None \<Rightarrow> False
      | Some t \<Rightarrow> previousT t = p \<and> nextT t = headOr xs n \<and> dseg h x xs n)"

lemma headOr_append [simp]: "headOr (xs @ ys) n = headOr xs (headOr ys n)"
  by (cases xs) simp_all

lemma lastOr_append [simp]: "lastOr p (xs @ ys) = lastOr (lastOr p xs) ys"
  by (induction xs arbitrary: p) simp_all

lemma lastOr_last: "xs \<noteq> [] \<Longrightarrow> lastOr p xs = last xs"
  by (induction xs arbitrary: p) auto

lemma headOr_in: "headOr xs n = n \<or> headOr xs n \<in> set xs"
  by (cases xs) simp_all

lemma dseg_append:
  "dseg h p (xs @ ys) n \<longleftrightarrow> dseg h p xs (headOr ys n) \<and> dseg h (lastOr p xs) ys n"
  by (induction xs arbitrary: p) (auto split: option.splits)

lemma dseg_frame: "(\<And>x. x \<in> set xs \<Longrightarrow> h' x = h x) \<Longrightarrow> dseg h' p xs n = dseg h p xs n"
  by (induction xs arbitrary: p) (auto split: option.splits)

lemma dseg_upd_outside [simp]: "u \<notin> set xs \<Longrightarrow> dseg (h(u \<mapsto> t)) p xs n = dseg h p xs n"
  by (rule dseg_frame) auto

lemma dseg_upd_same_links:
  "h u = Some t \<Longrightarrow> previousT t' = previousT t \<Longrightarrow> nextT t' = nextT t \<Longrightarrow>
   dseg (h(u \<mapsto> t')) p xs n = dseg h p xs n"
  by (induction xs arbitrary: p) (auto split: option.splits)

lemma dseg_dom: "dseg h p xs n \<Longrightarrow> x \<in> set xs \<Longrightarrow> \<exists>t. h x = Some t"
  by (induction xs arbitrary: p) (auto split: option.splits)

text \<open>Redirecting the end or the start of a segment.\<close>

lemma dseg_set_next:
  assumes "dseg h p (xs @ [a]) n" and "a \<notin> set xs" and "h a = Some t"
    and "previousT t' = previousT t" and "nextT t' = n'"
  shows "dseg (h(a \<mapsto> t')) p (xs @ [a]) n'"
  using assms by (auto simp: dseg_append)

lemma dseg_set_prev:
  assumes "dseg h p (b # ys) n" and "b \<notin> set ys" and "h b = Some t"
    and "previousT t' = p'" and "nextT t' = nextT t"
  shows "dseg (h(b \<mapsto> t')) p' (b # ys) n"
  using assms by auto

section \<open>Invariant\<close>

definition timer_ok :: "timerManager \<Rightarrow> ub8_ list \<Rightarrow> ub8_ \<Rightarrow> TTimer \<Rightarrow> bool" where
  "timer_ok m xs u t \<longleftrightarrow>
     (u \<in> set (freeDeque (timerRes m)) \<longleftrightarrow> tstatus t = NOTHING \<or> tstatus t = DELETED) \<and>
     (u \<in> set xs \<longleftrightarrow> tstatus t = ADDED \<or> tstatus t = TO_BE_DEL) \<and>
     (tstatus t = TO_BE_ADD \<longrightarrow>
        u \<in> set (queueForAdd m) \<and> previousT t = null_v \<and> nextT t = null_v) \<and>
     (tstatus t = TO_BE_DEL \<longrightarrow> u \<in> set (queueForDel m))"

definition tm_inv :: "timerManager \<Rightarrow> ub8_ list \<Rightarrow> bool" where
  "tm_inv m xs \<longleftrightarrow>
     pool_wf (timerRes m) \<and> dom (timers m) = set (unitGroup (timerRes m)) \<and>
     dseg (timers m) null_v xs null_v \<and> distinct xs \<and>
     timerList m = headOr xs null_v \<and> lastTimer m = lastOr null_v xs \<and>
     (\<forall>u t. timers m u = Some t \<longrightarrow> timer_ok m xs u t) \<and>
     set (queueForAdd m) \<subseteq> set (unitGroup (timerRes m)) \<and>
     set (queueForDel m) \<subseteq> set (unitGroup (timerRes m)) \<and>
     (curTimer m = null_v \<or> curTimer m \<in> set xs)"

lemma tm_inv_in_list:
  assumes "tm_inv m xs" and "x \<in> set xs"
  shows "x \<noteq> null_v" and "\<exists>t. timers m x = Some t"
  using assms dseg_dom [of "timers m" null_v xs null_v x]
  by (auto simp: tm_inv_def pool_wf_def dest: domI)

lemma getT_Some [simp]: "timers m p = Some t \<Longrightarrow> getT m p k = k t"
  by (simp add: getT_def)

lemma updT_Some [simp]: "timers m p = Some t \<Longrightarrow> updT p f m = Inr (m\<lparr>timers := (timers m)(p \<mapsto> f t)\<rparr>)"
  by (simp add: updT_def)

text \<open>\<open>_addTimer\<close> appends.\<close>

lemma addTimer_links:
  assumes inv: "tm_inv m xs" and u: "timers m u = Some t" "tstatus t = TO_BE_ADD"
  shows "\<exists>h. CTimerManager_addTimer m u = Inr (m\<lparr>timers := h, timerList := headOr (xs @ [u]) null_v, lastTimer := u\<rparr>) \<and>
     dseg h null_v (xs @ [u]) null_v \<and> dom h = dom (timers m) \<and>
     (\<forall>x t'. h x = Some t' \<longrightarrow> (\<exists>t0. timers m x = Some t0 \<and>
        (if x = u then tstatus t' = ADDED
         else tstatus t' = tstatus t0 \<and> (x \<notin> set xs \<longrightarrow> t' = t0))))"
proof -
  have ok: "timer_ok m xs u t" and d: "dseg (timers m) null_v xs null_v" and di: "distinct xs"
    and fl: "timerList m = headOr xs null_v" "lastTimer m = lastOr null_v xs"
    using inv u by (auto simp: tm_inv_def)
  have u0: "u \<noteq> null_v" and ux: "u \<notin> set xs" and tl: "previousT t = null_v" "nextT t = null_v"
    using inv u ok by (auto simp: tm_inv_def timer_ok_def pool_wf_def dest: domI)
  show ?thesis
  proof (cases xs rule: rev_cases)
    case Nil
    then have "CTimerManager_addTimer m u =
        Inr (m\<lparr>timers := (timers m)(u \<mapsto> t\<lparr>tstatus := ADDED\<rparr>), timerList := u, lastTimer := u\<rparr>)"
      using u u0 fl by (simp add: CTimerManager_addTimer_def)
    then show ?thesis
      using Nil u tl by (intro exI [of _ "(timers m)(u \<mapsto> t\<lparr>tstatus := ADDED\<rparr>)"]) auto
  next
    case (snoc as a)
    then obtain ta where ta: "timers m a = Some ta" using d by (auto simp: dseg_append split: option.splits)
    have a0: "a \<noteq> null_v" "a \<noteq> u" "headOr xs null_v \<noteq> null_v"
      using tm_inv_in_list(1) [OF inv] headOr_in [of as a] ux snoc by auto
    let ?h = "(timers m)(a \<mapsto> ta\<lparr>nextT := u\<rparr>, u \<mapsto> t\<lparr>previousT := a, tstatus := ADDED\<rparr>)"
    have "dseg ((timers m)(a \<mapsto> ta\<lparr>nextT := u\<rparr>)) null_v (as @ [a]) u"
      using d di snoc ta by (intro dseg_set_next) auto
    then have "dseg ?h null_v (xs @ [u]) null_v"
      using ux tl snoc by (auto simp: dseg_append)
    moreover have "CTimerManager_addTimer m u = Inr (m\<lparr>timers := ?h, timerList := headOr (xs @ [u]) null_v, lastTimer := u\<rparr>)"
      using u u0 ta a0 fl snoc by (simp add: CTimerManager_addTimer_def fun_upd_twist)
    ultimately show ?thesis using u ta a0 snoc
      by (intro exI [of _ ?h]) auto
  qed
qed

lemma addTimer_inv:
  assumes inv: "tm_inv m xs" and u: "timers m u = Some t" "tstatus t = TO_BE_ADD"
  shows "\<exists>m'. CTimerManager_addTimer m u = Inr m' \<and> tm_inv m' (xs @ [u]) \<and>
     queueForAdd m' = queueForAdd m \<and> queueForDel m' = queueForDel m \<and> curTimer m' = curTimer m \<and>
     timerRes m' = timerRes m \<and>
     (\<forall>x. map_option tstatus (timers m' x) =
        (if x = u then Some ADDED else map_option tstatus (timers m x)))"
proof -
  obtain h where h: "CTimerManager_addTimer m u =
      Inr (m\<lparr>timers := h, timerList := headOr (xs @ [u]) null_v, lastTimer := u\<rparr>)"
    "dseg h null_v (xs @ [u]) null_v" "dom h = dom (timers m)"
    and hx: "\<And>x t'. h x = Some t' \<Longrightarrow> \<exists>t0. timers m x = Some t0 \<and>
        (if x = u then tstatus t' = ADDED
         else tstatus t' = tstatus t0 \<and> (x \<notin> set xs \<longrightarrow> t' = t0))"
    using addTimer_links [OF inv u] by blast
  have ok: "timer_ok m xs u t" using inv u by (auto simp: tm_inv_def)
  then have ux: "u \<notin> set xs" "u \<notin> set (freeDeque (timerRes m))" using u by (auto simp: timer_ok_def)
  let ?m = "m\<lparr>timers := h, timerList := headOr (xs @ [u]) null_v, lastTimer := u\<rparr>"
  have "timer_ok ?m (xs @ [u]) x t'" if a: "h x = Some t'" for x t'
  proof -
    obtain t0 where t0: "timers m x = Some t0" "if x = u then tstatus t' = ADDED
         else tstatus t' = tstatus t0 \<and> (x \<notin> set xs \<longrightarrow> t' = t0)"
      using hx [OF a] by blast
    then have "timer_ok m xs x t0" using inv by (auto simp: tm_inv_def)
    then show ?thesis using t0 ux by (auto simp: timer_ok_def split: if_splits)
  qed
  then have "tm_inv ?m (xs @ [u])"
    using inv h ux by (auto simp: tm_inv_def)
  moreover have "map_option tstatus (h x) = (if x = u then Some ADDED else map_option tstatus (timers m x))" for x
    using hx [of x] h(3) u by (cases "h x") (auto split: if_splits)
  ultimately show ?thesis using h(1) by simp
qed

text \<open>The store after a timer has been unlinked from between \<open>as\<close> and \<open>bs\<close>.\<close>

definition unlinked :: "(ub8_ \<rightharpoonup> TTimer) \<Rightarrow> ub8_ list \<Rightarrow> ub8_ list \<Rightarrow> (ub8_ \<rightharpoonup> TTimer) \<Rightarrow> bool" where
  "unlinked h as bs h' \<longleftrightarrow>
     dseg h' null_v (as @ bs) null_v \<and> dom h' = dom h \<and>
     (\<forall>x t'. h' x = Some t' \<longrightarrow> (\<exists>t0. h x = Some t0 \<and> tstatus t' = tstatus t0 \<and>
        (x \<notin> set (as @ bs) \<longrightarrow> t' = t0)))"

lemma unlink_first:
  assumes "dseg h null_v (u # bs) null_v" and "distinct (u # bs)" and "bs = b # bs'" and "h b = Some tb"
  shows "unlinked h [] bs (h(b \<mapsto> tb\<lparr>previousT := null_v\<rparr>))"
  using assms by (auto simp: unlinked_def split: option.splits)

lemma unlink_last:
  assumes "dseg h null_v (as @ [u]) null_v" and "distinct (as @ [u])" and "as = as' @ [a]" and "h a = Some ta"
  shows "unlinked h as [] (h(a \<mapsto> ta\<lparr>nextT := null_v\<rparr>))"
  using assms dseg_set_next [of h null_v as' a u ta "ta\<lparr>nextT := null_v\<rparr>" null_v]
  by (auto simp: unlinked_def dseg_append split: option.splits)

lemma unlink_middle:
  assumes d: "dseg h null_v (as @ u # bs) null_v" and di: "distinct (as @ u # bs)"
    and a: "as = as' @ [a]" "h a = Some ta" and b: "bs = b # bs'" "h b = Some tb"
  shows "unlinked h as bs (h(a \<mapsto> ta\<lparr>nextT := b\<rparr>, b \<mapsto> tb\<lparr>previousT := a\<rparr>))"
proof -
  let ?h1 = "h(a \<mapsto> ta\<lparr>nextT := b\<rparr>)"
  have "dseg ?h1 null_v (as' @ [a]) b"
    using d di a by (intro dseg_set_next [of h null_v as' a u ta]) (auto simp: dseg_append)
  moreover have "dseg (?h1(b \<mapsto> tb\<lparr>previousT := a\<rparr>)) a bs null_v"
    using d di a b by (auto simp: dseg_append split: option.splits)
  ultimately show ?thesis
    using di a b by (auto simp: unlinked_def dseg_append)
qed

definition same_but_links :: "timerManager \<Rightarrow> timerManager \<Rightarrow> bool" where
  "same_but_links m m' \<longleftrightarrow>
     timerRes m' = timerRes m \<and> queueForAdd m' = queueForAdd m \<and> queueForDel m' = queueForDel m \<and>
     curTimer m' = curTimer m"

lemma delTimer_links:
  assumes inv: "tm_inv m (as @ u # bs)"
  obtains m1 where "unlinked (timers m) as bs (timers m1)" and "same_but_links m m1"
    and "timerList m1 = headOr (as @ bs) null_v" and "lastTimer m1 = lastOr null_v (as @ bs)"
    and "CTimerManager_delTimer m u = bindR (updT u (\<lambda>t. t\<lparr>tstatus := DELETED\<rparr>) m1)
      (\<lambda>m2. bindR (CResource_reclaim (timerRes m2) u) (\<lambda>(_, r). Inr (m2\<lparr>timerRes := r\<rparr>)))"
proof -
  have d: "dseg (timers m) null_v (as @ u # bs) null_v" and di: "distinct (as @ u # bs)"
    and fl: "timerList m = headOr (as @ u # bs) null_v" "lastTimer m = lastOr null_v (as @ u # bs)"
    using inv by (auto simp: tm_inv_def)
  obtain t where t: "timers m u = Some t" "previousT t = lastOr null_v as" "nextT t = headOr bs null_v"
    using d by (auto simp: dseg_append split: option.splits)
  have nz: "u \<noteq> null_v" "\<And>x. x \<in> set as \<union> set bs \<Longrightarrow> x \<noteq> null_v"
    "\<And>x. x \<in> set as \<union> set bs \<Longrightarrow> \<exists>t. timers m x = Some t"
    using tm_inv_in_list [OF inv] by auto
  note s = CTimerManager_delTimer_def same_but_links_def
  show thesis
  proof (cases as rule: rev_cases)
    case as: Nil
    show thesis
    proof (cases bs)
      case Nil
      show thesis
        by (rule that [of "m\<lparr>lastTimer := null_v, timerList := null_v\<rparr>"])
          (use as Nil t fl nz in \<open>simp_all add: s unlinked_def\<close>)
    next
      case (Cons b bs')
      then obtain tb where tb: "timers m b = Some tb" using nz by auto
      show thesis
        by (rule that [of "m\<lparr>timerList := b, timers := (timers m)(b \<mapsto> tb\<lparr>previousT := null_v\<rparr>)\<rparr>"])
          (use as Cons tb t fl nz d di unlink_first [of "timers m" u bs b bs' tb] in \<open>simp_all add: s\<close>)
    qed
  next
    case as: (snoc as' a)
    then obtain ta where ta: "timers m a = Some ta" using nz by auto
    show thesis
    proof (cases bs)
      case Nil
      show thesis
        by (rule that [of "m\<lparr>lastTimer := a, timers := (timers m)(a \<mapsto> ta\<lparr>nextT := null_v\<rparr>)\<rparr>"])
          (use as Nil ta t fl nz d di unlink_last [of "timers m" as u as' a ta] in \<open>simp_all add: s\<close>)
    next
      case (Cons b bs')
      then obtain tb where tb: "timers m b = Some tb" using nz by auto
      show thesis
        by (rule that [of "m\<lparr>timers := (timers m)(a \<mapsto> ta\<lparr>nextT := b\<rparr>, b \<mapsto> tb\<lparr>previousT := a\<rparr>)\<rparr>"])
          (use as Cons ta tb t fl nz d di unlink_middle [of "timers m" as u bs as' a ta b bs' tb]
            in \<open>auto simp: s\<close>)
    qed
  qed
qed

definition status_of :: "timerManager \<Rightarrow> ub8_ \<Rightarrow> ETimerStatus option" where
  "status_of m u = map_option tstatus (timers m u)"

lemma unlinkedD:
  "unlinked h as bs h' \<Longrightarrow> h' x = Some t' \<Longrightarrow>
   \<exists>t0. h x = Some t0 \<and> tstatus t' = tstatus t0 \<and> (x \<notin> set (as @ bs) \<longrightarrow> t' = t0)"
  by (simp add: unlinked_def)

lemma reclaim_result:
  assumes "pool_wf r0" and "u \<in> set (unitGroup r0)" and "u \<notin> set (freeDeque r0)"
  obtains r where "CResource_reclaim r0 u = Inr (True, r)" and "pool_wf r"
    and "freeDeque r = freeDeque r0 @ [u]" and "unitGroup r = unitGroup r0"
  using res.recl_held [OF assms] that by (auto simp: CResource_reclaim_def assertR_def split: if_splits)

lemma delTimer_result:
  assumes inv: "tm_inv m (as @ u # bs)"
  obtains m1 t1 r where "unlinked (timers m) as bs (timers m1)" and "same_but_links m m1"
    and "timerList m1 = headOr (as @ bs) null_v" and "lastTimer m1 = lastOr null_v (as @ bs)"
    and "timers m1 u = Some t1" and "pool_wf r" and "freeDeque r = freeDeque (timerRes m) @ [u]"
    and "unitGroup r = unitGroup (timerRes m)"
    and "CTimerManager_delTimer m u =
      Inr (m1\<lparr>timers := (timers m1)(u \<mapsto> t1\<lparr>tstatus := DELETED\<rparr>), timerRes := r\<rparr>)"
proof -
  obtain m1 where m1: "unlinked (timers m) as bs (timers m1)" "same_but_links m m1"
    "timerList m1 = headOr (as @ bs) null_v" "lastTimer m1 = lastOr null_v (as @ bs)"
    "CTimerManager_delTimer m u = bindR (updT u (\<lambda>t. t\<lparr>tstatus := DELETED\<rparr>) m1)
      (\<lambda>m2. bindR (CResource_reclaim (timerRes m2) u) (\<lambda>(_, r). Inr (m2\<lparr>timerRes := r\<rparr>)))"
    by (rule delTimer_links [OF inv])
  obtain t where t: "timers m u = Some t" using tm_inv_in_list(2) [OF inv] by auto
  then obtain t1 where t1: "timers m1 u = Some t1" using m1(1) by (fastforce simp: unlinked_def)
  have "timer_ok m (as @ u # bs) u t" and wf: "pool_wf (timerRes m)" and du: "u \<in> set (unitGroup (timerRes m))"
    using inv t by (auto simp: tm_inv_def)
  then have "u \<notin> set (freeDeque (timerRes m))" by (auto simp: timer_ok_def)
  then obtain r where r: "CResource_reclaim (timerRes m) u = Inr (True, r)" "pool_wf r"
    "freeDeque r = freeDeque (timerRes m) @ [u]" "unitGroup r = unitGroup (timerRes m)"
    by (rule reclaim_result [OF wf du])
  show thesis
    by (rule that [OF m1(1-4) t1 r(2-4)]) (use m1(2,5) t1 r in \<open>simp add: same_but_links_def\<close>)
qed

lemma delTimer_inv:
  assumes inv: "tm_inv m xs" and u: "u \<in> set xs" "u \<noteq> curTimer m"
  shows "\<exists>m'. CTimerManager_delTimer m u = Inr m' \<and> tm_inv m' (remove1 u xs) \<and>
     same_but_links (m\<lparr>timerRes := timerRes m'\<rparr>) m' \<and>
     unitGroup (timerRes m') = unitGroup (timerRes m) \<and>
     freeDeque (timerRes m') = freeDeque (timerRes m) @ [u] \<and>
     (\<forall>x. status_of m' x = (if x = u then Some DELETED else status_of m x))"
proof -
  obtain as bs where xs: "xs = as @ u # bs" "u \<notin> set as" using u(1) by (meson split_list_first)
  have "distinct xs" using inv by (simp add: tm_inv_def)
  then have ub: "u \<notin> set (as @ bs)" and r1: "remove1 u xs = as @ bs" using xs by (auto simp: remove1_append)
  obtain m1 t1 r where ul: "unlinked (timers m) as bs (timers m1)" and "same_but_links m m1"
    and hl: "timerList m1 = headOr (as @ bs) null_v" "lastTimer m1 = lastOr null_v (as @ bs)"
    and t1: "timers m1 u = Some t1" and r: "pool_wf r" "freeDeque r = freeDeque (timerRes m) @ [u]"
    "unitGroup r = unitGroup (timerRes m)"
    and eq: "CTimerManager_delTimer m u = Inr (m1\<lparr>timers := (timers m1)(u \<mapsto> t1\<lparr>tstatus := DELETED\<rparr>), timerRes := r\<rparr>)"
    (is "_ = Inr ?m")
    by (rule delTimer_result [OF inv [unfolded xs]])
  then have sl: "timerRes m1 = timerRes m" "queueForAdd m1 = queueForAdd m" "queueForDel m1 = queueForDel m"
    "curTimer m1 = curTimer m" by (simp_all add: same_but_links_def)
  have "timer_ok ?m (as @ bs) x t'" if tx: "timers ?m x = Some t'" for x t'
  proof (cases "x = u")
    case False
    then obtain t0 where t0: "timers m x = Some t0" "tstatus t' = tstatus t0" "x \<notin> set (as @ bs) \<longrightarrow> t' = t0"
      using unlinkedD [OF ul, of x t'] tx by auto
    then have "timer_ok m xs x t0" using inv by (auto simp: tm_inv_def)
    then show ?thesis using t0 False sl r xs by (auto simp: timer_ok_def)
  qed (use tx ub r in \<open>auto simp: timer_ok_def\<close>)
  moreover have "dom (timers ?m) = set (unitGroup r)" "dseg (timers ?m) null_v (as @ bs) null_v"
    using ul inv t1 r ub by (auto simp: unlinked_def tm_inv_def)
  ultimately have "tm_inv ?m (as @ bs)"
    using inv hl sl r xs u(2) by (auto simp: tm_inv_def)
  moreover have "status_of ?m x = (if x = u then Some DELETED else status_of m x)" for x
    using ul by (cases "timers m1 x") (force simp: unlinked_def status_of_def)+
  ultimately show ?thesis using eq r1 sl r by (simp add: same_but_links_def)
qed

section \<open>The worker's two loops\<close>

text \<open>Taking the front off a queue once it has been dealt with.\<close>

lemma pop_add:
  assumes inv: "tm_inv m xs" and q: "queueForAdd m = u # q" and st: "status_of m u \<noteq> Some TO_BE_ADD"
  shows "tm_inv (m\<lparr>queueForAdd := q\<rparr>) xs"
proof -
  have "timer_ok (m\<lparr>queueForAdd := q\<rparr>) xs x t" if "timers m x = Some t" for x t
  proof -
    have "timer_ok m xs x t" using inv that by (simp add: tm_inv_def)
    moreover have "tstatus t = TO_BE_ADD \<Longrightarrow> x \<noteq> u" using st that by (auto simp: status_of_def)
    ultimately show ?thesis using q by (auto simp: timer_ok_def)
  qed
  then show ?thesis using inv q by (auto simp: tm_inv_def)
qed

lemma pop_del:
  assumes inv: "tm_inv m xs" and q: "queueForDel m = u # q" and st: "status_of m u \<noteq> Some TO_BE_DEL"
  shows "tm_inv (m\<lparr>queueForDel := q\<rparr>) xs"
proof -
  have "timer_ok (m\<lparr>queueForDel := q\<rparr>) xs x t" if "timers m x = Some t" for x t
  proof -
    have "timer_ok m xs x t" using inv that by (simp add: tm_inv_def)
    moreover have "tstatus t = TO_BE_DEL \<Longrightarrow> x \<noteq> u" using st that by (auto simp: status_of_def)
    ultimately show ?thesis using q by (auto simp: timer_ok_def)
  qed
  then show ?thesis using inv q by (auto simp: tm_inv_def)
qed

lemma status_of_simps [simp]:
  "status_of (m\<lparr>queueForAdd := q\<rparr>) = status_of m" "status_of (m\<lparr>queueForDel := q\<rparr>) = status_of m"
  "status_of (m\<lparr>curTimer := c\<rparr>) = status_of m"
  by (simp_all add: status_of_def fun_eq_iff)

lemma queued_timer:
  assumes "tm_inv m xs" and "u \<in> set (queueForAdd m) \<or> u \<in> set (queueForDel m)"
  obtains t where "timers m u = Some t"
proof -
  have "u \<in> dom (timers m)" using assms by (auto simp: tm_inv_def)
  then show thesis using that by blast
qed

lemma drainAdd_inv:
  assumes "tm_inv m xs" and "queueForAdd m = q"
  shows "\<exists>m' ys. drainAdd m q = Inr m' \<and> tm_inv m' (xs @ ys) \<and> queueForAdd m' = [] \<and>
     queueForDel m' = queueForDel m \<and> curTimer m' = curTimer m \<and> timerRes m' = timerRes m \<and>
     set ys = {u. status_of m u = Some TO_BE_ADD} \<and>
     (\<forall>u. status_of m' u = (if u \<in> set ys then Some ADDED else status_of m u))"
  using assms
proof (induction q arbitrary: m xs)
  case Nil
  have "status_of m u \<noteq> Some TO_BE_ADD" for u
    using Nil by (auto simp: status_of_def tm_inv_def timer_ok_def)
  then show ?case using Nil by (auto intro!: exI [of _ "[]"])
next
  case (Cons u q)
  obtain t where t: "timers m u = Some t"
    by (rule queued_timer [of m xs u]) (use Cons.prems in auto)
  show ?case
  proof (cases "tstatus t = TO_BE_ADD")
    case True
    obtain m1 where m1: "CTimerManager_addTimer m u = Inr m1" "tm_inv m1 (xs @ [u])"
      "queueForDel m1 = queueForDel m" "curTimer m1 = curTimer m" "timerRes m1 = timerRes m"
      "queueForAdd m1 = u # q"
      "\<And>x. status_of m1 x = (if x = u then Some ADDED else status_of m x)"
      using addTimer_inv [OF Cons.prems(1) t True] Cons.prems(2) by (auto simp: status_of_def)
    have "tm_inv (m1\<lparr>queueForAdd := q\<rparr>) (xs @ [u])"
      by (rule pop_add [OF m1(2,6)]) (simp add: m1(7))
    from Cons.IH [OF this] obtain m' ys where "drainAdd (m1\<lparr>queueForAdd := q\<rparr>) q = Inr m'"
      "tm_inv m' ((xs @ [u]) @ ys)" "queueForAdd m' = []" "queueForDel m' = queueForDel m"
      "curTimer m' = curTimer m" "timerRes m' = timerRes m" "set ys = {v. status_of m1 v = Some TO_BE_ADD}"
      "\<forall>v. status_of m' v = (if v \<in> set ys then Some ADDED else status_of m1 v)"
      using m1 by auto
    moreover have "status_of m u = Some TO_BE_ADD" using t True by (simp add: status_of_def)
    ultimately show ?thesis using m1 t True
      by (intro exI [of _ m'] exI [of _ "u # ys"]) auto
  next
    case False
    have "tm_inv (m\<lparr>queueForAdd := q\<rparr>) xs"
      by (rule pop_add [OF Cons.prems]) (use t False in \<open>simp add: status_of_def\<close>)
    then show ?thesis using Cons.IH [of "m\<lparr>queueForAdd := q\<rparr>" xs] t False
      by (simp cong: if_cong)
  qed
qed

text \<open>Moving the cursor off a timer before it is deleted.\<close>

lemma cursor_next:
  assumes inv: "tm_inv m xs" and u: "u \<in> set xs" "timers m u = Some t"
  shows "tm_inv (m\<lparr>curTimer := nextT t\<rparr>) xs" and "nextT t \<noteq> u"
    and "\<exists>as bs. xs = as @ u # bs \<and> nextT t = headOr bs null_v"
proof -
  obtain as bs where xs: "xs = as @ u # bs" using u(1) by (meson split_list)
  have "nextT t = headOr bs null_v" "u \<notin> set bs" "u \<noteq> null_v"
    using inv u xs tm_inv_in_list(1) [OF inv u(1)] by (auto simp: tm_inv_def dseg_append)
  then show "nextT t \<noteq> u" and "\<exists>as bs. xs = as @ u # bs \<and> nextT t = headOr bs null_v"
    and "tm_inv (m\<lparr>curTimer := nextT t\<rparr>) xs"
    using inv xs headOr_in [of bs null_v] by (auto simp: tm_inv_def timer_ok_def)
qed

lemma drainDel_inv:
  assumes "tm_inv m xs" and "queueForDel m = q"
  shows "\<exists>m'. drainDel m q = Inr m' \<and> queueForDel m' = [] \<and> queueForAdd m' = queueForAdd m \<and>
     tm_inv m' (filter (\<lambda>u. status_of m u \<noteq> Some TO_BE_DEL) xs) \<and>
     unitGroup (timerRes m') = unitGroup (timerRes m) \<and>
     (\<forall>u. status_of m' u = (if status_of m u = Some TO_BE_DEL then Some DELETED else status_of m u))"
  using assms
proof (induction q arbitrary: m xs)
  case Nil
  have "status_of m u \<noteq> Some TO_BE_DEL" for u
    using Nil by (auto simp: status_of_def tm_inv_def timer_ok_def)
  then show ?case using Nil by auto
next
  case (Cons u q)
  obtain t where t: "timers m u = Some t"
    by (rule queued_timer [of m xs u]) (use Cons.prems in auto)
  show ?case
  proof (cases "tstatus t = TO_BE_DEL")
    case True
    let ?m = "if u = curTimer m then m\<lparr>curTimer := nextT t\<rparr> else m"
    have ux: "u \<in> set xs" using Cons.prems t True by (auto simp: tm_inv_def timer_ok_def)
    then have "tm_inv ?m xs" and "u \<noteq> curTimer ?m"
      using cursor_next(1,2) [OF Cons.prems(1) ux t] Cons.prems(1) by auto
    from delTimer_inv [OF this(1) ux this(2)]
    obtain m1 where m1: "CTimerManager_delTimer ?m u = Inr m1" "tm_inv m1 (remove1 u xs)"
      "queueForDel m1 = u # q" "queueForAdd m1 = queueForAdd m"
      "unitGroup (timerRes m1) = unitGroup (timerRes m)"
      "\<And>x. status_of m1 x = (if x = u then Some DELETED else status_of m x)"
      using Cons.prems(2) by (auto simp: same_but_links_def)
    have "tm_inv (m1\<lparr>queueForDel := q\<rparr>) (remove1 u xs)"
      by (rule pop_del [OF m1(2,3)]) (simp add: m1(6))
    moreover have "filter (\<lambda>v. status_of m1 v \<noteq> Some TO_BE_DEL) (remove1 u xs) =
        filter (\<lambda>v. status_of m v \<noteq> Some TO_BE_DEL) xs"
      using Cons.prems(1) t True m1(6)
      by (auto simp: distinct_remove1_removeAll tm_inv_def removeAll_filter_not_eq status_of_def intro!: filter_cong)
    moreover have "status_of m u = Some TO_BE_DEL" using t True by (simp add: status_of_def)
    ultimately show ?thesis using Cons.IH [of "m1\<lparr>queueForDel := q\<rparr>" "remove1 u xs"] t True m1
      by (auto simp: Let_def)
  next
    case False
    have "tm_inv (m\<lparr>queueForDel := q\<rparr>) xs"
      by (rule pop_del [OF Cons.prems]) (use t False in \<open>simp add: status_of_def\<close>)
    then show ?thesis using Cons.IH [of "m\<lparr>queueForDel := q\<rparr>" xs] t False
      by (simp cong: if_cong)
  qed
qed

section \<open>The operations keep the invariant\<close>

lemma tm_inv_new:
  assumes "1 < n" and "inj_on fresh {0..<unat n}" and "\<forall>i < unat n. fresh i \<noteq> null_v"
  shows "\<exists>m. CTimerManager_new n fresh = Inr m \<and> tm_inv m [] \<and>
     length (freeDeque (timerRes m)) = unat n"
proof -
  obtain r where "CResource_new n fresh = Inr r" "pool_wf r" "freeDeque r = unitGroup r"
    "length (unitGroup r) = unat n"
    using pool_wf_new [OF assms] by blast
  then show ?thesis
    by (auto simp: CTimerManager_new_def tm_inv_def timer_ok_def TTimer_new_def dom_def split: if_splits)
qed

text \<open>The timer that \<open>setTimer\<close> fills in.\<close>

definition armed :: "timeval \<Rightarrow> ub4_ \<Rightarrow> ub8_ \<Rightarrow> ub8_ \<Rightarrow> ub4_ \<Rightarrow> TTimer" where
  "armed now per pI pII n =
     \<lparr>period = per, parameterI = pI, parameterII = pII, ttimes = n,
      baseS = word_of_int (tv_sec now), baseUS = word_of_int (tv_usec now),
      previousT = null_v, nextT = null_v, tstatus = TO_BE_ADD\<rparr>"

lemma setTimer_none:
  "tm_inv m xs \<Longrightarrow> freeDeque (timerRes m) = [] \<Longrightarrow>
   CTimerManager_setTimer now m per pI pII n = Inr (0, m)"
  by (simp add: CTimerManager_setTimer_def CResource_allocate_def)

lemma setTimer_some:
  assumes inv: "tm_inv m xs" and f: "freeDeque (timerRes m) = u # us"
  shows "\<exists>m'. CTimerManager_setTimer now m per pI pII n = Inr (u, m') \<and> u \<noteq> 0 \<and> tm_inv m' xs \<and>
     timers m' = (timers m)(u \<mapsto> armed now per pI pII n) \<and>
     queueForAdd m' = queueForAdd m @ [u] \<and> freeDeque (timerRes m') = us \<and>
     curTimer m' = curTimer m \<and>
     (status_of m u = Some NOTHING \<or> status_of m u = Some DELETED)"
proof -
  have wf: "pool_wf (timerRes m)" using inv by (simp add: tm_inv_def)
  obtain r where r: "CResource_allocate (timerRes m) = Inr (u, r)" "pool_wf r" "freeDeque r = us"
    "unitGroup r = unitGroup (timerRes m)"
    using res.alloc_first [OF wf f] f by (auto simp: CResource_allocate_def assertR_def split: if_splits)
  have u: "u \<in> set (unitGroup (timerRes m))" "u \<noteq> null_v" "u \<notin> set us"
    using wf f by (auto simp: pool_wf_def)
  then have "u \<in> dom (timers m)" using inv by (simp add: tm_inv_def)
  then obtain t where t: "timers m u = Some t" by blast
  then have ok: "timer_ok m xs u t" using inv by (simp add: tm_inv_def)
  then have st: "tstatus t = NOTHING \<or> tstatus t = DELETED" and ux: "u \<notin> set xs"
    using f by (auto simp: timer_ok_def)
  let ?m = "m\<lparr>timerRes := r, timers := (timers m)(u \<mapsto> armed now per pI pII n),
     queueForAdd := queueForAdd m @ [u]\<rparr>"
  have "timer_ok ?m xs x t'" if "timers ?m x = Some t'" for x t'
  proof (cases "x = u")
    case False
    then have "timer_ok m xs x t'" using that inv by (simp add: tm_inv_def)
    then show ?thesis using False f r by (auto simp: timer_ok_def)
  qed (use that ux u r in \<open>auto simp: timer_ok_def armed_def\<close>)
  then have "tm_inv ?m xs" using inv u ux r by (auto simp: tm_inv_def)
  moreover have "CTimerManager_setTimer now m per pI pII n = Inr (u, ?m)"
    using r u t st by (simp add: CTimerManager_setTimer_def armed_def)
  ultimately show ?thesis using r u t st by (auto simp: status_of_def)
qed

definition killed :: "ETimerStatus \<Rightarrow> ETimerStatus" where
  "killed st = (case st of TO_BE_ADD \<Rightarrow> DELETED | ADDED \<Rightarrow> TO_BE_DEL | _ \<Rightarrow> st)"

text \<open>An update of one status that the rest of the state agrees with.\<close>

lemma tm_inv_status:
  assumes inv: "tm_inv m xs" and t: "timers m u = Some t" and r: "pool_wf r"
    "unitGroup r = unitGroup (timerRes m)"
    and ok: "timer_ok (m\<lparr>timerRes := r, queueForDel := q\<rparr>) xs u (t\<lparr>tstatus := st\<rparr>)"
    and fr: "set (freeDeque r) - {u} = set (freeDeque (timerRes m)) - {u}"
    and q: "set (queueForDel m) \<subseteq> set q" "set q \<subseteq> insert u (set (queueForDel m))"
  shows "tm_inv (m\<lparr>timers := (timers m)(u \<mapsto> t\<lparr>tstatus := st\<rparr>), timerRes := r, queueForDel := q\<rparr>) xs"
proof -
  let ?m = "m\<lparr>timers := (timers m)(u \<mapsto> t\<lparr>tstatus := st\<rparr>), timerRes := r, queueForDel := q\<rparr>"
  have "timer_ok ?m xs x t'" if x: "timers ?m x = Some t'" for x t'
  proof (cases "x = u")
    case False
    then have "timer_ok m xs x t'" using x inv by (simp add: tm_inv_def)
    then show ?thesis using False fr q by (auto simp: timer_ok_def)
  qed (use x ok in \<open>simp add: timer_ok_def\<close>)
  moreover have "dseg (timers ?m) null_v xs null_v"
    using inv t by (simp add: tm_inv_def dseg_upd_same_links)
  moreover have "u \<in> set (unitGroup (timerRes m))" using inv t by (auto simp: tm_inv_def)
  ultimately show ?thesis using inv r q by (auto simp: tm_inv_def)
qed

lemma killTimer_ok:
  assumes inv: "tm_inv m xs" and t: "timers m u = Some t" and st: "tstatus t \<noteq> NOTHING"
  shows "\<exists>m'. CTimerManager_killTimer m u = Inr m' \<and> tm_inv m' xs \<and>
     timers m' = (timers m)(u \<mapsto> t\<lparr>tstatus := killed (tstatus t)\<rparr>) \<and>
     queueForAdd m' = queueForAdd m \<and> curTimer m' = curTimer m \<and>
     freeDeque (timerRes m') = freeDeque (timerRes m) @ (if tstatus t = TO_BE_ADD then [u] else [])"
proof -
  have ok: "timer_ok m xs u t" and wf: "pool_wf (timerRes m)" and du: "u \<in> set (unitGroup (timerRes m))"
    using inv t by (auto simp: tm_inv_def)
  then have u0: "u \<noteq> 0" by (auto simp: pool_wf_def)
  note s = CTimerManager_killTimer_def killed_def
  consider (add) "tstatus t = TO_BE_ADD" | (added) "tstatus t = ADDED" | (gone) "tstatus t = TO_BE_DEL \<or> tstatus t = DELETED"
    using st by (cases "tstatus t") auto
  then show ?thesis
  proof cases
    case add
    then have "u \<notin> set (freeDeque (timerRes m))" using ok by (simp add: timer_ok_def)
    from reclaim_result [OF wf du this]
    obtain r where r: "CResource_reclaim (timerRes m) u = Inr (True, r)" "pool_wf r"
      "freeDeque r = freeDeque (timerRes m) @ [u]" "unitGroup r = unitGroup (timerRes m)" by blast
    have "tm_inv (m\<lparr>timers := (timers m)(u \<mapsto> t\<lparr>tstatus := DELETED\<rparr>), timerRes := r, queueForDel := queueForDel m\<rparr>) xs"
      by (rule tm_inv_status [OF inv t r(2,4)]) (use ok add r in \<open>auto simp: timer_ok_def\<close>)
    then show ?thesis using add r t u0 by (simp add: s)
  next
    case added
    have "tm_inv (m\<lparr>timers := (timers m)(u \<mapsto> t\<lparr>tstatus := TO_BE_DEL\<rparr>), timerRes := timerRes m,
        queueForDel := queueForDel m @ [u]\<rparr>) xs"
      by (rule tm_inv_status [OF inv t wf]) (use ok added in \<open>auto simp: timer_ok_def\<close>)
    then show ?thesis using added t u0 by (simp add: s)
  next
    case gone
    then have "killed (tstatus t) = tstatus t" by (auto simp: killed_def)
    then show ?thesis using gone t u0 inv by (auto simp: CTimerManager_killTimer_def fun_upd_idem)
  qed
qed

section \<open>One poll\<close>

text \<open>\<open>fire\<close> with the cursor on \<open>u\<close>: the cursor moves on, and \<open>u\<close> leaves the list or stays.\<close>

definition rearmed :: "timeval \<Rightarrow> TTimer \<Rightarrow> TTimer" where
  "rearmed now t = t\<lparr>baseS := word_of_int (tv_sec now), baseUS := word_of_int (tv_usec now),
     ttimes := (if ttimes t \<noteq> 0 then ttimes t - 1 else ttimes t)\<rparr>"

lemma tm_inv_rearm:
  assumes inv: "tm_inv m xs" and t: "timers m u = Some t"
  shows "tm_inv (m\<lparr>timers := (timers m)(u \<mapsto> rearmed now t)\<rparr>) xs"
proof -
  have "timer_ok m xs u t" using inv t by (simp add: tm_inv_def)
  moreover have "u \<in> set (unitGroup (timerRes m))" using inv t by (auto simp: tm_inv_def)
  moreover have "dseg ((timers m)(u \<mapsto> rearmed now t)) null_v xs null_v"
    using inv t by (simp add: tm_inv_def dseg_upd_same_links rearmed_def)
  ultimately show ?thesis using inv by (auto simp: tm_inv_def timer_ok_def rearmed_def)
qed

lemma fire_waits:
  assumes "tm_inv m (as @ u # bs)" and "curTimer m = u" and "timers m u = Some t"
    and "\<not> timer_due now t"
  shows "CTimerManager_fire onTimer now m w = Inr (m\<lparr>curTimer := headOr bs null_v\<rparr>, w)"
  using assms by (auto simp: CTimerManager_fire_def Let_def tm_inv_def dseg_append)

text \<open>Deleting the timer under the cursor, after the cursor has moved on.\<close>

lemma delTimer_cursor:
  assumes inv: "tm_inv m (as @ u # bs)" and t: "timers m u = Some t"
  shows "\<exists>m'. CTimerManager_delTimer (m\<lparr>curTimer := nextT t\<rparr>) u = Inr m' \<and> tm_inv m' (as @ bs) \<and>
     curTimer m' = headOr bs null_v \<and> queueForAdd m' = queueForAdd m \<and>
     freeDeque (timerRes m') = freeDeque (timerRes m) @ [u] \<and>
     (\<forall>x. status_of m' x = (if x = u then Some DELETED else status_of m x))"
proof -
  have ux: "u \<in> set (as @ u # bs)" by simp
  have "u \<notin> set as" "u \<notin> set bs" using inv by (auto simp: tm_inv_def)
  then have r: "remove1 u (as @ u # bs) = as @ bs" by (simp add: remove1_append)
  have n: "nextT t = headOr bs null_v" using inv t by (auto simp: tm_inv_def dseg_append)
  from delTimer_inv [OF cursor_next(1) [OF inv ux t] ux] cursor_next(2) [OF inv ux t]
  show ?thesis by (auto simp: same_but_links_def r n)
qed

lemma fire_fires:
  assumes inv: "tm_inv m (as @ u # bs)" and cur: "curTimer m = u" and t: "timers m u = Some t"
    and due: "timer_due now t" and cb: "onTimer u (parameterI t) (parameterII t) w = Inr (again, w1)"
  shows "\<exists>m'. CTimerManager_fire onTimer now m w = Inr (m', w1) \<and> curTimer m' = headOr bs null_v \<and>
     (if again \<and> ttimes t \<noteq> 1
      then m' = m\<lparr>timers := (timers m)(u \<mapsto> rearmed now t), curTimer := headOr bs null_v\<rparr> \<and>
           tm_inv m' (as @ u # bs)
      else tm_inv m' (as @ bs) \<and> freeDeque (timerRes m') = freeDeque (timerRes m) @ [u] \<and>
           (\<forall>x. status_of m' x = (if x = u then Some DELETED else status_of m x)))"
proof -
  let ?m = "m\<lparr>timers := (timers m)(u \<mapsto> rearmed now t)\<rparr>"
  have n: "nextT t = headOr bs null_v" using inv t by (auto simp: tm_inv_def dseg_append)
  have ux: "u \<in> set (as @ u # bs)" by simp
  have r: "tm_inv ?m (as @ u # bs)" by (rule tm_inv_rearm [OF inv t])
  have tr: "timers ?m u = Some (rearmed now t)" "nextT (rearmed now t) = nextT t"
    by (simp_all add: rearmed_def)
  have st: "\<And>x. status_of ?m x = status_of m x" using t by (simp add: status_of_def rearmed_def)
  have e: "CTimerManager_fire onTimer now m w =
     (if again then
        if ttimes t = 1 then bindR (CTimerManager_delTimer (?m\<lparr>curTimer := nextT t\<rparr>) u) (\<lambda>m2. Inr (m2, w1))
        else Inr (?m\<lparr>curTimer := nextT t\<rparr>, w1)
      else bindR (CTimerManager_delTimer (m\<lparr>curTimer := nextT t\<rparr>) u) (\<lambda>m2. Inr (m2, w1)))"
    using cur t due cb by (simp add: CTimerManager_fire_def Let_def rearmed_def)
  show ?thesis
  proof (cases "again \<and> ttimes t \<noteq> 1")
    case True
    then show ?thesis using e n cursor_next(1) [OF r ux tr(1)] tr(2) by simp
  next
    case False
    then show ?thesis
      using e n tr(2) delTimer_cursor [OF r tr(1)] delTimer_cursor [OF inv t] st by auto
  qed
qed

lemma poll_at:
  "curTimer m \<noteq> null_v \<Longrightarrow> CTimerManager_poll onTimer now m w = CTimerManager_fire onTimer now m w"
  by (simp add: CTimerManager_poll_def)

text \<open>The timer that the next poll looks at.\<close>

definition cursor :: "timerManager \<Rightarrow> ub8_" where
  "cursor m = (if curTimer m = null_v then timerList m else curTimer m)"

lemma poll_cursor:
  "cursor m \<noteq> null_v \<Longrightarrow> CTimerManager_poll onTimer now m w =
     CTimerManager_fire onTimer now (m\<lparr>curTimer := cursor m\<rparr>) w"
  by (auto simp: cursor_def CTimerManager_poll_def split: if_splits)

lemma cursor_cases:
  assumes inv: "tm_inv m xs"
  obtains (idle) "xs = []" "curTimer m = null_v" "timerList m = null_v"
    | (on) as u bs t where "xs = as @ u # bs" "cursor m = u" "u \<noteq> null_v" "timers m u = Some t"
        "tm_inv (m\<lparr>curTimer := u\<rparr>) (as @ u # bs)"
proof (cases "curTimer m = null_v")
  case True
  show thesis
  proof (cases xs)
    case Nil
    then show thesis using idle True inv by (simp add: tm_inv_def)
  next
    case (Cons u bs)
    have l: "timerList m = u" using inv Cons by (simp add: tm_inv_def)
    have ux: "u \<noteq> null_v" "\<exists>t. timers m u = Some t" using tm_inv_in_list [OF inv] Cons by auto
    have "tm_inv (m\<lparr>curTimer := u\<rparr>) ([] @ u # bs)" using inv Cons by (auto simp: tm_inv_def timer_ok_def)
    then show thesis using on [of "[]" u bs] Cons True l ux by (auto simp: cursor_def)
  qed
next
  case False
  then have u: "curTimer m \<in> set xs" using inv by (auto simp: tm_inv_def)
  then obtain as bs where xs: "xs = as @ curTimer m # bs" by (meson split_list)
  then show thesis using on [OF xs] False inv tm_inv_in_list [OF inv u]
    by (auto simp: cursor_def)
qed

definition callback_returns :: "(ub8_ \<Rightarrow> ub8_ \<Rightarrow> ub8_ \<Rightarrow> 'w \<Rightarrow> (bool \<times> 'w) result) \<Rightarrow> bool" where
  "callback_returns onTimer \<longleftrightarrow> (\<forall>u pI pII w. returns (onTimer u pI pII w))"

lemma callback_returnsE:
  assumes "callback_returns onTimer"
  obtains again w1 where "onTimer u pI pII w = Inr (again, w1)"
  using assms unfolding callback_returns_def returns_iff by (metis surj_pair)

lemma fire_ok:
  assumes inv: "tm_inv m (as @ u # bs)" and cur: "curTimer m = u" and cb: "callback_returns onTimer"
  shows "\<exists>m' w'. CTimerManager_fire onTimer now m w = Inr (m', w') \<and> curTimer m' = headOr bs null_v \<and>
     (tm_inv m' (as @ u # bs) \<and> status_of m' = status_of m \<or>
      tm_inv m' (as @ bs) \<and> status_of m' = (status_of m)(u := Some DELETED))"
proof -
  have ux: "u \<in> set (as @ u # bs)" by simp
  obtain t where t: "timers m u = Some t" using tm_inv_in_list(2) [OF inv ux] by blast
  show ?thesis
  proof (cases "timer_due now t")
    case False
    have "nextT t = headOr bs null_v" using inv t by (auto simp: tm_inv_def dseg_append)
    then show ?thesis using fire_waits [OF inv cur t False, of onTimer w] cursor_next(1) [OF inv ux t] by auto
  next
    case True
    obtain again w1 where "onTimer u (parameterI t) (parameterII t) w = Inr (again, w1)"
      by (rule callback_returnsE [OF cb])
    from fire_fires [where onTimer = onTimer and w = w, OF inv cur t True this]
    obtain m' where m': "CTimerManager_fire onTimer now m w = Inr (m', w1)" "curTimer m' = headOr bs null_v"
      "if again \<and> ttimes t \<noteq> 1
       then m' = m\<lparr>timers := (timers m)(u \<mapsto> rearmed now t), curTimer := headOr bs null_v\<rparr> \<and>
            tm_inv m' (as @ u # bs)
       else tm_inv m' (as @ bs) \<and> freeDeque (timerRes m') = freeDeque (timerRes m) @ [u] \<and>
            (\<forall>x. status_of m' x = (if x = u then Some DELETED else status_of m x))" by blast
    have "status_of (m\<lparr>timers := (timers m)(u \<mapsto> rearmed now t)\<rparr>) = status_of m"
      using t by (auto simp: fun_eq_iff status_of_def rearmed_def)
    then show ?thesis using m' by (cases "again \<and> ttimes t \<noteq> 1") (auto simp: fun_eq_iff)
  qed
qed

text \<open>The cursor goes round: after as many polls as there are timers before it, it is at \<open>u\<close>.\<close>

fun polls ::
  "(ub8_ \<Rightarrow> ub8_ \<Rightarrow> ub8_ \<Rightarrow> 'w \<Rightarrow> (bool \<times> 'w) result) \<Rightarrow> timeval list \<Rightarrow>
   timerManager \<Rightarrow> 'w \<Rightarrow> (timerManager \<times> 'w) result" where
  "polls onTimer [] m w = Inr (m, w)"
| "polls onTimer (now # ts) m w =
     bindR (CTimerManager_poll onTimer now m w) (\<lambda>(m1, w1). polls onTimer ts m1 w1)"

lemma polls_reach:
  assumes "tm_inv m (as @ cs @ u # bs)" and "curTimer m = headOr (cs @ [u]) null_v"
    and "length ts = length cs" and "callback_returns onTimer"
  shows "\<exists>m' w' as'. polls onTimer ts m w = Inr (m', w') \<and> curTimer m' = u \<and> tm_inv m' (as' @ u # bs)"
  using assms
proof (induction cs arbitrary: m w as ts)
  case Nil
  then show ?case by auto
next
  case (Cons c cs)
  obtain now ts' where ts: "ts = now # ts'" "length ts' = length cs" using Cons.prems(3) by (cases ts) auto
  have inv: "tm_inv m (as @ c # cs @ u # bs)" and cur: "curTimer m = c" using Cons.prems by auto
  have "curTimer m \<noteq> null_v" using tm_inv_in_list(1) [OF inv, of c] cur by simp
  moreover from fire_ok [OF inv cur Cons.prems(4), of now w]
  obtain m1 w1 as1 where "CTimerManager_fire onTimer now m w = Inr (m1, w1)"
    "curTimer m1 = headOr (cs @ [u]) null_v" "tm_inv m1 (as1 @ cs @ u # bs)"
    by (metis append.assoc append_Cons append_Nil headOr_append headOr.simps(2))
  moreover from Cons.IH [OF this(3,2) ts(2) Cons.prems(4), of w1]
  obtain m' w' as' where "polls onTimer ts' m1 w1 = Inr (m', w')" "curTimer m' = u" "tm_inv m' (as' @ u # bs)"
    by blast
  ultimately show ?case using ts by (auto simp: poll_at)
qed

lemma poll_ok:
  assumes inv: "tm_inv m xs" and cb: "callback_returns onTimer"
  shows "\<exists>m' w' ys. CTimerManager_poll onTimer now m w = Inr (m', w') \<and> tm_inv m' ys \<and>
     (status_of m' = status_of m \<and> ys = xs \<or>
      status_of m' = (status_of m)(cursor m := Some DELETED) \<and> ys = remove1 (cursor m) xs \<and>
      cursor m \<in> set xs)"
  using inv
proof (cases rule: cursor_cases)
  case idle
  then show ?thesis using inv by (auto simp: CTimerManager_poll_def)
next
  case (on as u bs t)
  have "u \<notin> set as" using on(5) by (auto simp: tm_inv_def)
  then have "remove1 u xs = as @ bs" using on(1) by (simp add: remove1_append)
  then show ?thesis using fire_ok [OF on(5) _ cb, of now w] on poll_cursor [of m onTimer now w] by auto
qed

lemma sync_ok:
  assumes inv: "tm_inv m xs"
  shows "\<exists>m' ys. CTimerManager_sync m = Inr m' \<and>
     tm_inv m' (filter (\<lambda>u. status_of m u \<noteq> Some TO_BE_DEL) xs @ ys) \<and>
     set ys = {u. status_of m u = Some TO_BE_ADD} \<and> queueForAdd m' = [] \<and> queueForDel m' = [] \<and>
     (\<forall>u. status_of m' u = (case status_of m u of Some TO_BE_ADD \<Rightarrow> Some ADDED
        | Some TO_BE_DEL \<Rightarrow> Some DELETED | s \<Rightarrow> s))"
proof -
  obtain m1 ys where m1: "drainAdd m (queueForAdd m) = Inr m1" "tm_inv m1 (xs @ ys)" "queueForAdd m1 = []"
    "set ys = {u. status_of m u = Some TO_BE_ADD}"
    "\<And>u. status_of m1 u = (if u \<in> set ys then Some ADDED else status_of m u)"
    using drainAdd_inv [OF inv refl] by blast
  obtain m2 where m2: "drainDel m1 (queueForDel m1) = Inr m2" "queueForDel m2 = []" "queueForAdd m2 = queueForAdd m1"
    "tm_inv m2 (filter (\<lambda>u. status_of m1 u \<noteq> Some TO_BE_DEL) (xs @ ys))"
    "\<And>u. status_of m2 u = (if status_of m1 u = Some TO_BE_DEL then Some DELETED else status_of m1 u)"
    using drainDel_inv [OF m1(2) refl] by blast
  have "filter (\<lambda>u. status_of m1 u \<noteq> Some TO_BE_DEL) (xs @ ys) =
      filter (\<lambda>u. status_of m u \<noteq> Some TO_BE_DEL) xs @ ys"
    by (auto simp: m1 intro!: filter_cong)
  moreover have "CTimerManager_sync m = Inr m2" using m1(1,3) m2(1) by (simp add: CTimerManager_sync_def)
  ultimately show ?thesis using m1 m2(2-5)
    by (intro exI [of _ m2] exI [of _ ys]) (auto split: option.splits ETimerStatus.splits)
qed

section \<open>When a timer is due\<close>

text \<open>Microseconds since the epoch.\<close>

definition usecs :: "timeval \<Rightarrow> int" where
  "usecs tv = tv_sec tv * 1000000 + tv_usec tv"

definition valid_time :: "timeval \<Rightarrow> bool" where
  "valid_time tv \<longleftrightarrow> 0 \<le> tv_sec tv \<and> 0 \<le> tv_usec tv \<and> tv_usec tv < 1000000"

lemma sint_of_small_int: "0 \<le> i \<Longrightarrow> i < 2 ^ 31 \<Longrightarrow> sint (word_of_int i :: 32 word) = i"
  by (simp add: signed_of_int signed_take_bit_int_eq_self)

lemma timer_due_iff:
  assumes "valid_time start" and "valid_time now" and "tv_sec start + uint (period t) < 2 ^ 31"
    and "baseS t = word_of_int (tv_sec start)" and "baseUS t = word_of_int (tv_usec start)"
  shows "timer_due now t \<longleftrightarrow> usecs start + uint (period t) * 1000000 \<le> usecs now"
proof -
  have "period t + baseS t = word_of_int (uint (period t) + tv_sec start)"
    by (simp add: assms(4))
  moreover have "0 \<le> uint (period t)" by simp
  ultimately have "sint (period t + baseS t) = uint (period t) + tv_sec start"
    using assms(1,3) by (simp add: sint_of_small_int valid_time_def add.commute del: of_int_add)
  moreover have "sint (baseUS t) = tv_usec start"
    using assms by (simp add: sint_of_small_int valid_time_def)
  ultimately show ?thesis using assms(1,2)
    by (auto simp: timer_due_def usecs_def valid_time_def Let_def)
qed

section \<open>The contract of the timer service\<close>

definition tm_ok :: "timerManager \<Rightarrow> bool" where
  "tm_ok m \<longleftrightarrow> (\<exists>xs. tm_inv m xs)"

text \<open>The ids that were handed out at some time, and those whose timer is pending.\<close>

definition issued :: "timerManager \<Rightarrow> ub8_ set" where
  "issued m = {u. \<exists>st. status_of m u = Some st \<and> st \<noteq> NOTHING}"

definition pending :: "timerManager \<Rightarrow> ub8_ set" where
  "pending m = {u. status_of m u = Some TO_BE_ADD \<or> status_of m u = Some ADDED}"

datatype timerOp = SetOp timeval ub4_ ub8_ ub8_ ub4_ | KillOp nat | SyncOp | PollOp timeval

text \<open>
  A run of the service with its clients: every id that \<open>setTimer\<close> returned may be
  killed later, at any time and more than once, and the worker's two steps come
  anywhere in between.
\<close>

fun timer_run ::
  "(timeval \<Rightarrow> 's \<Rightarrow> ub4_ \<Rightarrow> ub8_ \<Rightarrow> ub8_ \<Rightarrow> ub4_ \<Rightarrow> (ub8_ \<times> 's) result) \<Rightarrow>
   ('s \<Rightarrow> ub8_ \<Rightarrow> 's result) \<Rightarrow> ('s \<Rightarrow> 's result) \<Rightarrow>
   (timeval \<Rightarrow> 's \<Rightarrow> 'w \<Rightarrow> ('s \<times> 'w) result) \<Rightarrow>
   's \<Rightarrow> 'w \<Rightarrow> ub8_ list \<Rightarrow> timerOp list \<Rightarrow> ('s \<times> 'w \<times> ub8_ list) result" where
  "timer_run st kl sy po s w ids [] = Inr (s, w, ids)"
| "timer_run st kl sy po s w ids (SetOp now per pI pII n # ops) =
     bindR (st now s per pI pII n) (\<lambda>(u, s1).
       timer_run st kl sy po s1 w (if u = 0 then ids else ids @ [u]) ops)"
| "timer_run st kl sy po s w ids (KillOp i # ops) =
     (if i < length ids then bindR (kl s (ids ! i)) (\<lambda>s1. timer_run st kl sy po s1 w ids ops)
      else timer_run st kl sy po s w ids ops)"
| "timer_run st kl sy po s w ids (SyncOp # ops) =
     bindR (sy s) (\<lambda>s1. timer_run st kl sy po s1 w ids ops)"
| "timer_run st kl sy po s w ids (PollOp now # ops) =
     bindR (po now s w) (\<lambda>(s1, w1). timer_run st kl sy po s1 w1 ids ops)"

locale timer_service =
  fixes ok :: "'s \<Rightarrow> bool" and known :: "'s \<Rightarrow> ub8_ set" and live :: "'s \<Rightarrow> ub8_ set"
    and st :: "timeval \<Rightarrow> 's \<Rightarrow> ub4_ \<Rightarrow> ub8_ \<Rightarrow> ub8_ \<Rightarrow> ub4_ \<Rightarrow> (ub8_ \<times> 's) result"
    and kl :: "'s \<Rightarrow> ub8_ \<Rightarrow> 's result"
    and sy :: "'s \<Rightarrow> 's result"
  assumes set_law: "ok s \<Longrightarrow> \<exists>u s'. st now s per pI pII n = Inr (u, s') \<and> ok s' \<and>
        (u = 0 \<and> s' = s \<or> u \<noteq> 0 \<and> u \<notin> live s \<and> live s' = insert u (live s) \<and> known s' = insert u (known s))"
    and kill_law: "ok s \<Longrightarrow> u \<in> known s \<Longrightarrow>
        \<exists>s'. kl s u = Inr s' \<and> ok s' \<and> live s' = live s - {u} \<and> known s' = known s"
    and sync_law: "ok s \<Longrightarrow> \<exists>s'. sy s = Inr s' \<and> ok s' \<and> live s' = live s \<and> known s' = known s"
begin

lemma run_total:
  assumes poll: "\<And>s w now. ok s \<Longrightarrow> \<exists>s' w'. po now s w = Inr (s', w') \<and> ok s' \<and> known s' = known s"
    and "ok s" and "set ids \<subseteq> known s"
  shows "\<exists>s' w' ids'. timer_run st kl sy po s w ids ops = Inr (s', w', ids') \<and> ok s' \<and>
     set ids' \<subseteq> known s' \<and> (\<exists>more. ids' = ids @ more)"
  using assms(2,3)
proof (induction ops arbitrary: s w ids)
  case Nil
  then show ?case by simp
next
  case (Cons p ops)
  show ?case
  proof (cases p)
    case (SetOp now per pI pII n)
    obtain u s1 where s1: "st now s per pI pII n = Inr (u, s1)" "ok s1"
      "u = 0 \<and> s1 = s \<or> u \<noteq> 0 \<and> known s1 = insert u (known s)"
      using set_law [OF Cons.prems(1)] by blast
    then have "set (if u = 0 then ids else ids @ [u]) \<subseteq> known s1" using Cons.prems by auto
    from Cons.IH [OF s1(2) this, of w] show ?thesis using s1(1) SetOp by (auto split: if_splits)
  next
    case (KillOp i)
    show ?thesis
    proof (cases "i < length ids")
      case True
      then have "ids ! i \<in> known s" using Cons.prems(2) by (auto dest: nth_mem)
      then obtain s1 where "kl s (ids ! i) = Inr s1" "ok s1" "known s1 = known s"
        using kill_law [OF Cons.prems(1)] by blast
      then show ?thesis using Cons.IH [of s1 ids w] Cons.prems(2) KillOp True by auto
    next
      case False
      then show ?thesis using Cons.IH [OF Cons.prems, of w] KillOp by simp
    qed
  next
    case SyncOp
    obtain s1 where "sy s = Inr s1" "ok s1" "known s1 = known s"
      using sync_law [OF Cons.prems(1)] by blast
    then show ?thesis using Cons.IH [of s1 ids w] Cons.prems(2) SyncOp by auto
  next
    case (PollOp now)
    obtain s1 w1 where "po now s w = Inr (s1, w1)" "ok s1" "known s1 = known s"
      using poll [OF Cons.prems(1)] by blast
    then show ?thesis using Cons.IH [of s1 ids w1] Cons.prems(2) PollOp by auto
  qed
qed

end

lemma setTimer_law:
  assumes "tm_ok m"
  shows "\<exists>u m'. CTimerManager_setTimer now m per pI pII n = Inr (u, m') \<and> tm_ok m' \<and>
     (u = 0 \<and> m' = m \<or> u \<noteq> 0 \<and> u \<notin> pending m \<and> pending m' = insert u (pending m) \<and>
      issued m' = insert u (issued m))"
proof -
  obtain xs where inv: "tm_inv m xs" using assms by (auto simp: tm_ok_def)
  show ?thesis
  proof (cases "freeDeque (timerRes m)")
    case Nil
    then show ?thesis using setTimer_none [OF inv] assms by auto
  next
    case (Cons u us)
    obtain m' where m': "CTimerManager_setTimer now m per pI pII n = Inr (u, m')" "u \<noteq> 0" "tm_inv m' xs"
      "timers m' = (timers m)(u \<mapsto> armed now per pI pII n)"
      "status_of m u = Some NOTHING \<or> status_of m u = Some DELETED"
      using setTimer_some [OF inv Cons] by blast
    have "status_of m' = (status_of m)(u \<mapsto> TO_BE_ADD)"
      by (simp add: fun_eq_iff status_of_def m'(4) armed_def)
    then show ?thesis using m' by (auto simp: tm_ok_def pending_def issued_def)
  qed
qed

lemma killTimer_law:
  assumes "tm_ok m" and "u \<in> issued m"
  shows "\<exists>m'. CTimerManager_killTimer m u = Inr m' \<and> tm_ok m' \<and> pending m' = pending m - {u} \<and>
     issued m' = issued m"
proof -
  obtain xs where inv: "tm_inv m xs" using assms by (auto simp: tm_ok_def)
  obtain t where t: "timers m u = Some t" "tstatus t \<noteq> NOTHING" using assms by (auto simp: issued_def status_of_def)
  obtain m' where m': "CTimerManager_killTimer m u = Inr m'" "tm_inv m' xs"
    "timers m' = (timers m)(u \<mapsto> t\<lparr>tstatus := killed (tstatus t)\<rparr>)"
    using killTimer_ok [OF inv t] by blast
  have s: "status_of m' = (status_of m)(u \<mapsto> killed (tstatus t))" "status_of m u = Some (tstatus t)"
    by (simp_all add: fun_eq_iff status_of_def m'(3) t)
  have "killed (tstatus t) \<noteq> NOTHING \<and> killed (tstatus t) \<noteq> TO_BE_ADD \<and> killed (tstatus t) \<noteq> ADDED"
    using t(2) by (cases "tstatus t") (simp_all add: killed_def)
  then show ?thesis using m' s t(2) by (auto simp: tm_ok_def pending_def issued_def)
qed

lemma sync_law_tm:
  assumes "tm_ok m"
  shows "\<exists>m'. CTimerManager_sync m = Inr m' \<and> tm_ok m' \<and> pending m' = pending m \<and> issued m' = issued m"
proof -
  obtain xs where inv: "tm_inv m xs" using assms by (auto simp: tm_ok_def)
  obtain m' ys where m': "CTimerManager_sync m = Inr m'" "tm_inv m' ys"
    "\<And>u. status_of m' u = (case status_of m u of Some TO_BE_ADD \<Rightarrow> Some ADDED
        | Some TO_BE_DEL \<Rightarrow> Some DELETED | s \<Rightarrow> s)"
    using sync_ok [OF inv] by blast
  have "u \<in> pending m' \<longleftrightarrow> u \<in> pending m" "u \<in> issued m' \<longleftrightarrow> u \<in> issued m" for u
    by (auto simp: pending_def issued_def m'(3) split: option.splits ETimerStatus.splits)
  then show ?thesis using m' by (auto simp: tm_ok_def)
qed

lemma poll_law:
  assumes "tm_ok m" and "callback_returns onTimer"
  shows "\<exists>m' w'. CTimerManager_poll onTimer now m w = Inr (m', w') \<and> tm_ok m' \<and>
     pending m' \<subseteq> pending m \<and> issued m' = issued m"
proof -
  obtain xs where inv: "tm_inv m xs" using assms by (auto simp: tm_ok_def)
  have listed: "u \<in> issued m" if "u \<in> set xs" for u
    using inv that tm_inv_in_list(2) [OF inv that]
    by (fastforce simp: tm_inv_def timer_ok_def issued_def status_of_def)
  from poll_ok [OF inv assms(2), of now w]
  obtain m' w' ys where m': "CTimerManager_poll onTimer now m w = Inr (m', w')" "tm_inv m' ys"
    "status_of m' = status_of m \<or> status_of m' = (status_of m)(cursor m \<mapsto> DELETED) \<and> cursor m \<in> set xs"
    by blast
  have "pending m' \<subseteq> pending m \<and> issued m' = issued m"
    using m'(3)
  proof
    assume a: "status_of m' = (status_of m)(cursor m \<mapsto> DELETED) \<and> cursor m \<in> set xs"
    then have "cursor m \<in> issued m" by (intro listed) simp
    then show ?thesis using a by (auto simp: pending_def issued_def)
  qed (simp add: pending_def issued_def)
  then show ?thesis using m' by (auto simp: tm_ok_def)
qed

interpretation tms: timer_service tm_ok issued pending
  CTimerManager_setTimer CTimerManager_killTimer CTimerManager_sync
  by unfold_locales (rule setTimer_law killTimer_law sync_law_tm; assumption)+

lemma working_ok:
  assumes "tm_ok m" and "callback_returns onTimer"
  shows "\<exists>m' w'. CTimerManager_working onTimer now m w = Inr (True, m', w') \<and> tm_ok m' \<and>
     pending m' \<subseteq> pending m \<and> issued m' = issued m"
proof -
  obtain m1 where m1: "CTimerManager_sync m = Inr m1" "tm_ok m1" "pending m1 = pending m" "issued m1 = issued m"
    using sync_law_tm [OF assms(1)] by blast
  obtain m2 w2 where "CTimerManager_poll onTimer now m1 w = Inr (m2, w2)" "tm_ok m2"
    "pending m2 \<subseteq> pending m1" "issued m2 = issued m1"
    using poll_law [OF m1(2) assms(2), of now w] by blast
  then show ?thesis using m1 by (simp add: CTimerManager_working_def)
qed

section \<open>Reachable states\<close>

text \<open>
  The manager as a transition system: calls of any client thread and the two
  halves of the worker's loop, in any order.
\<close>

inductive tm_step :: "(ub8_ \<Rightarrow> ub8_ \<Rightarrow> ub8_ \<Rightarrow> 'w \<Rightarrow> (bool \<times> 'w) result) \<Rightarrow>
    timerManager \<times> 'w \<Rightarrow> timerManager \<times> 'w \<Rightarrow> bool" for onTimer where
  step_set: "CTimerManager_setTimer now m per pI pII n = Inr (u, m') \<Longrightarrow> tm_step onTimer (m, w) (m', w)"
| step_kill: "u \<in> issued m \<Longrightarrow> CTimerManager_killTimer m u = Inr m' \<Longrightarrow> tm_step onTimer (m, w) (m', w)"
| step_sync: "CTimerManager_sync m = Inr m' \<Longrightarrow> tm_step onTimer (m, w) (m', w)"
| step_poll: "CTimerManager_poll onTimer now m w = Inr (m', w') \<Longrightarrow> tm_step onTimer (m, w) (m', w')"

inductive_cases tm_stepE: "tm_step onTimer s s'"

inductive tm_reach :: "(ub8_ \<Rightarrow> ub8_ \<Rightarrow> ub8_ \<Rightarrow> 'w \<Rightarrow> (bool \<times> 'w) result) \<Rightarrow>
    timerManager \<Rightarrow> 'w \<Rightarrow> timerManager \<times> 'w \<Rightarrow> bool" for onTimer m0 w0 where
  reach_start: "tm_reach onTimer m0 w0 (m0, w0)"
| reach_step: "tm_reach onTimer m0 w0 s \<Longrightarrow> tm_step onTimer s s' \<Longrightarrow> tm_reach onTimer m0 w0 s'"

lemma tm_step_ok:
  assumes "tm_step onTimer s s'" and "tm_ok (fst s)" and "callback_returns onTimer"
  shows "tm_ok (fst s') \<and> issued (fst s) \<subseteq> issued (fst s')"
  using assms(1)
proof (rule tm_stepE)
  fix now m per pI pII n u m' w
  assume "s = (m, w)" "s' = (m', w)" "CTimerManager_setTimer now m per pI pII n = Inr (u, m')"
  then show ?thesis using setTimer_law [of m now per pI pII n] assms(2) by auto
next
  fix u m m' w
  assume "s = (m, w)" "s' = (m', w)" "u \<in> issued m" "CTimerManager_killTimer m u = Inr m'"
  then show ?thesis using killTimer_law [of m u] assms(2) by auto
next
  fix m m' w
  assume "s = (m, w)" "s' = (m', w)" "CTimerManager_sync m = Inr m'"
  then show ?thesis using sync_law_tm [of m] assms(2) by auto
next
  fix now m w m' w'
  assume "s = (m, w)" "s' = (m', w')" "CTimerManager_poll onTimer now m w = Inr (m', w')"
  then show ?thesis using poll_law [of m onTimer now w] assms(2,3) by auto
qed

lemma tm_reach_ok:
  "tm_reach onTimer m0 w0 s \<Longrightarrow> tm_ok m0 \<Longrightarrow> callback_returns onTimer \<Longrightarrow>
   tm_ok (fst s) \<and> issued m0 \<subseteq> issued (fst s)"
  by (induction rule: tm_reach.induct) (use tm_step_ok in fastforce)+

section \<open>Callbacks that may fault\<close>

text \<open>A callback that stands for \<open>f\<close> where \<open>f\<close> returns, and returns where \<open>f\<close> does not.\<close>

definition total_cb :: "(ub8_ \<Rightarrow> ub8_ \<Rightarrow> ub8_ \<Rightarrow> 'w \<Rightarrow> (bool \<times> 'w) result) \<Rightarrow>
    ub8_ \<Rightarrow> ub8_ \<Rightarrow> ub8_ \<Rightarrow> 'w \<Rightarrow> (bool \<times> 'w) result" where
  "total_cb f u pI pII w = (case f u pI pII w of Inl _ \<Rightarrow> Inr (True, w) | Inr r \<Rightarrow> Inr r)"

lemma total_cb_returns: "callback_returns (total_cb f)"
  by (auto simp: callback_returns_def total_cb_def split: sum.splits)

lemma fire_total_cb:
  "CTimerManager_fire f now m w = Inr r \<Longrightarrow> CTimerManager_fire (total_cb f) now m w = Inr r"
  by (auto simp: CTimerManager_fire_def getT_def total_cb_def Let_def bindR_def split: option.splits sum.splits if_splits)

lemma poll_total_cb:
  "CTimerManager_poll f now m w = Inr r \<Longrightarrow> CTimerManager_poll (total_cb f) now m w = Inr r"
  by (auto simp: CTimerManager_poll_def fire_total_cb split: if_splits)

lemma fire_world:
  "CTimerManager_fire f now m w = Inr (m', w') \<Longrightarrow> w' = w \<or> (\<exists>u pI pII again. f u pI pII w = Inr (again, w'))"
  by (auto simp: CTimerManager_fire_def getT_def Let_def bindR_def split: option.splits sum.splits if_splits)

lemma poll_world:
  "CTimerManager_poll f now m w = Inr (m', w') \<Longrightarrow> w' = w \<or> (\<exists>u pI pII again. f u pI pII w = Inr (again, w'))"
  by (auto simp: CTimerManager_poll_def dest: fire_world split: if_splits)

lemma working_partial:
  assumes ok: "tm_ok m" and run: "CTimerManager_working f now m w = Inr (go, m', w')"
  shows "tm_ok m' \<and> issued m' = issued m \<and> (w' = w \<or> (\<exists>u pI pII again. f u pI pII w = Inr (again, w')))"
proof -
  obtain m1 where m1: "CTimerManager_sync m = Inr m1" "tm_ok m1" "issued m1 = issued m"
    using sync_law_tm [OF ok] by blast
  have p: "CTimerManager_poll f now m1 w = Inr (m', w')"
    using run m1 by (auto simp: CTimerManager_working_def bindR_def split: sum.splits)
  then show ?thesis
    using poll_law [OF m1(2) total_cb_returns, of f now w] poll_total_cb [OF p] poll_world [OF p] m1(3) by auto
qed

end
