(* ===== verification/Server_State.thy ===== *)
theory Server_State
  imports Config Message Loop_Buffer Resource_Pool Timer_Manager
begin

text \<open>
  The state of the running server: the nodes (CNode with its embedded CTransaction), the
  node groups, the timer manager and registry of CTransactionManager, the pool, queue and
  cursor of CTrafficManager, and what the kernel and the Redis server hold for the process.
  Handlers are functions of this state that return a value and the next state, or a fault;
  \<open>bindM\<close> sequences them, and \<open>wp\<close> is the calculus in which their effects are computed.

  A CTransaction is a member of its CNode, so the address of the node names both.  A
  CNodeGroup is named by its index in \<open>_groups\<close>.
\<close>

section \<open>Objects\<close>

datatype ETransactionStatus = FREE | CONNECTED | READY | OVER

definition status_code :: "ETransactionStatus \<Rightarrow> ub8_" where
  "status_code s = (case s of FREE \<Rightarrow> 0 | CONNECTED \<Rightarrow> 1 | READY \<Rightarrow> 2 | OVER \<Rightarrow> 3)"

datatype ETransactionExitReason =
  WRONG_STATUS | CLIENT_TOO_OLD | TIME_OUT | UNKNOWN_MESSAGE | NO_THE_SESSION_FOUND |
  SAME_SESSION_ID | CONNECTION_BROKEN | CONNECTION_ERROR | CANNOT_RECV_DATA |
  NO_DESTINATION_FOUND | NO_MORE_TIMER | NO_MORE_QUEUE_SPACE

definition reason_code :: "ETransactionExitReason \<Rightarrow> 'a::len word" where
  "reason_code r =
     (case r of WRONG_STATUS \<Rightarrow> 1 | CLIENT_TOO_OLD \<Rightarrow> 2 | TIME_OUT \<Rightarrow> 3 | UNKNOWN_MESSAGE \<Rightarrow> 4
      | NO_THE_SESSION_FOUND \<Rightarrow> 5 | SAME_SESSION_ID \<Rightarrow> 6 | CONNECTION_BROKEN \<Rightarrow> 7
      | CONNECTION_ERROR \<Rightarrow> 8 | CANNOT_RECV_DATA \<Rightarrow> 9 | NO_DESTINATION_FOUND \<Rightarrow> 10
      | NO_MORE_TIMER \<Rightarrow> 11 | NO_MORE_QUEUE_SPACE \<Rightarrow> 12)"

record transaction =
  t_status :: ETransactionStatus
  t_build :: ub4_
  t_lastUpdate :: ub8_
  t_sessionId :: "ub1_ list"
  t_id :: ub8_
  t_keepLiveTimerId :: ub8_
  t_heartbeat :: bool
  t_seqCounter :: ub4_
  t_mapSeq2Timer :: "(ub4_ \<times> ub8_) list"

definition CTransaction_new :: transaction where
  "CTransaction_new =
     \<lparr>t_status = FREE, t_build = 0, t_lastUpdate = 0, t_sessionId = zeros Size_SESSION_ID, t_id = 0,
      t_keepLiveTimerId = 0, t_heartbeat = False, t_seqCounter = 0, t_mapSeq2Timer = []\<rparr>"

record node =
  n_ip :: "ub1_ list"
  n_port :: ub2_
  n_fd :: b4_
  n_transaction :: transaction
  n_group :: "nat option"
  n_recvOffset :: ub2_
  n_recvDueSize :: ub2_
  n_recvBuffer :: "ub1_ list"

text \<open>\<open>_recvBuffer\<close> is not initialised; \<open>mem\<close> is what it happens to hold.\<close>

definition CNode_new :: "ub1_ list \<Rightarrow> node" where
  "CNode_new mem =
     \<lparr>n_ip = zeros Size_IP_V4, n_port = 0, n_fd = 0, n_transaction = CTransaction_new,
      n_group = None, n_recvOffset = 0, n_recvDueSize = 0, n_recvBuffer = mem\<rparr>"

text \<open>
  \<open>_context\<close> is known by whether it is null.  The list iterator \<open>_pos\<close> is the node it
  points to, or \<open>None\<close> for \<open>end()\<close>.
\<close>

record group =
  g_queue :: loopBuffer
  g_buffer :: "ub1_ list"
  g_context :: bool
  g_container :: "ub8_ list"
  g_pos :: "ub8_ option"

section \<open>The outside world\<close>

datatype errno = EAGAIN | EBADF | EFAULT | EFBIG | EINTR | EINVAL | EIO | EISDIR | ENOSPC | EPIPE | OtherErrno

text \<open>
  What a socket will report, in order: bytes that arrived (no bytes: end of file), an
  error, and \<open>EAGAIN\<close> once nothing is left; for writes, how many bytes the kernel takes
  next or an error, and everything once the list is empty.
\<close>

datatype recvEvent = Arrived "ub1_ list" | RecvErr errno

datatype sendEvent = Accepts nat | SendErr errno

text \<open>
  What the listening socket will report (nothing more: \<open>EAGAIN\<close>): a connection with its
  peer's address as \<open>inet_ntoa\<close> prints it, its port and its descriptor, or an error.
\<close>

datatype acceptEvent = Incoming "ub1_ list" ub2_ b4_ | AcceptErr

datatype ioResult = Got "ub1_ list" | Failed errno

text \<open>Replies and connection results of the hiredis client library.\<close>

datatype reply = R_Error | R_Nil | R_Status | R_String "ub1_ list" | R_Integer int | R_Array "reply list"

datatype connectResult = NoContext | ContextErr | ContextOk

type_synonym command = "ub1_ list list"

text \<open>
  The hiredis library and the Redis server behind it are parameters: what connecting and
  running a command on the connection of a group return, and how they change the server's
  state \<open>'r\<close>.  A command that returns \<open>None\<close> is a null reply.
\<close>

record 'r hiredis =
  h_connect :: "nat \<Rightarrow> 'r \<Rightarrow> connectResult \<times> 'r"
  h_free :: "nat \<Rightarrow> 'r \<Rightarrow> 'r"
  h_command :: "nat \<Rightarrow> command \<Rightarrow> 'r \<Rightarrow> reply option \<times> 'r"

text \<open>
  \<open>e_depth\<close> is how deep \<open>connect\<close> may recurse before the thread's stack is exhausted;
  \<open>e_junk\<close> is the content of an uninitialised 64-bit stack slot.
\<close>

record 'r env =
  e_cfg :: config
  e_api :: "'r hiredis"
  e_depth :: nat
  e_junk :: ub8_

record 'r world =
  w_nodes :: "ub8_ \<rightharpoonup> node"
  w_groups :: "group list"
  w_timers :: timerManager
  w_registry :: "ub8_ list"
  w_res :: resource
  w_nodeQueue :: "ub8_ list"
  w_curGroupIndex :: ub4_
  w_running :: bool
  w_listenFd :: b4_
  w_epollFd :: b4_
  w_clock :: "nat \<Rightarrow> timeval"
  w_ticks :: nat
  w_in :: "b4_ \<Rightarrow> recvEvent list"
  w_out :: "b4_ \<Rightarrow> sendEvent list"
  w_wire :: "b4_ \<Rightarrow> ub1_ list"
  w_accepts :: "acceptEvent list"
  w_epollCtl :: "bool list"
  w_closed :: "b4_ list"
  w_redis :: 'r

section \<open>Effects\<close>

type_synonym ('r, 'a) handler = "'r world \<Rightarrow> ('a \<times> 'r world) result"

definition retM :: "'a \<Rightarrow> ('r, 'a) handler" where
  "retM x = (\<lambda>w. Inr (x, w))"

definition bindM :: "('r, 'a) handler \<Rightarrow> ('a \<Rightarrow> ('r, 'b) handler) \<Rightarrow> ('r, 'b) handler" where
  "bindM m f = (\<lambda>w. bindR (m w) (\<lambda>(x, w1). f x w1))"

definition thenM :: "('r, 'a) handler \<Rightarrow> ('r, 'b) handler \<Rightarrow> ('r, 'b) handler" where
  "thenM m k = bindM m (\<lambda>_. k)"

definition failM :: "fault \<Rightarrow> ('r, 'a) handler" where
  "failM e = (\<lambda>_. Inl e)"

definition assertM :: "bool \<Rightarrow> ('r, unit) handler" where
  "assertM b = (if b then retM () else failM AssertFail)"

definition liftR :: "'a result \<Rightarrow> ('r, 'a) handler" where
  "liftR r = (\<lambda>w. bindR r (\<lambda>x. Inr (x, w)))"

definition getsM :: "('r world \<Rightarrow> 'a) \<Rightarrow> ('r, 'a) handler" where
  "getsM f = (\<lambda>w. Inr (f w, w))"

definition updM :: "('r world \<Rightarrow> 'r world) \<Rightarrow> ('r, unit) handler" where
  "updM f = (\<lambda>w. Inr ((), f w))"

text \<open>
  \<open>wp F m Q w\<close>: from \<open>w\<close> the handler \<open>m\<close> returns with a result and a state that
  satisfy \<open>Q\<close>, or stops with a fault that \<open>F\<close> allows.
\<close>

definition wp :: "(fault \<Rightarrow> bool) \<Rightarrow> ('r, 'a) handler \<Rightarrow> ('a \<Rightarrow> 'r world \<Rightarrow> bool) \<Rightarrow> 'r world \<Rightarrow> bool" where
  "wp F m Q w = (case m w of Inl e \<Rightarrow> F e | Inr (x, w1) \<Rightarrow> Q x w1)"

named_theorems wp_simps \<open>weakest preconditions of the primitive effects\<close>

lemma wp_retM [wp_simps]: "wp F (retM x) Q = Q x"
  by (simp add: wp_def retM_def fun_eq_iff)

lemma wp_bindM [wp_simps]: "wp F (bindM m f) Q = wp F m (\<lambda>x. wp F (f x) Q)"
  by (auto simp: wp_def bindM_def bindR_def fun_eq_iff split: sum.splits)

lemma wp_thenM [wp_simps]: "wp F (thenM m k) Q = wp F m (\<lambda>_. wp F k Q)"
  by (simp add: thenM_def wp_bindM)

lemma wp_failM [wp_simps]: "wp F (failM e) Q w = F e"
  by (simp add: wp_def failM_def)

lemma wp_assertM [wp_simps]: "wp F (assertM b) Q w = (if b then Q () w else F AssertFail)"
  by (simp add: assertM_def wp_retM wp_failM)

lemma wp_liftR [wp_simps]: "wp F (liftR r) Q w = (case r of Inl e \<Rightarrow> F e | Inr x \<Rightarrow> Q x w)"
  by (auto simp: wp_def liftR_def bindR_def split: sum.splits)

lemma wp_getsM [wp_simps]: "wp F (getsM f) Q w = Q (f w) w"
  by (simp add: wp_def getsM_def)

lemma wp_updM [wp_simps]: "wp F (updM f) Q w = Q () (f w)"
  by (simp add: wp_def updM_def)

lemma wp_if [wp_simps]: "wp F (if b then m else k) Q = (if b then wp F m Q else wp F k Q)"
  by simp

lemma wp_mono:
  "wp F m Q w \<Longrightarrow> (\<And>x w1. m w = Inr (x, w1) \<Longrightarrow> Q x w1 \<Longrightarrow> R x w1) \<Longrightarrow> wp F m R w"
  by (auto simp: wp_def split: sum.splits)

lemma wp_total_iff: "wp (\<lambda>_. False) m Q w \<longleftrightarrow> (\<exists>x w1. m w = Inr (x, w1) \<and> Q x w1)"
  by (auto simp: wp_def split: sum.splits)

lemma wp_partial_iff: "wp (\<lambda>_. True) m Q w \<longleftrightarrow> (\<forall>x w1. m w = Inr (x, w1) \<longrightarrow> Q x w1)"
  by (auto simp: wp_def split: sum.splits)

section \<open>Access to the objects\<close>

definition getNode :: "ub8_ \<Rightarrow> ('r, node) handler" where
  "getNode p = (\<lambda>w. case w_nodes w p of None \<Rightarrow> Inl NullDeref | Some n \<Rightarrow> Inr (n, w))"

definition updNode :: "ub8_ \<Rightarrow> (node \<Rightarrow> node) \<Rightarrow> ('r, unit) handler" where
  "updNode p f = bindM (getNode p) (\<lambda>n. updM (\<lambda>w. w\<lparr>w_nodes := (w_nodes w)(p \<mapsto> f n)\<rparr>))"

definition getTx :: "ub8_ \<Rightarrow> ('r, transaction) handler" where
  "getTx p = bindM (getNode p) (\<lambda>n. retM (n_transaction n))"

definition updTx :: "ub8_ \<Rightarrow> (transaction \<Rightarrow> transaction) \<Rightarrow> ('r, unit) handler" where
  "updTx p f = updNode p (\<lambda>n. n\<lparr>n_transaction := f (n_transaction n)\<rparr>)"

text \<open>\<open>getGroup()\<close> of a node and a use of the pointer it returns.\<close>

definition groupOf :: "ub8_ \<Rightarrow> ('r, nat) handler" where
  "groupOf p = bindM (getNode p) (\<lambda>n. case n_group n of None \<Rightarrow> failM NullDeref | Some g \<Rightarrow> retM g)"

definition getGroup :: "nat \<Rightarrow> ('r, group) handler" where
  "getGroup g = (\<lambda>w. if g < length (w_groups w) then Inr (w_groups w ! g, w) else Inl OutOfBounds)"

definition updGroup :: "nat \<Rightarrow> (group \<Rightarrow> group) \<Rightarrow> ('r, unit) handler" where
  "updGroup g f = bindM (getGroup g) (\<lambda>x. updM (\<lambda>w. w\<lparr>w_groups := (w_groups w)[g := f x]\<rparr>))"

lemma wp_getNode [wp_simps]:
  "wp F (getNode p) Q w = (case w_nodes w p of None \<Rightarrow> F NullDeref | Some n \<Rightarrow> Q n w)"
  by (simp add: wp_def getNode_def split: option.splits)

lemma wp_updNode [wp_simps]:
  "wp F (updNode p f) Q w =
     (case w_nodes w p of None \<Rightarrow> F NullDeref
      | Some n \<Rightarrow> Q () (w\<lparr>w_nodes := (w_nodes w)(p \<mapsto> f n)\<rparr>))"
  by (simp add: updNode_def wp_simps split: option.splits)

lemma wp_getTx [wp_simps]:
  "wp F (getTx p) Q w = (case w_nodes w p of None \<Rightarrow> F NullDeref | Some n \<Rightarrow> Q (n_transaction n) w)"
  by (simp add: getTx_def wp_simps split: option.splits)

lemma wp_updTx [wp_simps]:
  "wp F (updTx p f) Q w =
     (case w_nodes w p of None \<Rightarrow> F NullDeref
      | Some n \<Rightarrow> Q () (w\<lparr>w_nodes := (w_nodes w)(p \<mapsto> n\<lparr>n_transaction := f (n_transaction n)\<rparr>)\<rparr>))"
  by (simp add: updTx_def wp_simps)

lemma wp_groupOf [wp_simps]:
  "wp F (groupOf p) Q w =
     (case w_nodes w p of None \<Rightarrow> F NullDeref
      | Some n \<Rightarrow> (case n_group n of None \<Rightarrow> F NullDeref | Some g \<Rightarrow> Q g w))"
  by (auto simp: groupOf_def wp_simps split: option.splits)

lemma wp_getGroup [wp_simps]:
  "wp F (getGroup g) Q w = (if g < length (w_groups w) then Q (w_groups w ! g) w else F OutOfBounds)"
  by (simp add: wp_def getGroup_def)

lemma wp_updGroup [wp_simps]:
  "wp F (updGroup g f) Q w =
     (if g < length (w_groups w) then Q () (w\<lparr>w_groups := (w_groups w)[g := f (w_groups w ! g)]\<rparr>)
      else F OutOfBounds)"
  by (simp add: updGroup_def wp_simps)

section \<open>System calls\<close>

definition gettimeofday :: "('r, timeval) handler" where
  "gettimeofday = bindM (getsM (\<lambda>w. w_clock w (w_ticks w)))
     (\<lambda>tv. thenM (updM (\<lambda>w. w\<lparr>w_ticks := Suc (w_ticks w)\<rparr>)) (retM tv))"

text \<open>\<open>gettimeofday\<close> returns zero always: POSIX reserves no value for an error, so that \<open>now\<close> never returns early with zero.\<close>

definition CBase_now :: "('r, ub8_) handler" where
  "CBase_now = bindM gettimeofday (\<lambda>tv. retM (word_of_int (tv_sec tv * 1000000 + tv_usec tv)))"

lemma wp_gettimeofday [wp_simps]:
  "wp F gettimeofday Q w = Q (w_clock w (w_ticks w)) (w\<lparr>w_ticks := Suc (w_ticks w)\<rparr>)"
  by (simp add: gettimeofday_def wp_simps)

lemma wp_CBase_now [wp_simps]:
  "wp F CBase_now Q w =
     Q (word_of_int (tv_sec (w_clock w (w_ticks w)) * 1000000 + tv_usec (w_clock w (w_ticks w))))
       (w\<lparr>w_ticks := Suc (w_ticks w)\<rparr>)"
  by (simp add: CBase_now_def wp_simps)

text \<open>\<open>read(fd, buffer, count)\<close> on a non-blocking socket.\<close>

definition sysRead :: "b4_ \<Rightarrow> nat \<Rightarrow> ('r, ioResult) handler" where
  "sysRead fd count = (\<lambda>w.
     if count = 0 then Inr (Got [], w)
     else case w_in w fd of
       [] \<Rightarrow> Inr (Failed EAGAIN, w)
     | RecvErr e # rest \<Rightarrow> Inr (Failed e, w\<lparr>w_in := (w_in w)(fd := rest)\<rparr>)
     | Arrived bs # rest \<Rightarrow>
         Inr (Got (take count bs),
              if bs = [] then w
              else w\<lparr>w_in := (w_in w)(fd := (if length bs \<le> count then rest
                                            else Arrived (drop count bs) # rest))\<rparr>))"

text \<open>\<open>close\<close>, and whether an \<open>epoll_ctl\<close> call succeeds (it does once the list is empty).\<close>

definition sysClose :: "b4_ \<Rightarrow> ('r, unit) handler" where
  "sysClose fd = updM (\<lambda>w. w\<lparr>w_closed := w_closed w @ [fd]\<rparr>)"

definition epollCtl :: "('r, bool) handler" where
  "epollCtl = (\<lambda>w. case w_epollCtl w of
     [] \<Rightarrow> Inr (True, w) | ok # rest \<Rightarrow> Inr (ok, w\<lparr>w_epollCtl := rest\<rparr>))"

text \<open>The calls of the timer manager and of the Redis library, on the server's state.\<close>

definition setTimerM :: "ub4_ \<Rightarrow> ub8_ \<Rightarrow> ub8_ \<Rightarrow> ub4_ \<Rightarrow> ('r, ub8_) handler" where
  "setTimerM per pI pII n = (\<lambda>w.
     bindR (CTimerManager_setTimer (w_clock w (w_ticks w)) (w_timers w) per pI pII n)
       (\<lambda>(u, m). Inr (u, w\<lparr>w_timers := m, w_ticks := (if u = 0 then w_ticks w else Suc (w_ticks w))\<rparr>)))"

definition killTimerM :: "ub8_ \<Rightarrow> ('r, unit) handler" where
  "killTimerM u = (\<lambda>w. bindR (CTimerManager_killTimer (w_timers w) u)
     (\<lambda>m. Inr ((), w\<lparr>w_timers := m\<rparr>)))"

definition redisCommand :: "'r env \<Rightarrow> nat \<Rightarrow> command \<Rightarrow> ('r, reply option) handler" where
  "redisCommand e g args = (\<lambda>w.
     let (r, s) = h_command (e_api e) g args (w_redis w) in Inr (r, w\<lparr>w_redis := s\<rparr>))"

lemma wp_redisCommand [wp_simps]:
  "wp F (redisCommand e g args) Q w =
     Q (fst (h_command (e_api e) g args (w_redis w)))
       (w\<lparr>w_redis := snd (h_command (e_api e) g args (w_redis w))\<rparr>)"
  by (simp add: wp_def redisCommand_def split: prod.splits)

text \<open>A handler run for every element of a list, in order.\<close>

fun forM :: "'a list \<Rightarrow> ('a \<Rightarrow> ('r, unit) handler) \<Rightarrow> ('r, unit) handler" where
  "forM [] f = retM ()"
| "forM (x # xs) f = thenM (f x) (forM xs f)"

end
