(* ===== verification/Node.thy ===== *)
theory Node
  imports Server_State
begin

text \<open>
  The input and output of a connection: \<open>CNode::recv\<close> and \<open>CNode::send\<close> of
  src/src/traffic/CNode.cpp and \<open>CNodeGroup::putMessage\<close> of CNodeGroup.cpp, the queue
  that \<open>recv\<close> feeds.  Overwriting a field of a message through a \<open>TMsg*\<close> is \<open>patchHeader\<close>
  on its bytes.
\<close>

section \<open>Message queue of a group\<close>

definition patchHeader :: "(THeader \<Rightarrow> THeader) \<Rightarrow> ub1_ list \<Rightarrow> ub1_ list" where
  "patchHeader f bs = THeader_bytes (f (THeader_at bs)) @ drop sizeof_THeader bs"

lemma length_patchHeader [simp]:
  "sizeof_THeader \<le> length bs \<Longrightarrow> length (patchHeader f bs) = length bs"
  by (simp add: patchHeader_def)

lemma THeader_at_patchHeader [simp]: "THeader_at (patchHeader f bs) = f (THeader_at bs)"
  by (simp add: patchHeader_def THeader_at_bytes)

definition CNodeGroup_putMessage :: "nat \<Rightarrow> ub1_ list \<Rightarrow> ('r, bool) handler" where
  "CNodeGroup_putMessage g msg =
     bindM (getGroup g) (\<lambda>x.
     bindM (liftR (CLoopBuffer_write (g_queue x) msg (ucast (hd_size (THeader_at msg))))) (\<lambda>(ok, q).
     thenM (updGroup g (\<lambda>x. x\<lparr>g_queue := q\<rparr>)) (retM ok)))"

section \<open>Receiving\<close>

text \<open>\<open>_handleRecvErrors\<close>: the errors it names are logged, any other fails the assertion.\<close>

definition CNode_handleRecvErrors :: "errno \<Rightarrow> ('r, unit) handler" where
  "CNode_handleRecvErrors err =
     assertM (err \<in> {EBADF, EFAULT, EINTR, EINVAL, EIO, EISDIR})"

text \<open>
  How many bytes the next \<open>read\<close> asks for.  The difference is computed as an \<open>int\<close> and passed
  as a \<open>size_t\<close>, so a negative one is a huge count.
\<close>

definition recvCount :: "node \<Rightarrow> nat" where
  "recvCount n =
     (if n_recvDueSize n = 0 then unat (of_nat sizeof_THeader - ucast (n_recvOffset n) :: ub8_)
      else unat (ucast (n_recvDueSize n) - ucast (n_recvOffset n) :: ub8_))"

text \<open>The part of the loop body after a \<open>read\<close> that returned bytes; the result says whether to go on.\<close>

definition recvDeliver :: "ub8_ \<Rightarrow> ('r, bool) handler" where
  "recvDeliver p =
     thenM (updNode p (\<lambda>n. n\<lparr>n_recvBuffer := patchHeader (\<lambda>h. h\<lparr>hd_ext := p\<rparr>) (n_recvBuffer n)\<rparr>))
     (bindM (getNode p) (\<lambda>n.
      bindM (groupOf p) (\<lambda>g.
      bindM (CNodeGroup_putMessage g (n_recvBuffer n)) (\<lambda>ok.
        if \<not> ok then retM False
        else thenM (updNode p (\<lambda>n. n\<lparr>n_recvOffset := 0, n_recvDueSize := 0\<rparr>)) (retM True)))))"

definition recvBytes :: "ub8_ \<Rightarrow> ub1_ list \<Rightarrow> ('r, bool) handler" where
  "recvBytes p bs =
     bindM (getNode p) (\<lambda>n.
     bindM (liftR (memcpy (n_recvBuffer n) (unat (n_recvOffset n)) bs 0 (length bs))) (\<lambda>b.
       let off = n_recvOffset n + of_nat (length bs); n1 = n\<lparr>n_recvBuffer := b, n_recvOffset := off\<rparr> in
       if n_recvDueSize n = 0 then
         (if off = of_nat sizeof_THeader then
            (let due = le_word (segment 0 2 b) in
             thenM (updNode p (\<lambda>_. n1\<lparr>n_recvDueSize := due\<rparr>))
               (if due = of_nat sizeof_THeader then recvDeliver p else retM True))
          else thenM (updNode p (\<lambda>_. n1)) (retM True))
       else
         thenM (updNode p (\<lambda>_. n1)) (if n_recvDueSize n = off then recvDeliver p else retM True)))"

text \<open>
  The loop.  Every iteration but the last takes at least one byte of what has arrived, so
  the number of those bytes bounds the iterations; the fuel is that bound.
\<close>

fun recvLoop :: "nat \<Rightarrow> ub8_ \<Rightarrow> ('r, bool) handler" where
  "recvLoop 0 p = failM StackOverflow"
| "recvLoop (Suc k) p =
     bindM (getNode p) (\<lambda>n.
     bindM (sysRead (n_fd n) (recvCount n)) (\<lambda>r.
       case r of
         Got bs \<Rightarrow>
           if bs = [] then retM False
           else bindM (recvBytes p bs) (\<lambda>go. if go then recvLoop k p else retM False)
       | Failed err \<Rightarrow>
           if err = EAGAIN then retM True
           else thenM (CNode_handleRecvErrors err) (retM False)))"

fun arrivedBytes :: "recvEvent list \<Rightarrow> nat" where
  "arrivedBytes [] = 0"
| "arrivedBytes (Arrived bs # evs) = length bs + arrivedBytes evs"
| "arrivedBytes (RecvErr _ # evs) = arrivedBytes evs"

definition CNode_recv :: "ub8_ \<Rightarrow> ('r, bool) handler" where
  "CNode_recv p =
     bindM (getNode p) (\<lambda>n.
     bindM (getsM (\<lambda>w. arrivedBytes (w_in w (n_fd n)))) (\<lambda>k. recvLoop (Suc k) p))"

section \<open>Sending\<close>

text \<open>
  The loop of \<open>send\<close> over what the kernel will do with the writes: the result, the bytes
  that went out, and what the kernel has left to report.
\<close>

fun sendLoop :: "sendEvent list \<Rightarrow> ub1_ list \<Rightarrow> (bool \<times> ub1_ list \<times> sendEvent list) result" where
  "sendLoop [] buf = Inr (buf \<noteq> [], buf, [])"
| "sendLoop (Accepts k # evs) buf =
     (if take k buf = [] then Inr (False, [], evs)
      else if drop k buf = [] then Inr (True, take k buf, evs)
      else bindR (sendLoop evs (drop k buf)) (\<lambda>(ok, out, evs1). Inr (ok, take k buf @ out, evs1)))"
| "sendLoop (SendErr err # evs) buf =
     (if err = EAGAIN then (if buf = [] then Inr (True, [], evs) else sendLoop evs buf)
      else if err \<in> {EBADF, EFAULT, EFBIG, EINTR, EINVAL, EIO, ENOSPC, EPIPE} then Inr (False, [], evs)
      else Inl AssertFail)"

definition CNode_send :: "ub8_ \<Rightarrow> ub1_ list \<Rightarrow> ('r, bool) handler" where
  "CNode_send p msg =
     (let msg1 = patchHeader (\<lambda>h. h\<lparr>hd_ext := 0\<rparr>) msg; len = unat (hd_size (THeader_at msg1)) in
      bindM (getNode p) (\<lambda>n. \<lambda>w.
        if length msg1 < len then Inl OutOfBounds
        else bindR (sendLoop (w_out w (n_fd n)) (take len msg1)) (\<lambda>(ok, out, evs).
          Inr (ok, w\<lparr>w_out := (w_out w)(n_fd n := evs),
                     w_wire := (w_wire w)(n_fd n := w_wire w (n_fd n) @ out)\<rparr>))))"

end
