(* ===== verification/Redis_Operator.thy ===== *)
theory Redis_Operator
  imports Server_State
begin

text \<open>
  The client of the Redis server, src/src/database/CRedisOperator.cpp, one per node group.
  A command is the list of its arguments, as hiredis splits and expands the format string;
  the replies come from the parameter \<open>e_api\<close>.  \<open>connect\<close> and \<open>_errorHandler\<close> call each
  other: the number of nested calls that the thread's stack holds is \<open>e_depth\<close>, and using it
  up is the fault \<open>StackOverflow\<close>.  Freeing replies has no effect on the state and is left out.
\<close>

section \<open>Connection\<close>

definition setContext :: "nat \<Rightarrow> bool \<Rightarrow> ('r, unit) handler" where
  "setContext g b = updGroup g (\<lambda>x. x\<lparr>g_context := b\<rparr>)"

definition freeContext :: "'r env \<Rightarrow> nat \<Rightarrow> ('r, unit) handler" where
  "freeContext e g = updM (\<lambda>w. w\<lparr>w_redis := h_free (e_api e) g (w_redis w)\<rparr>)"

definition redisConnect :: "'r env \<Rightarrow> nat \<Rightarrow> ('r, connectResult) handler" where
  "redisConnect e g = (\<lambda>w.
     let (r, s) = h_connect (e_api e) g (w_redis w) in Inr (r, w\<lparr>w_redis := s\<rparr>))"

lemma wp_redisConnect [wp_simps]:
  "wp F (redisConnect e g) Q w =
     Q (fst (h_connect (e_api e) g (w_redis w)))
       (w\<lparr>w_redis := snd (h_connect (e_api e) g (w_redis w))\<rparr>)"
  by (simp add: wp_def redisConnect_def split: prod.splits)

lemma wp_freeContext [wp_simps]:
  "wp F (freeContext e g) Q w = Q () (w\<lparr>w_redis := h_free (e_api e) g (w_redis w)\<rparr>)"
  by (simp add: freeContext_def wp_simps)

text \<open>\<open>_errorHandler\<close>, given what its call of \<open>connect\<close> does.\<close>

definition errorHandler ::
  "('r, bool) handler \<Rightarrow> nat \<Rightarrow> reply option \<Rightarrow> ('r, bool) handler" where
  "errorHandler reconnect g rr =
     bindM (getGroup g) (\<lambda>x.
       if \<not> g_context x then retM False
       else case rr of
         None \<Rightarrow> thenM reconnect (retM False)
       | Some R_Error \<Rightarrow> retM False
       | Some _ \<Rightarrow> retM True)"

fun CRedisOperator_connect_d :: "'r env \<Rightarrow> nat \<Rightarrow> nat \<Rightarrow> ('r, bool) handler" where
  "CRedisOperator_connect_d e 0 g = failM StackOverflow"
| "CRedisOperator_connect_d e (Suc d) g =
     bindM (getGroup g) (\<lambda>x.
     thenM (if g_context x then freeContext e g else retM ())
     (bindM (redisConnect e g) (\<lambda>c.
       case c of
         NoContext \<Rightarrow> thenM (setContext g False) (retM False)
       | ContextErr \<Rightarrow> thenM (freeContext e g) (thenM (setContext g False) (retM False))
       | ContextOk \<Rightarrow>
           thenM (setContext g True)
           (bindM (redisCommand e g [str ''AUTH'', cstr (REDIS_AUTH (e_cfg e))]) (\<lambda>r1.
            bindM (errorHandler (CRedisOperator_connect_d e d g) g r1) (\<lambda>ok1.
              if \<not> ok1 then retM False
              else
                bindM (redisCommand e g [str ''SELECT'', dec (unat (REDIS_DB (e_cfg e)))]) (\<lambda>r2.
                bindM (errorHandler (CRedisOperator_connect_d e d g) g r2) (\<lambda>ok2.
                  if \<not> ok2 then retM False else retM True))))))))"

definition CRedisOperator_connect :: "'r env \<Rightarrow> nat \<Rightarrow> ('r, bool) handler" where
  "CRedisOperator_connect e g = CRedisOperator_connect_d e (e_depth e) g"

definition CRedisOperator_errorHandler :: "'r env \<Rightarrow> nat \<Rightarrow> reply option \<Rightarrow> ('r, bool) handler" where
  "CRedisOperator_errorHandler e g rr = errorHandler (CRedisOperator_connect e g) g rr"

definition CRedisOperator_disconnect :: "'r env \<Rightarrow> nat \<Rightarrow> ('r, unit) handler" where
  "CRedisOperator_disconnect e g =
     bindM (getGroup g) (\<lambda>x.
       if g_context x then thenM (freeContext e g) (setContext g False) else retM ())"

section \<open>Queries\<close>

definition contextM :: "nat \<Rightarrow> ('r, unit) handler" where
  "contextM g = bindM (getGroup g) (\<lambda>x. assertM (g_context x))"

text \<open>\<open>sessionId\<close> is the session array; its C string is what the command holds.\<close>

definition CRedisOperator_verifyHandshake :: "'r env \<Rightarrow> nat \<Rightarrow> ub1_ list \<Rightarrow> ('r, ub8_) handler" where
  "CRedisOperator_verifyHandshake e g sessionId =
     thenM (assertM (firstByte sessionId \<noteq> 0))
     (thenM (contextM g)
     (bindM (liftR (cstring sessionId)) (\<lambda>sid.
      bindM (redisCommand e g [str ''zscore'', str ''gml:account:session'', sid]) (\<lambda>r.
      bindM (CRedisOperator_errorHandler e g r) (\<lambda>ok.
        if \<not> ok then retM 0
        else case r of
          Some R_Nil \<Rightarrow> retM 0
        | Some (R_String s) \<Rightarrow> retM (atoll s)
        | _ \<Rightarrow> failM AssertFail)))))"

text \<open>Adding a message to the queue of every member that a group reply lists.\<close>

definition userQueue :: "ub8_ \<Rightarrow> ub1_ list" where
  "userQueue u = str ''gml:message:queue:user:'' @ dec (unat u)"

definition queueMember :: "'r env \<Rightarrow> nat \<Rightarrow> ub8_ \<Rightarrow> ub8_ \<Rightarrow> reply \<Rightarrow> ('r, unit) handler" where
  "queueMember e g now messageId m =
     (case m of
        R_String s \<Rightarrow>
          thenM (redisCommand e g
                  [str ''zadd'', userQueue (atoll s), dec (unat now), dec (unat messageId)]) (retM ())
      | _ \<Rightarrow> failM AssertFail)"

text \<open>
  \<open>sendMessage\<close> on the message that starts at the block \<open>msg\<close>; \<open>%s\<close> of \<open>json\<close> reads up to
  the first zero byte at or after that field.  The result is the returned flag and the
  reference parameter \<open>messageId\<close>, whose old value is \<open>mid\<close>.
\<close>

definition CRedisOperator_sendMessage ::
  "'r env \<Rightarrow> nat \<Rightarrow> ub8_ \<Rightarrow> ub1_ list \<Rightarrow> ub8_ \<Rightarrow> ('r, bool \<times> ub8_) handler" where
  "CRedisOperator_sendMessage e g ornId msg mid =
     (let m = TPDUSendMsg_at msg in
      thenM (contextM g)
      (bindM (redisCommand e g [str ''hincrby'', str ''gml:message:key:generator'', str ''messageId'', str ''1'']) (\<lambda>r1.
       bindM (CRedisOperator_errorHandler e g r1) (\<lambda>ok1.
         if \<not> ok1 then retM (False, mid)
         else case r1 of
           Some (R_Integer i) \<Rightarrow>
             (let messageId = word_of_int i in
              bindM (liftR (cstring (drop 38 msg))) (\<lambda>json.
              bindM (redisCommand e g
                 [str ''hmset'', str ''gml:message:'' @ dec (unat messageId),
                  str ''ornType'', dec (unat (sm_dstType m)), str ''ornId'', dec (unat ornId),
                  str ''ornExtId'', dec (unat (sm_dstId m)), str ''json'', json]) (\<lambda>r2.
              bindM (CRedisOperator_errorHandler e g r2) (\<lambda>ok2.
                if \<not> ok2 then retM (False, messageId)
                else if sm_dstType m = 1 then
                  bindM CBase_now (\<lambda>now.
                  bindM (redisCommand e g
                    [str ''zadd'', userQueue (sm_dstId m), dec (unat now), dec (unat messageId)]) (\<lambda>r3.
                  bindM (CRedisOperator_errorHandler e g r3) (\<lambda>ok3.
                    retM (ok3, messageId))))
                else if sm_dstType m = 2 then
                  bindM CBase_now (\<lambda>now.
                  bindM (redisCommand e g
                    [str ''zadd'', str ''gml:message:queue:group:'' @ dec (unat (sm_dstId m)),
                     dec (unat now), dec (unat messageId)]) (\<lambda>r3.
                  bindM (CRedisOperator_errorHandler e g r3) (\<lambda>ok3.
                    if \<not> ok3 then retM (False, messageId)
                    else
                      bindM (redisCommand e g
                        [str ''zrangebyscore'', str ''gml:group:members:'' @ dec (unat (sm_dstId m)),
                         str ''1'', str ''1'']) (\<lambda>r4.
                      bindM (CRedisOperator_errorHandler e g r4) (\<lambda>ok4.
                        if \<not> ok4 then retM (False, messageId)
                        else case r4 of
                          Some R_Nil \<Rightarrow> retM (True, messageId)
                        | Some (R_Array ms) \<Rightarrow>
                            thenM (forM ms (queueMember e g now messageId)) (retM (True, messageId))
                        | _ \<Rightarrow> failM AssertFail)))))
                else retM (True, messageId)))))
         | _ \<Rightarrow> failM AssertFail))))"

section \<open>Delivery of stored messages\<close>

text \<open>
  One stored message: its field \<open>mid\<close>, its score \<open>stamp\<close>, and the reply to \<open>hmget\<close>.  The
  callback \<open>push\<close> is \<open>CTransaction::handlePushMessage\<close>, in its order of arguments.  The
  result says whether the loop goes on.
\<close>

type_synonym 'r pushHandler =
  "ub1_ \<Rightarrow> ub8_ \<Rightarrow> ub8_ \<Rightarrow> ub8_ \<Rightarrow> ub1_ list \<Rightarrow> ub2_ \<Rightarrow> ub8_ \<Rightarrow> ('r, bool) handler"

definition replyStr :: "reply \<Rightarrow> ('r, ub1_ list) handler" where
  "replyStr r = (case r of R_String s \<Rightarrow> retM s | _ \<Rightarrow> failM NullDeref)"

definition pushStored ::
  "'r env \<Rightarrow> nat \<Rightarrow> 'r pushHandler \<Rightarrow> ub1_ list \<Rightarrow> ub1_ list \<Rightarrow> ('r, bool) handler" where
  "pushStored e g push mid stamp =
     bindM (redisCommand e g
       [str ''hmget'', str ''gml:message:'' @ cstr mid, str ''ornType'', str ''ornId'', str ''ornExtId'', str ''json'']) (\<lambda>r.
     bindM (CRedisOperator_errorHandler e g r) (\<lambda>ok.
       if \<not> ok then retM False
       else case r of
         Some (R_Array [f0, f1, f2, f3]) \<Rightarrow>
           if R_Nil \<in> {f0, f1, f2, f3} then retM True
           else
             bindM (replyStr f0) (\<lambda>s0. bindM (replyStr f1) (\<lambda>s1.
             bindM (replyStr f2) (\<lambda>s2. bindM (replyStr f3) (\<lambda>s3.
               push (ucast (atoi s0)) (atoll s1) (atoll s2) (atoll mid) s3
                 (of_nat (length s3)) (atoll stamp)))))
       | _ \<Rightarrow> failM AssertFail))"

text \<open>The loop over the pairs of members and scores that the reply holds.\<close>

fun pushAll :: "'r env \<Rightarrow> nat \<Rightarrow> 'r pushHandler \<Rightarrow> reply list \<Rightarrow> ('r, bool) handler" where
  "pushAll e g push (a # b # rest) =
     (case (a, b) of
        (R_String mid, R_String stamp) \<Rightarrow>
          bindM (pushStored e g push mid stamp) (\<lambda>go. if go then pushAll e g push rest else retM False)
      | _ \<Rightarrow> failM AssertFail)"
| "pushAll e g push _ = retM True"

text \<open>
  The two queries of \<open>checkMessages\<close>.  The first counts the queue and skips all but the last
  \<open>VALID_NUMBER\<close> messages; \<open>None\<close> stands for its early returns.  In the second the limit is
  the low half of \<open>VALID_DURATION\<close>, which is what \<open>%u\<close> takes.
\<close>

definition queryRecent :: "'r env \<Rightarrow> nat \<Rightarrow> ub8_ \<Rightarrow> ('r, reply option option) handler" where
  "queryRecent e g uid =
     bindM (redisCommand e g [str ''zcount'', userQueue uid, str ''-inf'', str ''+inf'']) (\<lambda>r.
     bindM (CRedisOperator_errorHandler e g r) (\<lambda>ok.
       if \<not> ok then retM None
       else case r of
         Some (R_Integer i) \<Rightarrow>
           (let num = sint (word_of_int i :: b4_); keep = uint (VALID_NUMBER (e_cfg e)) in
            if num \<le> 0 then retM None
            else
              bindM (redisCommand e g
                [str ''zrangebyscore'', userQueue uid, str ''-inf'', str ''+inf'', str ''withscores'',
                 str ''limit'', dec (nat (if keep \<le> num then num - keep else 0)), dec (nat keep)])
                (\<lambda>r2. retM (Some r2)))
       | _ \<Rightarrow> failM AssertFail))"

definition querySince :: "'r env \<Rightarrow> nat \<Rightarrow> ub8_ \<Rightarrow> ub8_ \<Rightarrow> ('r, reply option option) handler" where
  "querySince e g uid lastUpdate =
     bindM (redisCommand e g
       [str ''zrangebyscore'', userQueue uid, str ''('' @ dec (unat lastUpdate), str ''+inf'', str ''withscores'',
        str ''limit'', str ''0'', dec (unat (ucast (VALID_DURATION (e_cfg e)) :: ub4_))])
       (\<lambda>r. retM (Some r))"

definition CRedisOperator_checkMessages ::
  "'r env \<Rightarrow> nat \<Rightarrow> 'r pushHandler \<Rightarrow> ub8_ \<Rightarrow> ('r, bool) handler" where
  "CRedisOperator_checkMessages e g push p =
     thenM (contextM g)
     (bindM CBase_now (\<lambda>now.
      bindM (getTx p) (\<lambda>t.
      thenM (assertM (t_lastUpdate t < now))
      (bindM (if t_lastUpdate t = 0 \<or> VALID_DURATION (e_cfg e) < now - t_lastUpdate t
              then queryRecent e g (t_id t)
              else querySince e g (t_id t) (t_lastUpdate t)) (\<lambda>q.
        case q of
          None \<Rightarrow> retM False
        | Some r \<Rightarrow>
            bindM (CRedisOperator_errorHandler e g r) (\<lambda>ok.
              if \<not> ok then retM False
              else case r of
                Some R_Nil \<Rightarrow> retM False
              | Some (R_Array els) \<Rightarrow> pushAll e g push els
              | _ \<Rightarrow> failM AssertFail))))))"

end
