(* ===== verification/Transaction.thy ===== *)
theory Transaction
  imports Node Redis_Operator
begin

unbundle bit_operations_syntax

text \<open>
  The session state machine of src/src/transaction/CTransaction.cpp and the registry and
  timer callback of CTransactionManager.cpp.  A handler is given the address \<open>p\<close> of the
  transaction (and node) it belongs to; a message handler is also given the block \<open>msg\<close> its
  pointer argument points to.  \<open>over\<close> with \<open>useQueue\<close> false calls \<open>__onStop\<close> at once.
\<close>

section \<open>Registry\<close>

text \<open>
  \<open>_transactionMap\<close> is keyed by pointers to the \<open>_sessionId\<close> arrays of the transactions it
  holds and compares them with \<open>strcmp\<close>: the model keeps the transactions and reads each key
  through its transaction.
\<close>

definition sessionKey :: "'r world \<Rightarrow> ub8_ \<Rightarrow> ub1_ list option" where
  "sessionKey w p = map_option (\<lambda>n. cstr (t_sessionId (n_transaction n))) (w_nodes w p)"

definition findKey :: "'r world \<Rightarrow> ub1_ list \<Rightarrow> ub8_ option" where
  "findKey w key = List.find (\<lambda>q. sessionKey w q = Some key) (w_registry w)"

definition CTransactionManager_findTransaction :: "ub1_ list \<Rightarrow> ('r, ub8_) handler" where
  "CTransactionManager_findTransaction sessionId =
     bindM (getsM (\<lambda>w. findKey w (cstr sessionId)))
       (\<lambda>r. case r of None \<Rightarrow> retM null_v | Some p \<Rightarrow> retM p)"

definition CTransactionManager_registerTransaction :: "ub8_ \<Rightarrow> ('r, bool) handler" where
  "CTransactionManager_registerTransaction p =
     bindM (getTx p) (\<lambda>t.
     bindM (getsM (\<lambda>w. findKey w (cstr (t_sessionId t)))) (\<lambda>r.
       if r \<noteq> None then retM False
       else thenM (updM (\<lambda>w. w\<lparr>w_registry := p # w_registry w\<rparr>)) (retM True)))"

definition CTransactionManager_unregisterTransaction :: "ub8_ \<Rightarrow> ('r, bool) handler" where
  "CTransactionManager_unregisterTransaction p =
     bindM (getTx p) (\<lambda>t.
       if firstByte (t_sessionId t) = 0 then retM False
       else bindM (getsM (\<lambda>w. findKey w (cstr (t_sessionId t)))) (\<lambda>r.
         case r of
           None \<Rightarrow> retM False
         | Some q \<Rightarrow>
             thenM (assertM (p = q))
             (thenM (updM (\<lambda>w. w\<lparr>w_registry := remove1 q (w_registry w)\<rparr>)) (retM True))))"

section \<open>Ordered map of pending acknowledgements\<close>

text \<open>\<open>std::map<ub4_, ub8_>\<close>: a list sorted by key.\<close>

fun mapPut :: "ub4_ \<Rightarrow> ub8_ \<Rightarrow> (ub4_ \<times> ub8_) list \<Rightarrow> (ub4_ \<times> ub8_) list" where
  "mapPut k v [] = [(k, v)]"
| "mapPut k v ((k1, v1) # m) =
     (if k = k1 then (k, v) # m
      else if k < k1 then (k, v) # (k1, v1) # m
      else (k1, v1) # mapPut k v m)"

definition mapDel :: "ub4_ \<Rightarrow> (ub4_ \<times> ub8_) list \<Rightarrow> (ub4_ \<times> ub8_) list" where
  "mapDel k m = filter (\<lambda>(k1, _). k1 \<noteq> k) m"

section \<open>End of a session\<close>

text \<open>The reasons that the \<open>switch\<close> of \<open>__onStop\<close> has a case for.\<close>

definition stopReasons :: "ETransactionExitReason set" where
  "stopReasons = {WRONG_STATUS, CLIENT_TOO_OLD, NO_THE_SESSION_FOUND, SAME_SESSION_ID, TIME_OUT,
     UNKNOWN_MESSAGE, CONNECTION_BROKEN, CONNECTION_ERROR, CANNOT_RECV_DATA}"

definition knownReason :: "b4_ \<Rightarrow> bool" where
  "knownReason r \<longleftrightarrow> r \<in> reason_code ` stopReasons"

definition stopKeepLive :: "ub8_ \<Rightarrow> ('r, unit) handler" where
  "stopKeepLive p =
     bindM (getTx p) (\<lambda>t.
       if t_keepLiveTimerId t \<noteq> 0
       then thenM (killTimerM (t_keepLiveTimerId t)) (updTx p (\<lambda>t. t\<lparr>t_keepLiveTimerId := 0\<rparr>))
       else retM ())"

definition stopAckTimers :: "ub8_ \<Rightarrow> ('r, unit) handler" where
  "stopAckTimers p =
     bindM (getTx p) (\<lambda>t.
       thenM (forM (t_mapSeq2Timer t) (\<lambda>(_, u). killTimerM u))
         (updTx p (\<lambda>t. t\<lparr>t_mapSeq2Timer := []\<rparr>)))"

definition stopSession :: "ub8_ \<Rightarrow> ('r, unit) handler" where
  "stopSession p =
     bindM (getTx p) (\<lambda>t.
       if firstByte (t_sessionId t) \<noteq> 0
       then thenM (CTransactionManager_unregisterTransaction p)
              (updTx p (\<lambda>t. t\<lparr>t_sessionId := zeros Size_SESSION_ID\<rparr>))
       else retM ())"

definition CTransaction_onStop :: "ub8_ \<Rightarrow> b4_ \<Rightarrow> ('r, bool) handler" where
  "CTransaction_onStop p reason =
     thenM (updTx p (\<lambda>t. t\<lparr>t_status := OVER\<rparr>))
     (thenM (assertM (knownReason reason))
     (thenM (stopKeepLive p)
     (thenM (stopAckTimers p)
     (thenM (stopSession p)
     (thenM (updTx p (\<lambda>t. t\<lparr>t_build := 0, t_lastUpdate := 0, t_id := 0, t_heartbeat := False,
                            t_seqCounter := 0\<rparr>))
     (retM False))))))"

definition overMsg :: "config \<Rightarrow> ub8_ \<Rightarrow> ub8_ \<Rightarrow> ETransactionExitReason \<Rightarrow> TPDUOnOver" where
  "overMsg cfg p now reason =
     \<lparr>oo_header =
        \<lparr>hd_size = of_nat sizeof_TPDUOnOver, hd_type = MT_CONTROL, hd_cmd = MC_ON_OVER,
         hd_ver = PROTOCOL_VERSION cfg, hd_lang = ML_CN, hd_seq = 0, hd_stmp = now, hd_ext = p\<rparr>,
      oo_reason = reason_code reason\<rparr>"

definition CTransaction_over :: "'r env \<Rightarrow> ub8_ \<Rightarrow> ETransactionExitReason \<Rightarrow> bool \<Rightarrow> ('r, bool) handler" where
  "CTransaction_over e p reason useQueue =
     bindM CBase_now (\<lambda>now.
       let msg = overMsg (e_cfg e) p now reason in
       if useQueue then bindM (groupOf p) (\<lambda>g. CNodeGroup_putMessage g (TPDUOnOver_bytes msg))
       else CTransaction_onStop p (oo_reason msg))"

section \<open>Sending\<close>

text \<open>The timer that waits for the acknowledgement of message \<open>seq\<close>, set after it was sent.\<close>

definition armAckTimer :: "'r env \<Rightarrow> ub8_ \<Rightarrow> ub4_ \<Rightarrow> ('r, bool) handler" where
  "armAckTimer e p seq =
     bindM (setTimerM (HEARTBEAT_INTERVAL (e_cfg e)) p (ucast seq) 1) (\<lambda>timerId.
       if timerId \<noteq> 0 then
         thenM (updTx p (\<lambda>t. t\<lparr>t_mapSeq2Timer := mapPut seq timerId (t_mapSeq2Timer t)\<rparr>)) (retM True)
       else CTransaction_over e p NO_MORE_TIMER False)"

definition nextSeq :: "ub4_ \<Rightarrow> ub4_" where
  "nextSeq c = (let s = c + 1 in if s = 0 then s + 1 else s)"

definition CTransaction_send :: "'r env \<Rightarrow> ub8_ \<Rightarrow> ub1_ list \<Rightarrow> bool \<Rightarrow> ('r, bool) handler" where
  "CTransaction_send e p msg waitAck =
     bindM CBase_now (\<lambda>now.
     bindM (if waitAck then
              bindM (getTx p) (\<lambda>t.
                thenM (updTx p (\<lambda>t. t\<lparr>t_seqCounter := nextSeq (t_seqCounter t)\<rparr>))
                  (retM (nextSeq (t_seqCounter t))))
            else retM (hd_seq (THeader_at msg))) (\<lambda>seq.
     bindM (CNode_send p (patchHeader (\<lambda>h. h\<lparr>hd_stmp := now, hd_ext := 0, hd_seq := seq\<rparr>) msg)) (\<lambda>ret.
       if ret \<and> waitAck then armAckTimer e p seq else retM ret)))"

section \<open>Message handlers\<close>

text \<open>The acknowledgement of a handshake with a code.\<close>

definition handShakeAck :: "THeader \<Rightarrow> ub2_ \<Rightarrow> TPDUHandShakeAck" where
  "handShakeAck h code =
     \<lparr>hsa_header = h\<lparr>hd_size := of_nat sizeof_TPDUHandShakeAck, hd_type := hd_type h OR MT_SIGN_ACK\<rparr>,
      hsa_code = code\<rparr>"

definition refuse ::
  "'r env \<Rightarrow> ub8_ \<Rightarrow> THeader \<Rightarrow> ETransactionExitReason \<Rightarrow> ('r, bool) handler" where
  "refuse e p h reason =
     thenM (CTransaction_send e p (TPDUHandShakeAck_bytes (handShakeAck h (reason_code reason))) False)
       (CTransaction_over e p reason False)"

definition clearSession :: "ub8_ \<Rightarrow> ('r, unit) handler" where
  "clearSession p = updTx p (\<lambda>t. t\<lparr>t_sessionId := zeros Size_SESSION_ID, t_id := 0\<rparr>)"

text \<open>The stages of \<open>__onStart\<close>: the keep-alive timer, the acknowledgement of an accepted
  session, the check of the session, and the whole.\<close>

definition startHeartBeat :: "'r env \<Rightarrow> ub8_ \<Rightarrow> ('r, bool) handler" where
  "startHeartBeat e p =
     thenM (updTx p (\<lambda>t. t\<lparr>t_heartbeat := True\<rparr>))
     (bindM (setTimerM (HEARTBEAT_INTERVAL (e_cfg e)) p (status_code READY) 0) (\<lambda>u.
      thenM (updTx p (\<lambda>t. t\<lparr>t_keepLiveTimerId := u\<rparr>))
      (if u = 0 then CTransaction_over e p NO_MORE_TIMER False else retM True)))"

definition startReady :: "'r env \<Rightarrow> ub8_ \<Rightarrow> TPDUHandShake \<Rightarrow> ('r, bool) handler" where
  "startReady e p msg =
     thenM (updTx p (\<lambda>t. t\<lparr>t_status := READY, t_lastUpdate := hs_lastUpdate msg\<rparr>))
     (bindM (CTransaction_send e p (TPDUHandShakeAck_bytes (handShakeAck (hs_header msg) 0)) False) (\<lambda>sent.
        if sent then startHeartBeat e p else retM True))"

definition claimSession :: "'r env \<Rightarrow> ub8_ \<Rightarrow> TPDUHandShake \<Rightarrow> ub8_ \<Rightarrow> ('r, bool) handler" where
  "claimSession e p msg uid =
     (if uid = 0 then thenM (clearSession p) (refuse e p (hs_header msg) NO_THE_SESSION_FOUND)
      else
        bindM (CTransactionManager_registerTransaction p) (\<lambda>ok.
          if \<not> ok then thenM (clearSession p) (refuse e p (hs_header msg) SAME_SESSION_ID)
          else startReady e p msg))"

definition startSession :: "'r env \<Rightarrow> ub8_ \<Rightarrow> TPDUHandShake \<Rightarrow> ('r, bool) handler" where
  "startSession e p msg =
     thenM (updTx p (\<lambda>t. t\<lparr>t_sessionId := hs_sessionId msg\<rparr>))
     (bindM (groupOf p) (\<lambda>g.
      bindM (CRedisOperator_verifyHandshake e g (hs_sessionId msg)) (\<lambda>uid.
      thenM (updTx p (\<lambda>t. t\<lparr>t_id := uid\<rparr>)) (claimSession e p msg uid))))"

definition CTransaction_onStart :: "'r env \<Rightarrow> ub8_ \<Rightarrow> ub1_ list \<Rightarrow> ('r, bool) handler" where
  "CTransaction_onStart e p buf =
     (let msg = TPDUHandShake_at buf in
      bindM (getTx p) (\<lambda>t.
        if t_status t \<noteq> CONNECTED then CTransaction_over e p WRONG_STATUS False
        else
          thenM (assertM (t_keepLiveTimerId t \<noteq> 0))
          (thenM (killTimerM (t_keepLiveTimerId t))
          (thenM (updTx p (\<lambda>t. t\<lparr>t_keepLiveTimerId := 0\<rparr>))
          (if hs_build msg < BASE_BUILD (e_cfg e) then refuse e p (hs_header msg) CLIENT_TOO_OLD
           else startSession e p msg)))))"

definition CTransaction_onHeartBeat :: "'r env \<Rightarrow> ub8_ \<Rightarrow> ('r, bool) handler" where
  "CTransaction_onHeartBeat e p =
     bindM (getTx p) (\<lambda>t.
       if t_status t \<noteq> READY then CTransaction_over e p WRONG_STATUS False
       else thenM (updTx p (\<lambda>t. t\<lparr>t_heartbeat := True\<rparr>)) (retM True))"

definition CTransaction_onSendMsg :: "'r env \<Rightarrow> ub8_ \<Rightarrow> ub1_ list \<Rightarrow> ('r, bool) handler" where
  "CTransaction_onSendMsg e p buf =
     (let h = THeader_at buf in
      bindM (getTx p) (\<lambda>t.
        if t_status t \<noteq> READY then CTransaction_over e p WRONG_STATUS False
        else
          bindM CBase_now (\<lambda>now.
          bindM (groupOf p) (\<lambda>g.
          bindM (CRedisOperator_sendMessage e g (t_id t) buf (e_junk e)) (\<lambda>(ok, mid).
            let ack = \<lparr>sma_header = h\<lparr>hd_size := of_nat sizeof_TPDUSendMsgAck,
                                      hd_type := hd_type h OR MT_SIGN_ACK, hd_stmp := now\<rparr>,
                       sma_code = (if ok then 0 else reason_code NO_DESTINATION_FOUND),
                       sma_messageId = mid\<rparr>
            in thenM (CTransaction_send e p (TPDUSendMsgAck_bytes ack) False) (retM True))))))"

definition CTransaction_handlePushMessage :: "'r env \<Rightarrow> ub8_ \<Rightarrow> 'r pushHandler" where
  "CTransaction_handlePushMessage e p ornType ornId ornExtId messageId json len timestamp =
     bindM CBase_now (\<lambda>now.
     thenM (assertM (unat len \<le> Length_JSON))
     (let msg = \<lparr>pm_header = \<lparr>hd_size = of_nat sizeof_TPDUPushMsg, hd_type = MT_SERVICE,
                    hd_cmd = MC_PUSH_MSG, hd_ver = PROTOCOL_VERSION (e_cfg e), hd_lang = ML_CN,
                    hd_seq = 0, hd_stmp = now, hd_ext = 0\<rparr>,
                 pm_ornType = ornType, pm_ornId = ornId, pm_ornExtId = ornExtId,
                 pm_messageId = messageId,
                 pm_json = strncpy (zeros Size_JSON) json Length_JSON\<rparr>
      in bindM (CTransaction_send e p (TPDUPushMsg_bytes msg) True) (\<lambda>ret.
           thenM (if ret then updTx p (\<lambda>t. t\<lparr>t_lastUpdate := timestamp\<rparr>) else retM ())
           (retM ret))))"

definition CTransaction_onPushMsg :: "'r env \<Rightarrow> ub8_ \<Rightarrow> ub1_ list \<Rightarrow> ('r, bool) handler" where
  "CTransaction_onPushMsg e p buf =
     (let seq = hd_seq (pma_header (TPDUPushMsgAck_at buf)) in
      bindM (getTx p) (\<lambda>t.
        if t_status t \<noteq> READY then CTransaction_over e p WRONG_STATUS False
        else
          thenM (assertM (seq \<noteq> 0))
          (case map_of (t_mapSeq2Timer t) seq of
             Some u \<Rightarrow>
               thenM (killTimerM u)
               (thenM (updTx p (\<lambda>t. t\<lparr>t_mapSeq2Timer := mapDel seq (t_mapSeq2Timer t)\<rparr>)) (retM True))
           | None \<Rightarrow> retM True)))"

definition heartBeatMsg :: "'r env \<Rightarrow> TPDUHeartBeat" where
  "heartBeatMsg e =
     \<lparr>hb_header = \<lparr>hd_size = of_nat sizeof_TPDUHeartBeat, hd_type = MT_CONTROL, hd_cmd = MC_HEART_BEAT,
        hd_ver = PROTOCOL_VERSION (e_cfg e), hd_lang = 1, hd_seq = 0, hd_stmp = e_junk e, hd_ext = e_junk e\<rparr>\<rparr>"

definition CTransaction_onTimer :: "'r env \<Rightarrow> ub8_ \<Rightarrow> ub1_ list \<Rightarrow> ('r, bool) handler" where
  "CTransaction_onTimer e p buf =
     (let msg = TPDUOnTimer_at buf in
      bindM (getTx p) (\<lambda>t.
        if t_keepLiveTimerId t = ot_timerId msg then
          (if status_code (t_status t) \<noteq> ucast (ucast (ot_parameter msg) :: b4_) then retM True
           else if t_status t = CONNECTED then CTransaction_over e p TIME_OUT False
           else if t_status t = READY then
             (if \<not> t_heartbeat t then CTransaction_over e p TIME_OUT False
              else
                thenM (CTransaction_send e p (TPDUHeartBeat_bytes (heartBeatMsg e)) False)
                (thenM (updTx p (\<lambda>t. t\<lparr>t_heartbeat := False\<rparr>)) (retM True)))
           else failM AssertFail)
        else if t_status t \<noteq> READY then retM True
        else
          (case map_of (t_mapSeq2Timer t) (ucast (ot_parameter msg)) of
             Some _ \<Rightarrow> CTransaction_over e p TIME_OUT False
           | None \<Rightarrow> failM AssertFail)))"

definition CTransaction_onMessage :: "'r env \<Rightarrow> ub8_ \<Rightarrow> ub1_ list \<Rightarrow> ('r, bool) handler" where
  "CTransaction_onMessage e p buf =
     (let h = THeader_at buf in
      if hd_type h = MT_ACCOUNT \<and> hd_cmd h = MC_HAND_SHAKE then CTransaction_onStart e p buf
      else if hd_type h = MT_CONTROL OR MT_SIGN_ACK \<and> hd_cmd h = MC_HEART_BEAT then
        CTransaction_onHeartBeat e p
      else if hd_type h = MT_SERVICE \<and> hd_cmd h = MC_SEND_MSG then CTransaction_onSendMsg e p buf
      else if hd_type h = MT_SERVICE OR MT_SIGN_ACK \<and> hd_cmd h = MC_PUSH_MSG then
        CTransaction_onPushMsg e p buf
      else if hd_cmd h = MC_ON_TIMER then CTransaction_onTimer e p buf
      else if hd_cmd h = MC_ON_OVER then CTransaction_onStop p (oo_reason (TPDUOnOver_at buf))
      else CTransaction_over e p UNKNOWN_MESSAGE False)"

definition CTransaction_onCheck :: "'r env \<Rightarrow> ub8_ \<Rightarrow> ('r, unit) handler" where
  "CTransaction_onCheck e p =
     bindM (groupOf p) (\<lambda>g.
       thenM (CRedisOperator_checkMessages e g (CTransaction_handlePushMessage e p) p) (retM ()))"

section \<open>Attaching and detaching\<close>

definition CTransaction_onAttach :: "'r env \<Rightarrow> ub8_ \<Rightarrow> ('r, bool) handler" where
  "CTransaction_onAttach e p =
     bindM (getTx p) (\<lambda>t.
     thenM (assertM (t_build t = 0 \<and> t_lastUpdate t = 0 \<and> firstByte (t_sessionId t) = 0 \<and> t_id t = 0 \<and>
                     t_status t = FREE \<and> t_keepLiveTimerId t = 0 \<and> \<not> t_heartbeat t \<and>
                     t_seqCounter t = 0 \<and> t_mapSeq2Timer t = []))
     (thenM (updTx p (\<lambda>t. t\<lparr>t_status := CONNECTED\<rparr>))
     (bindM (setTimerM (HEARTBEAT_INTERVAL (e_cfg e)) p (status_code CONNECTED) 1) (\<lambda>u.
      thenM (updTx p (\<lambda>t. t\<lparr>t_keepLiveTimerId := u\<rparr>))
      (retM (u \<noteq> 0))))))"

definition CTransaction_onDetach :: "ub8_ \<Rightarrow> ('r, unit) handler" where
  "CTransaction_onDetach p =
     bindM (getTx p) (\<lambda>t.
     thenM (assertM (firstByte (t_sessionId t) = 0 \<and> t_id t = 0 \<and> t_status t = OVER \<and>
                     t_keepLiveTimerId t = 0 \<and> \<not> t_heartbeat t \<and> t_seqCounter t = 0 \<and>
                     t_mapSeq2Timer t = []))
     (updTx p (\<lambda>t. t\<lparr>t_status := FREE\<rparr>)))"

section \<open>The timer callback\<close>

definition timerMsg :: "'r env \<Rightarrow> ub8_ \<Rightarrow> ub8_ \<Rightarrow> ub8_ \<Rightarrow> ub8_ \<Rightarrow> TPDUOnTimer" where
  "timerMsg e now u p par =
     \<lparr>ot_header = \<lparr>hd_size = of_nat sizeof_TPDUOnTimer, hd_type = MT_CONTROL, hd_cmd = MC_ON_TIMER,
        hd_ver = PROTOCOL_VERSION (e_cfg e), hd_lang = 1, hd_seq = 0, hd_stmp = now, hd_ext = p\<rparr>,
      ot_timerId = u, ot_parameter = par\<rparr>"

definition CTransactionManager_onTimer ::
  "'r env \<Rightarrow> ub8_ \<Rightarrow> ub8_ \<Rightarrow> ub8_ \<Rightarrow> ('r, bool) handler" where
  "CTransactionManager_onTimer e u pI pII =
     thenM (assertM (pI \<noteq> null_v))
     (bindM CBase_now (\<lambda>now.
      bindM (groupOf pI) (\<lambda>g.
      thenM (CNodeGroup_putMessage g (TPDUOnTimer_bytes (timerMsg e now u pI pII))) (retM True))))"

text \<open>One turn of the timer thread.\<close>

definition CTransactionManager_working :: "'r env \<Rightarrow> ('r, bool) handler" where
  "CTransactionManager_working e =
     bindM gettimeofday (\<lambda>tv. \<lambda>w.
       bindR (CTimerManager_working (CTransactionManager_onTimer e) tv (w_timers w) w)
         (\<lambda>(go, m, w1). Inr (go, w1\<lparr>w_timers := m\<rparr>)))"

end
