(* ===== verification/Transaction_Invariant.thy ===== *)
theory Transaction_Invariant
  imports Transaction
begin

unbundle bit_operations_syntax

text \<open>
  The invariant of the sessions and that every handler of CTransaction keeps it: what the
  fields of a transaction are in each status, that the registry holds exactly the ready
  transactions and no two with the same session, that the timers a transaction names are
  timers of the manager, and that a handler that returns false has left the transaction
  stopped and cleared, which is what \<open>CNodeGroup::_rollingQueue\<close> and
  \<open>CTransaction::onDetach\<close> assert.
\<close>

section \<open>Invariant\<close>

definition tx_ok :: "ub8_ set \<Rightarrow> transaction \<Rightarrow> bool" where
  "tx_ok ids t \<longleftrightarrow>
     (case t_status t of
        FREE \<Rightarrow> t = CTransaction_new
      | CONNECTED \<Rightarrow> \<exists>k \<in> insert 0 ids. t = CTransaction_new\<lparr>t_status := CONNECTED, t_keepLiveTimerId := k\<rparr>
      | READY \<Rightarrow> length (t_sessionId t) = Size_SESSION_ID \<and> firstByte (t_sessionId t) \<noteq> 0 \<and>
          0 \<in> set (t_sessionId t) \<and> t_id t \<noteq> 0 \<and> t_keepLiveTimerId t \<in> insert 0 ids \<and>
          snd ` set (t_mapSeq2Timer t) \<subseteq> ids
      | OVER \<Rightarrow> t = CTransaction_new\<lparr>t_status := OVER\<rparr>)"

definition txs :: "'r world \<Rightarrow> ub8_ \<Rightarrow> transaction option" where
  "txs w p = map_option n_transaction (w_nodes w p)"

definition ready :: "'r world \<Rightarrow> ub8_ set" where
  "ready w = {p. \<exists>t. txs w p = Some t \<and> t_status t = READY}"

text \<open>
  The registry holds exactly the transactions that are ready, each once, and no two of them
  have the same session.
\<close>

definition reg_ok :: "'r world \<Rightarrow> bool" where
  "reg_ok w \<longleftrightarrow>
     distinct (w_registry w) \<and> set (w_registry w) = ready w \<and> inj_on (sessionKey w) (ready w)"

definition sv_inv :: "'r world \<Rightarrow> bool" where
  "sv_inv w \<longleftrightarrow>
     tm_ok (w_timers w) \<and> reg_ok w \<and>
     (\<forall>p t. txs w p = Some t \<longrightarrow> tx_ok (issued (w_timers w)) t)"

lemma sessionKey_txs: "sessionKey w p = map_option (\<lambda>t. cstr (t_sessionId t)) (txs w p)"
  by (simp add: sessionKey_def txs_def option.map_comp comp_def)

lemma tx_ok_mono: "tx_ok ids t \<Longrightarrow> ids \<subseteq> ids' \<Longrightarrow> tx_ok ids' t"
  by (auto simp: tx_ok_def split: ETransactionStatus.splits)

lemma sv_invD:
  "sv_inv w \<Longrightarrow> tm_ok (w_timers w)" "sv_inv w \<Longrightarrow> reg_ok w"
  "sv_inv w \<Longrightarrow> txs w p = Some t \<Longrightarrow> tx_ok (issued (w_timers w)) t"
  by (auto simp: sv_inv_def)

text \<open>What a handler of \<open>p\<close> leaves alone.\<close>

definition g_fixed :: "group \<Rightarrow> loopBuffer \<times> ub1_ list \<times> ub8_ list \<times> ub8_ option" where
  "g_fixed x = (g_queue x, g_buffer x, g_container x, g_pos x)"

definition n_fixed :: "node \<Rightarrow> node" where
  "n_fixed n = n\<lparr>n_transaction := CTransaction_new\<rparr>"

definition handled :: "ub8_ \<Rightarrow> 'r world \<Rightarrow> 'r world \<Rightarrow> bool" where
  "handled p w w' \<longleftrightarrow>
     (\<forall>q. q \<noteq> p \<longrightarrow> w_nodes w' q = w_nodes w q) \<and>
     (\<exists>n n'. w_nodes w p = Some n \<and> w_nodes w' p = Some n' \<and> n_fixed n' = n_fixed n) \<and>
     map g_fixed (w_groups w') = map g_fixed (w_groups w) \<and>
     w_res w' = w_res w \<and> w_nodeQueue w' = w_nodeQueue w \<and> w_curGroupIndex w' = w_curGroupIndex w \<and>
     w_running w' = w_running w \<and> w_listenFd w' = w_listenFd w \<and> w_in w' = w_in w \<and>
     w_accepts w' = w_accepts w \<and> w_epollCtl w' = w_epollCtl w \<and> w_clock w' = w_clock w \<and>
     issued (w_timers w) \<subseteq> issued (w_timers w')"

lemma handled_refl: "w_nodes w p = Some n \<Longrightarrow> handled p w w"
  by (auto simp: handled_def)

lemma handled_trans: "handled p w w1 \<Longrightarrow> handled p w1 w2 \<Longrightarrow> handled p w w2"
  unfolding handled_def by (intro conjI) (fastforce | force)+

text \<open>The invariant after one transaction, the timers and the registry have changed.\<close>

lemma sv_inv_upd:
  assumes inv: "sv_inv w" and tm: "tm_ok (w_timers w')" "issued (w_timers w) \<subseteq> issued (w_timers w')"
    and tx: "txs w' = (txs w)(p \<mapsto> t)" "tx_ok (issued (w_timers w')) t"
    and reg: "reg_ok w'"
  shows "sv_inv w'"
  using assms tx_ok_mono [OF _ tm(2)] by (auto simp: sv_inv_def)

text \<open>A change that keeps the status and session of \<open>p\<close> does not concern the registry.\<close>

lemma reg_ok_same:
  assumes "reg_ok w" and "txs w p = Some t0" and "txs w' = (txs w)(p \<mapsto> t)"
    and "t_status t = t_status t0" and "t_sessionId t = t_sessionId t0" and "w_registry w' = w_registry w"
  shows "reg_ok w'"
proof -
  have "ready w' = ready w" using assms(2-4) by (auto simp: ready_def)
  moreover have "sessionKey w' = sessionKey w" using assms(2,3,5) by (auto simp: sessionKey_txs fun_eq_iff)
  ultimately show ?thesis using assms(1,6) by (simp add: reg_ok_def)
qed

section \<open>Timers of a transaction\<close>

lemma wp_killTimerM:
  assumes "tm_ok (w_timers w)" and "u \<in> issued (w_timers w)"
    and "\<And>m. tm_ok m \<Longrightarrow> issued m = issued (w_timers w) \<Longrightarrow> pending m = pending (w_timers w) - {u} \<Longrightarrow>
      Q () (w\<lparr>w_timers := m\<rparr>)"
  shows "wp F (killTimerM u) Q w"
  using killTimer_law [OF assms(1,2)] assms(3) by (auto simp: wp_def killTimerM_def)

lemma wp_setTimerM:
  assumes "tm_ok (w_timers w)"
    and "\<And>u m k. tm_ok m \<Longrightarrow> u = 0 \<and> m = w_timers w \<or>
      u \<noteq> 0 \<and> u \<notin> pending (w_timers w) \<and> pending m = insert u (pending (w_timers w)) \<and>
      issued m = insert u (issued (w_timers w)) \<Longrightarrow> Q u (w\<lparr>w_timers := m, w_ticks := k\<rparr>)"
  shows "wp F (setTimerM per pI pII n) Q w"
proof -
  obtain u m where um: "CTimerManager_setTimer (w_clock w (w_ticks w)) (w_timers w) per pI pII n = Inr (u, m)"
    "tm_ok m" "u = 0 \<and> m = w_timers w \<or>
      u \<noteq> 0 \<and> u \<notin> pending (w_timers w) \<and> pending m = insert u (pending (w_timers w)) \<and>
      issued m = insert u (issued (w_timers w))"
    using setTimer_law [OF assms(1)] by blast
  then show ?thesis using assms(2) [OF um(2,3)] by (simp add: wp_def setTimerM_def)
qed

lemma wp_killTimers:
  assumes "tm_ok (w_timers w)" and "snd ` set ks \<subseteq> issued (w_timers w)"
    and "\<And>m. tm_ok m \<Longrightarrow> issued m = issued (w_timers w) \<Longrightarrow> pending m = pending (w_timers w) - snd ` set ks \<Longrightarrow>
      Q () (w\<lparr>w_timers := m\<rparr>)"
  shows "wp F (forM ks (\<lambda>(_, u). killTimerM u)) Q w"
  using assms
proof (induction ks arbitrary: w)
  case Nil
  then show ?case using Nil(3) [of "w_timers w"] by (simp add: wp_simps)
next
  case (Cons k ks)
  obtain s u where k: "k = (s, u)" by (cases k)
  have "wp F (killTimerM u) (\<lambda>_. wp F (forM ks (\<lambda>(_, u). killTimerM u)) Q) w"
  proof (rule wp_killTimerM, goal_cases)
    case (3 m)
    show ?case by (rule Cons.IH) (use 3 Cons.prems k in \<open>auto intro!: Cons.prems(3) simp: Diff_insert2 [symmetric]\<close>)
  qed (use Cons.prems k in auto)
  then show ?case by (simp add: wp_simps k)
qed

section \<open>The registry\<close>

lemma find_unique:
  assumes "x \<in> set xs" and "P x" and "\<And>y. y \<in> set xs \<Longrightarrow> P y \<Longrightarrow> y = x"
  shows "List.find P xs = Some x"
proof (cases "List.find P xs")
  case None
  then show ?thesis using assms(1,2) by (auto simp: find_None_iff)
next
  case (Some y)
  then have "y \<in> set xs" "P y" by (auto simp: find_Some_iff)
  then show ?thesis using Some assms(3) by blast
qed

lemma findKey_self:
  assumes "p \<in> set (w_registry w)" and "inj_on (sessionKey w) (set (w_registry w))"
    and "sessionKey w p = Some k"
  shows "findKey w k = Some p"
  unfolding findKey_def using assms by (intro find_unique) (auto simp: inj_on_def)

lemma findKey_None: "findKey w k = None \<longleftrightarrow> (\<forall>q \<in> set (w_registry w). sessionKey w q \<noteq> Some k)"
  by (auto simp: findKey_def find_None_iff)

section \<open>Stopping\<close>

lemma wp_stopKeepLive:
  assumes "tm_ok (w_timers w)" and "w_nodes w p = Some n"
    and "t_keepLiveTimerId (n_transaction n) \<in> insert 0 (issued (w_timers w))"
    and "\<And>m. tm_ok m \<Longrightarrow> issued m = issued (w_timers w) \<Longrightarrow>
      pending m = pending (w_timers w) - ({t_keepLiveTimerId (n_transaction n)} - {0}) \<Longrightarrow>
      Q () (w\<lparr>w_timers := m, w_nodes := (w_nodes w)(p \<mapsto> n\<lparr>n_transaction := (n_transaction n)\<lparr>t_keepLiveTimerId := 0\<rparr>\<rparr>)\<rparr>)"
  shows "wp F (stopKeepLive p) Q w"
proof (cases "t_keepLiveTimerId (n_transaction n) = 0")
  case True
  then have "n\<lparr>n_transaction := (n_transaction n)\<lparr>t_keepLiveTimerId := 0\<rparr>\<rparr> = n" by simp
  then have "w\<lparr>w_timers := w_timers w, w_nodes := (w_nodes w)(p \<mapsto> n\<lparr>n_transaction := (n_transaction n)\<lparr>t_keepLiveTimerId := 0\<rparr>\<rparr>)\<rparr> = w"
    using assms(2) by (simp add: fun_upd_idem)
  then show ?thesis using True assms(2) assms(4) [OF assms(1)] by (simp add: stopKeepLive_def wp_simps)
next
  case False
  then have "wp F (killTimerM (t_keepLiveTimerId (n_transaction n)))
      (\<lambda>_. wp F (updTx p (\<lambda>t. t\<lparr>t_keepLiveTimerId := 0\<rparr>)) Q) w"
    using assms by (intro wp_killTimerM) (auto simp: wp_simps)
  then show ?thesis using False assms(2) by (simp add: stopKeepLive_def wp_simps)
qed

lemma wp_stopAckTimers:
  assumes "tm_ok (w_timers w)" and "w_nodes w p = Some n"
    and "snd ` set (t_mapSeq2Timer (n_transaction n)) \<subseteq> issued (w_timers w)"
    and "\<And>m. tm_ok m \<Longrightarrow> issued m = issued (w_timers w) \<Longrightarrow>
      pending m = pending (w_timers w) - snd ` set (t_mapSeq2Timer (n_transaction n)) \<Longrightarrow>
      Q () (w\<lparr>w_timers := m, w_nodes := (w_nodes w)(p \<mapsto> n\<lparr>n_transaction := (n_transaction n)\<lparr>t_mapSeq2Timer := []\<rparr>\<rparr>)\<rparr>)"
  shows "wp F (stopAckTimers p) Q w"
proof -
  have "wp F (forM (t_mapSeq2Timer (n_transaction n)) (\<lambda>(_, u). killTimerM u))
      (\<lambda>_. wp F (updTx p (\<lambda>t. t\<lparr>t_mapSeq2Timer := []\<rparr>)) Q) w"
    using assms by (intro wp_killTimers) (auto simp: wp_simps)
  then show ?thesis using assms(2) by (simp add: stopAckTimers_def wp_simps)
qed

lemma wp_stopSession:
  assumes n: "w_nodes w p = Some n" and s: "s = t_sessionId (n_transaction n)"
    and z: "firstByte s \<noteq> 0 \<or> s = zeros Size_SESSION_ID"
    and reg: "firstByte s \<noteq> 0 \<Longrightarrow> p \<in> set (w_registry w) \<and> inj_on (sessionKey w) (set (w_registry w))"
    and Q: "Q () (w\<lparr>w_registry := (if firstByte s \<noteq> 0 then remove1 p (w_registry w) else w_registry w),
        w_nodes := (w_nodes w)(p \<mapsto> n\<lparr>n_transaction := (n_transaction n)\<lparr>t_sessionId := zeros Size_SESSION_ID\<rparr>\<rparr>)\<rparr>)"
  shows "wp F (stopSession p) Q w"
proof (cases "firstByte s = 0")
  case True
  then have "n\<lparr>n_transaction := (n_transaction n)\<lparr>t_sessionId := zeros Size_SESSION_ID\<rparr>\<rparr> = n"
    using z s by simp
  then have "w\<lparr>w_registry := w_registry w,
      w_nodes := (w_nodes w)(p \<mapsto> n\<lparr>n_transaction := (n_transaction n)\<lparr>t_sessionId := zeros Size_SESSION_ID\<rparr>\<rparr>)\<rparr> = w"
    using n by (simp add: fun_upd_idem)
  then show ?thesis using True n s Q by (simp add: stopSession_def wp_simps)
next
  case False
  have "sessionKey w p = Some (cstr s)" using n s by (simp add: sessionKey_def)
  then have "findKey w (cstr s) = Some p" using reg False by (intro findKey_self) auto
  then show ?thesis using False n s Q
    by (simp add: stopSession_def wp_simps CTransactionManager_unregisterTransaction_def)
qed

lemma tx_ok_parts:
  assumes "tx_ok ids t"
  shows "t_keepLiveTimerId t \<in> insert 0 ids" and "snd ` set (t_mapSeq2Timer t) \<subseteq> ids"
    and "firstByte (t_sessionId t) \<noteq> 0 \<and> t_status t = READY \<or>
      t_sessionId t = zeros Size_SESSION_ID \<and> t_status t \<noteq> READY"
  using assms by (auto simp: tx_ok_def CTransaction_new_def split: ETransactionStatus.splits)

text \<open>The timers that a transaction names.\<close>

definition tx_timers :: "transaction \<Rightarrow> ub8_ set" where
  "tx_timers t = ({t_keepLiveTimerId t} - {0}) \<union> snd ` set (t_mapSeq2Timer t)"

text \<open>The state after \<open>__onStop\<close>: only the transaction, the timers and the registry change.\<close>

definition stopped :: transaction where
  "stopped = CTransaction_new\<lparr>t_status := OVER\<rparr>"

definition after_stop :: "ub8_ \<Rightarrow> node \<Rightarrow> 'r world \<Rightarrow> timerManager \<Rightarrow> 'r world" where
  "after_stop p n w m =
     w\<lparr>w_timers := m, w_nodes := (w_nodes w)(p \<mapsto> n\<lparr>n_transaction := stopped\<rparr>),
       w_registry := (if t_status (n_transaction n) = READY then remove1 p (w_registry w) else w_registry w)\<rparr>"

lemma onStop_wp:
  assumes inv: "sv_inv w" and n: "w_nodes w p = Some n" and r: "knownReason r"
    and Q: "\<And>m. tm_ok m \<Longrightarrow> issued m = issued (w_timers w) \<Longrightarrow>
      pending m = pending (w_timers w) - tx_timers (n_transaction n) \<Longrightarrow> Q False (after_stop p n w m)"
  shows "wp F (CTransaction_onStop p r) Q w"
proof -
  define t where "t = n_transaction n"
  have tx: "txs w p = Some t" using n by (simp add: txs_def t_def)
  note ok = tx_ok_parts [OF sv_invD(3) [OF inv tx]]
  have reg: "reg_ok w" and tm: "tm_ok (w_timers w)" using inv by (auto simp: sv_inv_def)
  have inR: "firstByte (t_sessionId t) \<noteq> 0 \<Longrightarrow> p \<in> set (w_registry w) \<and> inj_on (sessionKey w) (set (w_registry w))"
    using reg tx ok(3) by (auto simp: reg_ok_def ready_def)
  define T where "T = t\<lparr>t_status := OVER, t_keepLiveTimerId := 0, t_mapSeq2Timer := []\<rparr>"
  have fin: "T\<lparr>t_sessionId := zeros Size_SESSION_ID, t_build := 0, t_lastUpdate := 0, t_id := 0,
      t_heartbeat := False, t_seqCounter := 0\<rparr> = stopped"
    by (simp add: T_def stopped_def CTransaction_new_def)
  have a: "wp F (stopSession p) (\<lambda>_. wp F (updTx p (\<lambda>t. t\<lparr>t_build := 0, t_lastUpdate := 0, t_id := 0,
      t_heartbeat := False, t_seqCounter := 0\<rparr>)) (\<lambda>_. Q False))
      (w\<lparr>w_timers := m, w_nodes := (w_nodes w)(p \<mapsto> n\<lparr>n_transaction := T\<rparr>)\<rparr>)" (is "wp F _ ?Q ?w")
    if m: "tm_ok m" "issued m = issued (w_timers w)" "pending m = pending (w_timers w) - tx_timers t" for m
  proof (rule wp_stopSession [where n = "n\<lparr>n_transaction := T\<rparr>" and s = "t_sessionId t"], goal_cases)
    case 4
    have "sessionKey ?w = sessionKey w" using n by (auto simp: sessionKey_def t_def T_def)
    then show ?case using inR 4 by simp
  next
    case 5
    have "w\<lparr>w_timers := m,
       w_registry := (if firstByte (t_sessionId t) \<noteq> 0 then remove1 p (w_registry w) else w_registry w),
       w_nodes := (w_nodes w)(p \<mapsto> n\<lparr>n_transaction := stopped\<rparr>)\<rparr> = after_stop p n w m"
      using ok(3) by (auto simp: after_stop_def t_def [symmetric])
    then show ?case using Q [OF m [unfolded t_def]] fin by (simp add: wp_simps cong: if_cong split del: if_split)
  qed (use ok(3) in \<open>auto simp: T_def\<close>)
  define S where "S = (\<lambda>_ :: unit. wp F (stopSession p) (\<lambda>_. wp F (updTx p (\<lambda>t. t\<lparr>t_build := 0,
    t_lastUpdate := 0, t_id := 0, t_heartbeat := False, t_seqCounter := 0\<rparr>)) (\<lambda>_. Q False)))"
  have b: "wp F (stopAckTimers p) S
      (w\<lparr>w_timers := m, w_nodes := (w_nodes w)(p \<mapsto> n\<lparr>n_transaction := t\<lparr>t_status := OVER, t_keepLiveTimerId := 0\<rparr>\<rparr>)\<rparr>)"
    if m: "tm_ok m" "issued m = issued (w_timers w)" "pending m = pending (w_timers w) - ({t_keepLiveTimerId t} - {0})" for m
    by (rule wp_stopAckTimers [where n = "n\<lparr>n_transaction := t\<lparr>t_status := OVER, t_keepLiveTimerId := 0\<rparr>\<rparr>"])
      (use ok(2) a m in \<open>auto simp: T_def S_def tx_timers_def Diff_Un [symmetric] Un_Diff set_diff_eq\<close>)
  have "wp F (stopKeepLive p) (\<lambda>_. wp F (stopAckTimers p) S)
      (w\<lparr>w_nodes := (w_nodes w)(p \<mapsto> n\<lparr>n_transaction := t\<lparr>t_status := OVER\<rparr>\<rparr>)\<rparr>)"
    by (rule wp_stopKeepLive [where n = "n\<lparr>n_transaction := t\<lparr>t_status := OVER\<rparr>\<rparr>"])
      (use ok(1) tm b in auto)
  then show ?thesis
    by (simp only: CTransaction_onStop_def wp_thenM wp_updTx n option.case wp_assertM r if_True wp_retM S_def t_def)
qed

lemma txs_upd [simp]:
  "txs (w\<lparr>w_nodes := (w_nodes w)(p \<mapsto> n)\<rparr>) = (txs w)(p \<mapsto> n_transaction n)"
  by (simp add: txs_def fun_eq_iff)

lemma txs_env [simp]:
  "txs (w\<lparr>w_timers := m\<rparr>) = txs w" "txs (w\<lparr>w_registry := r\<rparr>) = txs w" "txs (w\<lparr>w_ticks := k\<rparr>) = txs w"
  "txs (w\<lparr>w_out := o1\<rparr>) = txs w" "txs (w\<lparr>w_wire := wi\<rparr>) = txs w" "txs (w\<lparr>w_redis := rd\<rparr>) = txs w"
  "txs (w\<lparr>w_groups := gs\<rparr>) = txs w"
  by (simp_all add: txs_def fun_eq_iff)

lemma sessionKey_env [simp]:
  "sessionKey (w\<lparr>w_timers := m\<rparr>) = sessionKey w" "sessionKey (w\<lparr>w_registry := r\<rparr>) = sessionKey w"
  "sessionKey (w\<lparr>w_ticks := k\<rparr>) = sessionKey w" "sessionKey (w\<lparr>w_out := o1\<rparr>) = sessionKey w"
  "sessionKey (w\<lparr>w_wire := wi\<rparr>) = sessionKey w" "sessionKey (w\<lparr>w_redis := rd\<rparr>) = sessionKey w"
  "sessionKey (w\<lparr>w_groups := gs\<rparr>) = sessionKey w"
  by (simp_all add: sessionKey_txs fun_eq_iff)

lemma ready_env [simp]:
  "ready (w\<lparr>w_timers := m\<rparr>) = ready w" "ready (w\<lparr>w_registry := r\<rparr>) = ready w" "ready (w\<lparr>w_ticks := k\<rparr>) = ready w"
  "ready (w\<lparr>w_out := o1\<rparr>) = ready w" "ready (w\<lparr>w_wire := wi\<rparr>) = ready w" "ready (w\<lparr>w_redis := rd\<rparr>) = ready w"
  "ready (w\<lparr>w_groups := gs\<rparr>) = ready w"
  by (simp_all add: ready_def)

lemma sv_inv_env [simp]:
  "sv_inv (w\<lparr>w_ticks := k\<rparr>) = sv_inv w" "sv_inv (w\<lparr>w_out := o1\<rparr>) = sv_inv w"
  "sv_inv (w\<lparr>w_wire := wi\<rparr>) = sv_inv w" "sv_inv (w\<lparr>w_redis := rd\<rparr>) = sv_inv w"
  "sv_inv (w\<lparr>w_groups := gs\<rparr>) = sv_inv w"
  by (simp_all add: sv_inv_def reg_ok_def)

lemma handled_env [simp]:
  "handled p w (w'\<lparr>w_ticks := k\<rparr>) = handled p w w'" "handled p w (w'\<lparr>w_out := o1\<rparr>) = handled p w w'"
  "handled p w (w'\<lparr>w_wire := wi\<rparr>) = handled p w w'" "handled p w (w'\<lparr>w_redis := rd\<rparr>) = handled p w w'"
  "handled p w (w'\<lparr>w_registry := rg\<rparr>) = handled p w w'"
  by (simp_all add: handled_def)

section \<open>What a handler achieves\<close>

definition good :: "ub8_ \<Rightarrow> 'r world \<Rightarrow> bool \<Rightarrow> 'r world \<Rightarrow> bool" where
  "good p w ok w' \<longleftrightarrow> sv_inv w' \<and> handled p w w' \<and> (\<not> ok \<longrightarrow> txs w' p = Some stopped)"

lemma good_trans: "handled p w w1 \<Longrightarrow> good p w1 ok w2 \<Longrightarrow> good p w ok w2"
  by (auto simp: good_def intro: handled_trans)

lemma after_stop_good:
  assumes inv: "sv_inv w" and n: "w_nodes w p = Some n" and m: "tm_ok m" "issued m = issued (w_timers w)"
  shows "good p w False (after_stop p n w m)"
proof -
  let ?w = "after_stop p n w m"
  have tx: "txs w p = Some (n_transaction n)" using n by (simp add: txs_def)
  have txs': "txs ?w = (txs w)(p \<mapsto> stopped)" using n by (simp add: after_stop_def txs_def fun_eq_iff)
  have st: "t_status stopped = OVER" by (simp add: stopped_def)
  have rd: "ready ?w = ready w - {p}" by (auto simp: ready_def txs' st)
  have key: "q \<noteq> p \<Longrightarrow> sessionKey ?w q = sessionKey w q" for q by (simp add: sessionKey_txs txs')
  have reg: "reg_ok w" using inv by (simp add: sv_inv_def)
  have "p \<in> ready w \<longleftrightarrow> t_status (n_transaction n) = READY" using tx by (simp add: ready_def)
  then have "w_registry ?w = (if p \<in> ready w then remove1 p (w_registry w) else w_registry w)"
    by (simp add: after_stop_def)
  then have "distinct (w_registry ?w)" "set (w_registry ?w) = ready ?w"
    using reg rd by (auto simp: reg_ok_def)
  moreover have "inj_on (sessionKey ?w) (ready ?w)"
    using reg key rd by (fastforce simp: reg_ok_def inj_on_def)
  ultimately have "reg_ok ?w" by (simp add: reg_ok_def)
  then have "sv_inv ?w"
    using inv m txs' by (intro sv_inv_upd [OF inv, of ?w p stopped]) (auto simp: after_stop_def tx_ok_def stopped_def)
  then show ?thesis using n m txs' by (auto simp: good_def handled_def after_stop_def n_fixed_def)
qed

lemma onStop_good:
  assumes "sv_inv w" and "w_nodes w p = Some n" and "knownReason r"
  shows "wp F (CTransaction_onStop p r) (good p w) w"
  by (rule onStop_wp [OF assms]) (rule after_stop_good [OF assms(1,2)])

lemma knownReason_code: "knownReason (reason_code r) \<longleftrightarrow> r \<in> stopReasons"
  by (cases r) (auto simp: knownReason_def stopReasons_def reason_code_def)

lemma good_ticks: "good p (w\<lparr>w_ticks := k\<rparr>) ok w' = good p w ok w'"
  by (simp add: good_def handled_def)

lemma over_good:
  assumes "sv_inv w" and "w_nodes w p = Some n" and "r \<in> stopReasons"
  shows "wp F (CTransaction_over e p r False) (good p w) w"
proof -
  have "wp F (CTransaction_onStop p (reason_code r)) (good p w) (w\<lparr>w_ticks := Suc (w_ticks w)\<rparr>)"
    using onStop_good [of "w\<lparr>w_ticks := Suc (w_ticks w)\<rparr>" p n "reason_code r" F] assms
    by (simp add: knownReason_code good_ticks [abs_def])
  then show ?thesis by (simp add: CTransaction_over_def wp_simps overMsg_def Let_def)
qed

lemma over_unknown:
  assumes "w_nodes w p = Some n" and "r \<notin> stopReasons" and "F AssertFail"
  shows "wp F (CTransaction_over e p r False) Q w"
  using assms by (simp add: CTransaction_over_def CTransaction_onStop_def wp_simps overMsg_def Let_def knownReason_code)

section \<open>Sending\<close>

abbreviation any_fault :: "fault \<Rightarrow> bool" where
  "any_fault \<equiv> \<lambda>_. True"

lemma wp_CNode_send:
  assumes "w_nodes w p = Some n" and "\<And>ok o1 wi. Q ok (w\<lparr>w_out := o1, w_wire := wi\<rparr>)"
  shows "wp any_fault (CNode_send p msg) Q w"
  using assms
  by (auto simp: CNode_send_def wp_def bindM_def getNode_def Let_def bindR_def split: sum.splits)

lemma wp_send_noAck:
  assumes "w_nodes w p = Some n" and "\<And>ok k o1 wi. Q ok (w\<lparr>w_ticks := k, w_out := o1, w_wire := wi\<rparr>)"
  shows "wp any_fault (CTransaction_send e p msg False) Q w"
  using assms by (auto simp: CTransaction_send_def wp_simps intro!: wp_CNode_send)

definition kept :: "ub8_ \<Rightarrow> 'r world \<Rightarrow> 'r world \<Rightarrow> bool" where
  "kept p w w' \<longleftrightarrow> sv_inv w' \<and> handled p w w' \<and>
     map_option t_status (txs w' p) = map_option t_status (txs w p) \<and>
     map_option t_sessionId (txs w' p) = map_option t_sessionId (txs w p)"

lemma kept_good: "kept p w w' \<Longrightarrow> good p w True w'"
  by (simp add: kept_def good_def)

lemma kept_refl: "sv_inv w \<Longrightarrow> w_nodes w p = Some n \<Longrightarrow> kept p w w"
  by (simp add: kept_def handled_refl)

lemma kept_trans: "kept p w w1 \<Longrightarrow> kept p w1 w2 \<Longrightarrow> kept p w w2"
  by (auto simp: kept_def intro: handled_trans)

lemma kept_node: "kept p w w' \<Longrightarrow> \<exists>n'. w_nodes w' p = Some n'"
  by (auto simp: kept_def handled_def)

lemma kept_env [simp]:
  "kept p w (w'\<lparr>w_ticks := k\<rparr>) = kept p w w'" "kept p w (w'\<lparr>w_out := o1\<rparr>) = kept p w w'"
  "kept p w (w'\<lparr>w_wire := wi\<rparr>) = kept p w w'" "kept p w (w'\<lparr>w_redis := rd\<rparr>) = kept p w w'"
  by (simp_all add: kept_def)

lemma kept_env_left [simp]:
  "kept p (w\<lparr>w_ticks := k\<rparr>) w' = kept p w w'" "kept p (w\<lparr>w_out := o1\<rparr>) w' = kept p w w'"
  "kept p (w\<lparr>w_wire := wi\<rparr>) w' = kept p w w'" "kept p (w\<lparr>w_redis := rd\<rparr>) w' = kept p w w'"
  by (simp_all add: kept_def handled_def)

text \<open>The parts of the state that the invariant and the frame conditions speak about.\<close>

definition same_core :: "'r world \<Rightarrow> 'r world \<Rightarrow> bool" where
  "same_core w w' \<longleftrightarrow>
     w_nodes w' = w_nodes w \<and> w_timers w' = w_timers w \<and> w_registry w' = w_registry w \<and>
     map g_fixed (w_groups w') = map g_fixed (w_groups w) \<and> w_res w' = w_res w \<and>
     w_nodeQueue w' = w_nodeQueue w \<and> w_curGroupIndex w' = w_curGroupIndex w \<and>
     w_running w' = w_running w \<and> w_listenFd w' = w_listenFd w \<and> w_in w' = w_in w \<and>
     w_accepts w' = w_accepts w \<and> w_epollCtl w' = w_epollCtl w \<and> w_clock w' = w_clock w"

lemma same_core_refl: "same_core w w"
  by (simp add: same_core_def)

lemma same_core_trans: "same_core w w1 \<Longrightarrow> same_core w1 w2 \<Longrightarrow> same_core w w2"
  by (simp add: same_core_def)

lemma sv_inv_core:
  assumes "same_core w w'"
  shows "sv_inv w' \<longleftrightarrow> sv_inv w"
proof -
  have "txs w' = txs w" using assms by (simp add: same_core_def txs_def fun_eq_iff)
  then show ?thesis using assms by (simp add: sv_inv_def reg_ok_def ready_def sessionKey_txs inj_on_def same_core_def)
qed

lemma kept_core: "kept p w w1 \<Longrightarrow> same_core w1 w2 \<Longrightarrow> kept p w w2"
  using sv_inv_core [of w1 w2] by (auto simp: kept_def handled_def same_core_def txs_def)

lemma good_core: "good p w ok w1 \<Longrightarrow> same_core w1 w2 \<Longrightarrow> good p w ok w2"
  using sv_inv_core [of w1 w2] by (auto simp: good_def handled_def same_core_def txs_def)

lemma sv_inv_tx:
  "sv_inv w \<Longrightarrow> w_nodes w p = Some n \<Longrightarrow> tx_ok (issued (w_timers w)) (n_transaction n)"
  by (rule sv_invD(3) [of w p]) (simp_all add: txs_def)

text \<open>Changing the fields of a transaction that are neither its status nor its session.\<close>

lemma kept_upd:
  assumes inv: "sv_inv w" and n: "w_nodes w p = Some n" and m: "tm_ok m" "issued (w_timers w) \<subseteq> issued m"
    and st: "t_status t = t_status (n_transaction n)" "t_sessionId t = t_sessionId (n_transaction n)"
    and ok: "tx_ok (issued m) t"
  shows "kept p w (w\<lparr>w_timers := m, w_nodes := (w_nodes w)(p \<mapsto> n\<lparr>n_transaction := t\<rparr>)\<rparr>)"
proof -
  let ?w = "w\<lparr>w_timers := m, w_nodes := (w_nodes w)(p \<mapsto> n\<lparr>n_transaction := t\<rparr>)\<rparr>"
  have tx: "txs w p = Some (n_transaction n)" using n by (simp add: txs_def)
  have txs': "txs ?w = (txs w)(p \<mapsto> t)" by (simp add: txs_def fun_eq_iff)
  have "reg_ok ?w" by (rule reg_ok_same [OF sv_invD(2) [OF inv] tx txs' st]) simp
  then have "sv_inv ?w" using m ok txs' by (intro sv_inv_upd [OF inv]) auto
  then show ?thesis using n m st tx txs' by (auto simp: kept_def handled_def n_fixed_def)
qed

lemma kept_upd_tx:
  assumes "sv_inv w" and "w_nodes w p = Some n"
    and "t_status t = t_status (n_transaction n)" "t_sessionId t = t_sessionId (n_transaction n)"
    and "tx_ok (issued (w_timers w)) t"
  shows "kept p w (w\<lparr>w_nodes := (w_nodes w)(p \<mapsto> n\<lparr>n_transaction := t\<rparr>)\<rparr>)"
  using kept_upd [OF assms(1,2) sv_invD(1) [OF assms(1)] order.refl assms(3-5)] by simp

text \<open>A READY transaction stays well-formed under the updates of its handlers.\<close>

lemma tx_ok_READY:
  "tx_ok ids t \<Longrightarrow> t_status t = READY \<Longrightarrow> tx_ok ids (t\<lparr>t_seqCounter := s\<rparr>)"
  "tx_ok ids t \<Longrightarrow> t_status t = READY \<Longrightarrow> tx_ok ids (t\<lparr>t_heartbeat := b\<rparr>)"
  "tx_ok ids t \<Longrightarrow> t_status t = READY \<Longrightarrow> tx_ok ids (t\<lparr>t_lastUpdate := u\<rparr>)"
  "tx_ok ids t \<Longrightarrow> t_status t = READY \<Longrightarrow> k \<in> insert 0 ids \<Longrightarrow> tx_ok ids (t\<lparr>t_keepLiveTimerId := k\<rparr>)"
  "tx_ok ids t \<Longrightarrow> t_status t = READY \<Longrightarrow> snd ` set mp \<subseteq> ids \<Longrightarrow> tx_ok ids (t\<lparr>t_mapSeq2Timer := mp\<rparr>)"
  by (simp_all add: tx_ok_def)

lemma snd_mapPut: "snd ` set (mapPut k v mp) \<subseteq> insert v (snd ` set mp)"
  by (induction k v mp rule: mapPut.induct) auto

lemma snd_mapDel: "snd ` set (mapDel k mp) \<subseteq> snd ` set mp"
  by (auto simp: mapDel_def)

lemma kept_status:
  assumes "kept p w w'" and "w_nodes w p = Some n" and "w_nodes w' p = Some n'"
  shows "t_status (n_transaction n') = t_status (n_transaction n)"
    and "t_sessionId (n_transaction n') = t_sessionId (n_transaction n)"
    and "tx_ok (issued (w_timers w')) (n_transaction n')"
  using assms by (auto simp: kept_def txs_def sv_inv_def)

lemma wp_armAckTimer:
  assumes inv: "sv_inv w" and n: "w_nodes w p = Some n" and st: "t_status (n_transaction n) = READY"
  shows "wp any_fault (armAckTimer e p seq) (\<lambda>ok w'. kept p w w') w"
proof -
  have tx: "tx_ok (issued (w_timers w)) (n_transaction n)" by (rule sv_inv_tx [OF inv n])
  have no: "wp any_fault (CTransaction_over e p NO_MORE_TIMER False) Q w1" if "w_nodes w1 p = Some n" for Q w1
    by (rule over_unknown [OF that]) (simp_all add: stopReasons_def)
  show ?thesis unfolding armAckTimer_def wp_bindM
  proof (rule wp_setTimerM [OF sv_invD(1) [OF inv]])
    fix u m k
    assume m: "tm_ok m" "u = 0 \<and> m = w_timers w \<or> u \<noteq> 0 \<and> u \<notin> pending (w_timers w) \<and>
      pending m = insert u (pending (w_timers w)) \<and> issued m = insert u (issued (w_timers w))"
    let ?t = "(n_transaction n)\<lparr>t_mapSeq2Timer := mapPut seq u (t_mapSeq2Timer (n_transaction n))\<rparr>"
    have "kept p w (w\<lparr>w_timers := m, w_nodes := (w_nodes w)(p \<mapsto> n\<lparr>n_transaction := ?t\<rparr>)\<rparr>)" if "u \<noteq> 0"
    proof (rule kept_upd [OF inv n m(1)])
      have "snd ` set (mapPut seq u (t_mapSeq2Timer (n_transaction n))) \<subseteq> issued m"
        using snd_mapPut [of seq u] tx_ok_parts(2) [OF tx] that m(2) by auto
      then show "tx_ok (issued m) ?t"
        using tx_ok_mono [OF tx, of "issued m"] st m(2) that by (intro tx_ok_READY(5)) auto
    qed (use that m(2) in auto)
    then have "kept p w (w\<lparr>w_timers := m, w_ticks := k, w_nodes := (w_nodes w)(p \<mapsto> n\<lparr>n_transaction := ?t\<rparr>)\<rparr>)" if "u \<noteq> 0"
      using that by (elim meta_mp [THEN kept_core]) (simp_all add: same_core_def)
    then show "wp any_fault (if u \<noteq> 0
        then thenM (updTx p (\<lambda>t. t\<lparr>t_mapSeq2Timer := mapPut seq u (t_mapSeq2Timer t)\<rparr>)) (retM True)
        else CTransaction_over e p NO_MORE_TIMER False) (\<lambda>ok w'. kept p w w') (w\<lparr>w_timers := m, w_ticks := k\<rparr>)"
      using n no [of "w\<lparr>w_timers := m, w_ticks := k\<rparr>"] by (simp add: wp_simps)
  qed
qed

lemma wp_send_ack:
  assumes inv: "sv_inv w" and n: "w_nodes w p = Some n" and st: "t_status (n_transaction n) = READY"
  shows "wp any_fault (CTransaction_send e p msg True) (\<lambda>ok w'. kept p w w') w"
proof -
  define s where "s = nextSeq (t_seqCounter (n_transaction n))"
  define n1 where "n1 = n\<lparr>n_transaction := (n_transaction n)\<lparr>t_seqCounter := s\<rparr>\<rparr>"
  define w1 where "w1 = w\<lparr>w_ticks := Suc (w_ticks w), w_nodes := (w_nodes w)(p \<mapsto> n1)\<rparr>"
  have "kept p (w\<lparr>w_ticks := Suc (w_ticks w)\<rparr>) w1"
    using kept_upd_tx [of "w\<lparr>w_ticks := Suc (w_ticks w)\<rparr>" p n "(n_transaction n)\<lparr>t_seqCounter := s\<rparr>"]
      inv n st tx_ok_READY(1) [OF sv_inv_tx [OF inv n] st]
    by (simp add: w1_def n1_def)
  then have k1: "kept p w w1" by simp
  have "wp any_fault (CNode_send p m)
      (\<lambda>ret. wp any_fault (if ret then armAckTimer e p s else retM ret) (\<lambda>ok w'. kept p w w')) w1" for m
  proof (rule wp_CNode_send)
    show "w_nodes w1 p = Some n1" by (simp add: w1_def)
    fix ret o1 wi
    let ?w = "w1\<lparr>w_out := o1, w_wire := wi\<rparr>"
    have k: "kept p w ?w" using k1 by simp
    have "wp any_fault (armAckTimer e p s) (\<lambda>ok w'. kept p ?w w') ?w"
      by (rule wp_armAckTimer [where n = n1]) (use k st in \<open>simp_all add: kept_def w1_def n1_def\<close>)
    then show "wp any_fault (if ret then armAckTimer e p s else retM ret) (\<lambda>ok w'. kept p w w') ?w"
      using k by (cases ret) (auto simp: wp_retM elim!: wp_mono intro: kept_trans)
  qed
  then show ?thesis
    by (simp add: CTransaction_send_def wp_simps n s_def w1_def n1_def cong: if_cong)
qed

section \<open>Redis operations leave the server's own state alone\<close>

definition core_only :: "('r, 'a) handler \<Rightarrow> bool" where
  "core_only m \<longleftrightarrow> (\<forall>w. wp any_fault m (\<lambda>_ w'. same_core w w') w)"

named_theorems core_intros \<open>handlers that change neither transactions nor queues\<close>

lemma core_bind [core_intros]: "core_only m \<Longrightarrow> (\<And>x. core_only (f x)) \<Longrightarrow> core_only (bindM m f)"
  unfolding core_only_def wp_bindM by (blast intro: wp_mono same_core_trans)

lemma core_then [core_intros]: "core_only m \<Longrightarrow> core_only k \<Longrightarrow> core_only (thenM m k)"
  unfolding thenM_def by (intro core_bind)

lemma core_ret [core_intros]: "core_only (retM x)"
  by (simp add: core_only_def wp_simps same_core_refl)

lemma core_fail [core_intros]: "core_only (failM f)"
  by (simp add: core_only_def wp_simps)

lemma core_assert [core_intros]: "core_only (assertM b)"
  by (simp add: core_only_def wp_simps same_core_refl)

lemma core_lift [core_intros]: "core_only (liftR r)"
  by (simp add: core_only_def wp_simps same_core_refl split: sum.splits)

lemma core_gets [core_intros]: "core_only (getsM f)"
  by (simp add: core_only_def wp_simps same_core_refl)

lemma core_getGroup [core_intros]: "core_only (getGroup g)"
  by (simp add: core_only_def wp_simps same_core_refl)

lemma core_groupOf [core_intros]: "core_only (groupOf p)"
  by (simp add: core_only_def wp_simps same_core_refl split: option.splits)

lemma core_getTx [core_intros]: "core_only (getTx p)"
  by (simp add: core_only_def wp_simps same_core_refl split: option.splits)

lemma core_now [core_intros]: "core_only CBase_now"
  by (simp add: core_only_def wp_simps same_core_def)

lemma core_command [core_intros]: "core_only (redisCommand e g args)"
  by (simp add: core_only_def wp_simps same_core_def)

lemma core_redisConnect [core_intros]: "core_only (redisConnect e g)"
  by (simp add: core_only_def wp_simps same_core_def)

lemma core_freeContext [core_intros]: "core_only (freeContext e g)"
  by (simp add: core_only_def wp_simps same_core_def)

lemma map_g_fixed_context:
  "map g_fixed (gs[g := (gs ! g)\<lparr>g_context := b\<rparr>]) = map g_fixed gs"
  by (cases "g < length gs") (simp_all add: map_update g_fixed_def list_update_same_conv list_update_beyond)

lemma core_setContext [core_intros]: "core_only (setContext g b)"
  by (simp add: core_only_def setContext_def wp_simps same_core_def map_g_fixed_context)

lemma core_if [core_intros]: "core_only m \<Longrightarrow> core_only k \<Longrightarrow> core_only (if b then m else k)"
  by simp

lemma core_for [core_intros]: "(\<And>x. core_only (f x)) \<Longrightarrow> core_only (forM xs f)"
  by (induction xs) (auto intro!: core_intros)

lemma core_errorHandler [core_intros]: "core_only rc \<Longrightarrow> core_only (errorHandler rc g r)"
  unfolding errorHandler_def by (intro core_intros) (auto intro!: core_intros split: option.splits reply.splits)

lemma core_connect_d: "core_only (CRedisOperator_connect_d e d g)"
proof (induction d)
  case (Suc d)
  then show ?case by (auto intro!: core_intros split: connectResult.splits)
qed (auto intro!: core_intros)

lemma core_connect [core_intros]: "core_only (CRedisOperator_connect e g)"
  by (simp add: CRedisOperator_connect_def core_connect_d)

lemma core_handler [core_intros]: "core_only (CRedisOperator_errorHandler e g r)"
  unfolding CRedisOperator_errorHandler_def by (intro core_intros)

lemma core_disconnect [core_intros]: "core_only (CRedisOperator_disconnect e g)"
  unfolding CRedisOperator_disconnect_def by (intro core_intros)

lemma core_context [core_intros]: "core_only (contextM g)"
  unfolding contextM_def by (intro core_intros)

lemma core_verify [core_intros]: "core_only (CRedisOperator_verifyHandshake e g s)"
  unfolding CRedisOperator_verifyHandshake_def
  by (intro core_intros) (auto intro!: core_intros split: option.splits reply.splits)

lemma core_member [core_intros]: "core_only (queueMember e g now mid m)"
  unfolding queueMember_def by (auto intro!: core_intros split: reply.splits)

lemma core_sendMessage [core_intros]: "core_only (CRedisOperator_sendMessage e g u msg mid)"
  unfolding CRedisOperator_sendMessage_def Let_def
  by (auto intro!: core_intros split: option.splits reply.splits)

lemma core_queries [core_intros]:
  "core_only (queryRecent e g u)" "core_only (querySince e g u l)" "core_only (replyStr r)"
  unfolding queryRecent_def querySince_def replyStr_def Let_def
  by (auto intro!: core_intros split: option.splits reply.splits)

lemma wp_core:
  "core_only m \<Longrightarrow> (\<And>x w'. same_core w w' \<Longrightarrow> Q x w') \<Longrightarrow> wp any_fault m Q w"
  unfolding core_only_def by (blast intro: wp_mono)

text \<open>A session that was verified is a non-empty C string.\<close>

lemma wp_verify:
  assumes "\<And>u w'. same_core w w' \<Longrightarrow> firstByte s \<noteq> 0 \<Longrightarrow> 0 \<in> set s \<Longrightarrow> Q u w'"
  shows "wp any_fault (CRedisOperator_verifyHandshake e g s) Q w"
proof (cases "firstByte s \<noteq> 0 \<and> 0 \<in> set s")
  case True
  then show ?thesis using assms by (intro wp_core core_intros) auto
next
  case False
  then show ?thesis
    by (auto simp: CRedisOperator_verifyHandshake_def contextM_def cstring_def wp_simps)
qed

section \<open>Every handler keeps the invariant\<close>

lemma kept_of_core: "sv_inv w \<Longrightarrow> w_nodes w p = Some n \<Longrightarrow> same_core w w' \<Longrightarrow> kept p w w'"
  by (rule kept_core [OF kept_refl])

lemma onHeartBeat_good:
  assumes inv: "sv_inv w" and n: "w_nodes w p = Some n"
  shows "wp F (CTransaction_onHeartBeat e p) (good p w) w"
proof (cases "t_status (n_transaction n) = READY")
  case True
  have "kept p w (w\<lparr>w_nodes := (w_nodes w)(p \<mapsto> n\<lparr>n_transaction := (n_transaction n)\<lparr>t_heartbeat := True\<rparr>\<rparr>)\<rparr>)"
    using tx_ok_READY(2) [OF sv_inv_tx [OF inv n] True] by (intro kept_upd_tx [OF inv n]) auto
  then show ?thesis using True n by (simp add: CTransaction_onHeartBeat_def wp_simps kept_good)
next
  case False
  then show ?thesis using n over_good [OF inv n, of WRONG_STATUS F e]
    by (simp add: CTransaction_onHeartBeat_def wp_simps stopReasons_def)
qed

lemma onSendMsg_good:
  assumes inv: "sv_inv w" and n: "w_nodes w p = Some n"
  shows "wp any_fault (CTransaction_onSendMsg e p buf) (good p w) w"
proof (cases "t_status (n_transaction n) = READY")
  case True
  have s: "wp any_fault (CTransaction_send e p msg False) (\<lambda>_. good p w True) w1" if "same_core w w1" for msg w1
  proof -
    have k: "kept p w w1" by (rule kept_of_core [OF inv n that])
    then obtain n1 where "w_nodes w1 p = Some n1" using kept_node by blast
    then show ?thesis by (rule wp_send_noAck) (use k in \<open>simp add: kept_good\<close>)
  qed
  have "wp any_fault (CTransaction_onSendMsg e p buf) (good p w) w \<longleftrightarrow>
      wp any_fault CBase_now (\<lambda>now. wp any_fault (groupOf p) (\<lambda>g.
        wp any_fault (CRedisOperator_sendMessage e g (t_id (n_transaction n)) buf (e_junk e)) (\<lambda>(ok, mid).
          wp any_fault (CTransaction_send e p (TPDUSendMsgAck_bytes
            \<lparr>sma_header = (THeader_at buf)\<lparr>hd_size := of_nat sizeof_TPDUSendMsgAck,
                hd_type := hd_type (THeader_at buf) OR MT_SIGN_ACK, hd_stmp := now\<rparr>,
             sma_code = (if ok then 0 else reason_code NO_DESTINATION_FOUND), sma_messageId = mid\<rparr>) False)
            (\<lambda>_. good p w True)))) w"
    using True n by (simp add: CTransaction_onSendMsg_def wp_bindM wp_thenM wp_retM wp_getTx Let_def case_prod_unfold)
  moreover have "\<dots>"
    by (rule wp_core, rule core_now, rule wp_core, rule core_groupOf, rule wp_core, rule core_sendMessage)
      (auto intro!: s intro: same_core_trans)
  ultimately show ?thesis by simp
next
  case False
  then show ?thesis using n over_good [OF inv n, of WRONG_STATUS any_fault e]
    by (simp add: CTransaction_onSendMsg_def wp_simps stopReasons_def Let_def)
qed

lemma onPushMsg_good:
  assumes inv: "sv_inv w" and n: "w_nodes w p = Some n"
  shows "wp any_fault (CTransaction_onPushMsg e p buf) (good p w) w"
proof (cases "t_status (n_transaction n) = READY")
  case True
  let ?t = "n_transaction n" and ?seq = "hd_seq (pma_header (TPDUPushMsgAck_at buf))"
  have tx: "tx_ok (issued (w_timers w)) ?t" by (rule sv_inv_tx [OF inv n])
  show ?thesis
  proof (cases "map_of (t_mapSeq2Timer ?t) ?seq")
    case None
    then show ?thesis using True n kept_good [OF kept_refl [OF inv n]]
      by (simp add: CTransaction_onPushMsg_def wp_simps Let_def)
  next
    case (Some u)
    have "u \<in> issued (w_timers w)" using tx_ok_parts(2) [OF tx] map_of_SomeD [OF Some] by force
    then have "wp any_fault (killTimerM u) (\<lambda>_. wp any_fault
        (updTx p (\<lambda>t. t\<lparr>t_mapSeq2Timer := mapDel ?seq (t_mapSeq2Timer t)\<rparr>)) (\<lambda>_. good p w True)) w"
    proof (rule wp_killTimerM [OF sv_invD(1) [OF inv]])
      fix m assume m: "tm_ok m" "issued m = issued (w_timers w)"
      have "kept p w (w\<lparr>w_timers := m, w_nodes := (w_nodes w)(p \<mapsto>
          n\<lparr>n_transaction := ?t\<lparr>t_mapSeq2Timer := mapDel ?seq (t_mapSeq2Timer ?t)\<rparr>\<rparr>)\<rparr>)"
        using tx order.trans [OF snd_mapDel tx_ok_parts(2) [OF tx]] True m
        by (intro kept_upd [OF inv n m(1)] tx_ok_READY(5)) auto
      then show "wp any_fault (updTx p (\<lambda>t. t\<lparr>t_mapSeq2Timer := mapDel ?seq (t_mapSeq2Timer t)\<rparr>))
          (\<lambda>_. good p w True) (w\<lparr>w_timers := m\<rparr>)"
        using n by (simp add: wp_simps kept_good)
    qed
    then show ?thesis using True n Some by (simp add: CTransaction_onPushMsg_def wp_simps Let_def)
  qed
next
  case False
  then show ?thesis using n over_good [OF inv n, of WRONG_STATUS any_fault e]
    by (simp add: CTransaction_onPushMsg_def wp_simps stopReasons_def Let_def)
qed

lemma onTimer_good:
  assumes inv: "sv_inv w" and n: "w_nodes w p = Some n"
  shows "wp any_fault (CTransaction_onTimer e p buf) (good p w) w"
proof -
  let ?t = "n_transaction n"
  have r: "good p w True w" by (rule kept_good [OF kept_refl [OF inv n]])
  have o: "wp any_fault (CTransaction_over e p TIME_OUT False) (good p w) w"
    by (rule over_good [OF inv n]) (simp add: stopReasons_def)
  have h: "wp any_fault (CTransaction_send e p (TPDUHeartBeat_bytes (heartBeatMsg e)) False)
      (\<lambda>_. wp any_fault (updTx p (\<lambda>t. t\<lparr>t_heartbeat := False\<rparr>)) (\<lambda>_. good p w True)) w"
    if st: "t_status ?t = READY"
  proof (rule wp_send_noAck [OF n])
    fix ok k o1 wi
    have "kept p w (w\<lparr>w_nodes := (w_nodes w)(p \<mapsto> n\<lparr>n_transaction := ?t\<lparr>t_heartbeat := False\<rparr>\<rparr>)\<rparr>)"
      using tx_ok_READY(2) [OF sv_inv_tx [OF inv n] st] by (intro kept_upd_tx [OF inv n]) auto
    from kept_core [OF this, of "w\<lparr>w_ticks := k, w_out := o1, w_wire := wi,
        w_nodes := (w_nodes w)(p \<mapsto> n\<lparr>n_transaction := ?t\<lparr>t_heartbeat := False\<rparr>\<rparr>)\<rparr>"]
    show "wp any_fault (updTx p (\<lambda>t. t\<lparr>t_heartbeat := False\<rparr>)) (\<lambda>_. good p w True)
        (w\<lparr>w_ticks := k, w_out := o1, w_wire := wi\<rparr>)"
      using n by (simp add: wp_simps kept_good same_core_def)
  qed
  show ?thesis using n r o h
    by (auto simp: CTransaction_onTimer_def wp_simps Let_def split: option.splits)
qed

lemma handlePush_kept:
  assumes inv: "sv_inv w" and n: "w_nodes w p = Some n" and st: "t_status (n_transaction n) = READY"
  shows "wp any_fault (CTransaction_handlePushMessage e p a b c d json len ts) (\<lambda>_. kept p w) w"
proof -
  have u: "wp any_fault (updTx p (\<lambda>t. t\<lparr>t_lastUpdate := ts\<rparr>)) (\<lambda>_. kept p w) w1" if k: "kept p w w1" for w1
  proof -
    obtain n1 where n1: "w_nodes w1 p = Some n1" using kept_node [OF k] by blast
    have "kept p w1 (w1\<lparr>w_nodes := (w_nodes w1)(p \<mapsto> n1\<lparr>n_transaction := (n_transaction n1)\<lparr>t_lastUpdate := ts\<rparr>\<rparr>)\<rparr>)"
      using k kept_status [OF k n n1] st by (intro kept_upd_tx n1 tx_ok_READY(3)) (auto simp: kept_def)
    then show ?thesis using n1 kept_trans [OF k] by (simp add: wp_simps)
  qed
  let ?w = "w\<lparr>w_ticks := Suc (w_ticks w)\<rparr>"
  have "wp any_fault (CTransaction_send e p msg True) (\<lambda>ret. wp any_fault
      (if ret then updTx p (\<lambda>t. t\<lparr>t_lastUpdate := ts\<rparr>) else retM ()) (\<lambda>_. kept p w)) ?w" for msg
    by (rule wp_mono [OF wp_send_ack [of ?w p n]]) (use inv n st u in \<open>auto simp: wp_simps\<close>)
  then show ?thesis by (simp add: CTransaction_handlePushMessage_def wp_simps Let_def)
qed

lemma pushStored_kept:
  assumes inv: "sv_inv w" and n: "w_nodes w p = Some n" and st: "t_status (n_transaction n) = READY"
  shows "wp any_fault (pushStored e g (CTransaction_handlePushMessage e p) mid stamp) (\<lambda>_. kept p w) w"
proof -
  have c: "kept p w w1" if "same_core w w1" for w1 by (rule kept_of_core [OF inv n that])
  have push: "wp any_fault (CTransaction_handlePushMessage e p a b c d json len ts) (\<lambda>_. kept p w) w1"
    if sc: "same_core w w1" for a b c d json len ts w1
  proof -
    obtain n1 where n1: "w_nodes w1 p = Some n1" using kept_node [OF c [OF sc]] by blast
    have "sv_inv w1" using c [OF sc] by (simp add: kept_def)
    then show ?thesis
      by (rule wp_mono [OF handlePush_kept [OF _ n1]])
        (use kept_status [OF c [OF sc] n n1] st kept_trans [OF c [OF sc]] in auto)
  qed
  show ?thesis
    unfolding pushStored_def wp_bindM
    apply (rule wp_core [OF core_command])
    apply (rule wp_core [OF core_handler])
    apply (auto simp: wp_simps replyStr_def c dest: same_core_trans split: option.splits reply.splits list.splits
        intro!: push intro: same_core_trans)
    done
qed

lemma pushAll_kept:
  assumes "sv_inv w" and "w_nodes w p = Some n" and "t_status (n_transaction n) = READY"
  shows "wp any_fault (pushAll e g (CTransaction_handlePushMessage e p) els) (\<lambda>_. kept p w) w"
  using assms
proof (induction els arbitrary: w n rule: induct_list012)
  case (3 a b els)
  show ?case
  proof (cases a; cases b)
    fix mid stamp assume ab: "a = R_String mid" "b = R_String stamp"
    have "wp any_fault (pushStored e g (CTransaction_handlePushMessage e p) mid stamp)
      (\<lambda>go. wp any_fault (if go then pushAll e g (CTransaction_handlePushMessage e p) els else retM False) (\<lambda>_. kept p w)) w"
    proof (rule wp_mono [OF pushStored_kept [OF 3(3-5)]])
      fix go w1 assume k: "kept p w w1"
      then obtain n1 where n1: "w_nodes w1 p = Some n1" using kept_node by blast
      have "wp any_fault (pushAll e g (CTransaction_handlePushMessage e p) els) (\<lambda>_. kept p w1) w1"
        using k kept_status [OF k 3(4) n1] 3(5) by (intro 3(1) [OF _ n1]) (auto simp: kept_def)
      then show "wp any_fault (if go then pushAll e g (CTransaction_handlePushMessage e p) els else retM False) (\<lambda>_. kept p w) w1"
        using k by (auto simp: wp_simps elim!: wp_mono intro: kept_trans)
    qed
    then show ?thesis by (simp add: ab wp_simps)
  qed (simp_all add: wp_simps)
qed (auto simp: wp_simps kept_refl)

lemma checkMessages_kept:
  assumes inv: "sv_inv w" and n: "w_nodes w p = Some n" and st: "t_status (n_transaction n) = READY"
  shows "wp any_fault (CRedisOperator_checkMessages e g (CTransaction_handlePushMessage e p) p) (\<lambda>_. kept p w) w"
proof -
  have c: "kept p w w1" if "same_core w w1" for w1 by (rule kept_of_core [OF inv n that])
  have push: "wp any_fault (pushAll e g (CTransaction_handlePushMessage e p) els) (\<lambda>_. kept p w) w1"
    if sc: "same_core w w1" for els w1
  proof -
    obtain n1 where n1: "w_nodes w1 p = Some n1" using kept_node [OF c [OF sc]] by blast
    have "sv_inv w1" using c [OF sc] by (simp add: kept_def)
    then show ?thesis
      by (rule wp_mono [OF pushAll_kept [OF _ n1]])
        (use kept_status [OF c [OF sc] n n1] st kept_trans [OF c [OF sc]] in auto)
  qed
  have "wp any_fault (case q of None \<Rightarrow> retM False | Some r \<Rightarrow>
      bindM (CRedisOperator_errorHandler e g r) (\<lambda>ok. if \<not> ok then retM False else case r of
          Some R_Nil \<Rightarrow> retM False | Some (R_Array els) \<Rightarrow> pushAll e g (CTransaction_handlePushMessage e p) els
        | _ \<Rightarrow> failM AssertFail)) (\<lambda>_. kept p w) w1" if "same_core w w1" for q w1
  proof (cases q)
    case (Some r)
    show ?thesis unfolding Some option.case wp_bindM
      apply (rule wp_core [OF core_handler])
      apply (use that in \<open>auto simp: wp_simps c dest: same_core_trans split: option.splits reply.splits
          intro!: push intro: same_core_trans\<close>)
      done
  qed (use c that in \<open>simp add: wp_simps\<close>)
  then show ?thesis
    unfolding CRedisOperator_checkMessages_def wp_bindM wp_thenM
    apply (intro wp_core [OF core_context] wp_core [OF core_now] wp_core [OF core_getTx] wp_core [OF core_assert])
    apply (rule wp_core)
    apply (auto intro!: core_intros) [1]
    apply (blast intro: same_core_trans)
    done
qed

lemma onCheck_kept:
  assumes "sv_inv w" and "w_nodes w p = Some n" and "t_status (n_transaction n) = READY"
  shows "wp any_fault (CTransaction_onCheck e p) (\<lambda>_. kept p w) w"
  using checkMessages_kept [OF assms] assms(2)
  by (auto simp: CTransaction_onCheck_def wp_simps split: option.splits)

section \<open>The handshake\<close>

lemma refuse_good:
  assumes inv: "sv_inv w" and n: "w_nodes w p = Some n" and r: "r \<in> stopReasons"
  shows "wp any_fault (refuse e p h r) (good p w) w"
proof -
  have "wp any_fault (CTransaction_over e p r False) (good p w) w1" if sc: "same_core w w1" for w1
  proof -
    have w1: "sv_inv w1" "w_nodes w1 p = Some n" using sv_inv_core [OF sc] inv n sc by (auto simp: same_core_def)
    have "handled p w w1" using kept_of_core [OF inv n sc] by (simp add: kept_def)
    then show ?thesis using over_good [OF w1 r, of any_fault e] by (auto elim!: wp_mono intro: good_trans)
  qed
  then show ?thesis
    unfolding refuse_def wp_thenM by (intro wp_send_noAck [OF n]) (simp add: same_core_def)
qed

text \<open>A registered session: the key was free, so the registry stays injective.\<close>

lemma reg_ok_register:
  assumes reg: "reg_ok w" and c: "txs w p = Some c" "t_status c \<noteq> READY"
    and tx: "txs w' = (txs w)(p \<mapsto> t)" "t_status t = READY" and r: "w_registry w' = p # w_registry w"
    and free: "\<forall>q \<in> set (w_registry w). sessionKey w q \<noteq> Some (cstr (t_sessionId t))"
  shows "reg_ok w'"
proof -
  have p: "p \<notin> ready w" using c by (auto simp: ready_def)
  have rd: "ready w' = insert p (ready w)" using tx by (auto simp: ready_def)
  have kp: "sessionKey w' p = Some (cstr (t_sessionId t))" using tx by (simp add: sessionKey_txs)
  have kq: "q \<noteq> p \<Longrightarrow> sessionKey w' q = sessionKey w q" for q using tx by (simp add: sessionKey_txs)
  have i: "inj_on (sessionKey w) (ready w)" and s: "set (w_registry w) = ready w" and d: "distinct (w_registry w)"
    using reg by (auto simp: reg_ok_def)
  have "inj_on (sessionKey w') (ready w) \<longleftrightarrow> inj_on (sessionKey w) (ready w)"
    by (rule inj_on_cong, rule kq) (use p in blast)
  then have "inj_on (sessionKey w') (ready w)" using i by simp
  moreover have "sessionKey w' p \<notin> sessionKey w' ` ready w"
    using free s kp kq p by (metis imageE)
  ultimately have "inj_on (sessionKey w') (insert p (ready w))" using p by simp
  then show ?thesis using rd r s d p by (simp add: reg_ok_def)
qed

lemma startHeartBeat_good:
  assumes inv: "sv_inv w" and n: "w_nodes w p = Some n" and st: "t_status (n_transaction n) = READY"
  shows "wp any_fault (startHeartBeat e p) (good p w) w"
proof -
  define n1 where "n1 = n\<lparr>n_transaction := (n_transaction n)\<lparr>t_heartbeat := True\<rparr>\<rparr>"
  define w1 where "w1 = w\<lparr>w_nodes := (w_nodes w)(p \<mapsto> n1)\<rparr>"
  have k1: "kept p w w1" unfolding w1_def n1_def
    by (rule kept_upd_tx [OF inv n]) (use tx_ok_READY(2) [OF sv_inv_tx [OF inv n] st] in auto)
  then have inv1: "sv_inv w1" by (simp add: kept_def)
  have n1: "w_nodes w1 p = Some n1" and st1: "t_status (n_transaction n1) = READY"
    using st by (simp_all add: w1_def n1_def)
  have "wp any_fault (setTimerM per p par 0) (\<lambda>u. wp any_fault (updTx p (\<lambda>t. t\<lparr>t_keepLiveTimerId := u\<rparr>))
      (\<lambda>_. wp any_fault (if u = 0 then CTransaction_over e p NO_MORE_TIMER False else retM True) (good p w))) w1"
    (is "wp any_fault _ ?Q w1") for per par
  proof (rule wp_setTimerM [OF sv_invD(1) [OF inv1]])
    fix u m k
    assume m: "tm_ok m" "u = 0 \<and> m = w_timers w1 \<or> u \<noteq> 0 \<and> u \<notin> pending (w_timers w1) \<and>
      pending m = insert u (pending (w_timers w1)) \<and> issued m = insert u (issued (w_timers w1))"
    let ?n2 = "n1\<lparr>n_transaction := (n_transaction n1)\<lparr>t_keepLiveTimerId := u\<rparr>\<rparr>"
    have "tx_ok (issued m) (n_transaction n1)"
      by (rule tx_ok_mono [OF sv_inv_tx [OF inv1 n1]]) (use m(2) in auto)
    then have "kept p w1 (w1\<lparr>w_timers := m, w_nodes := (w_nodes w1)(p \<mapsto> ?n2)\<rparr>)"
      using m st1 by (intro kept_upd [OF inv1 n1 m(1)] tx_ok_READY(4)) auto
    from kept_core [OF kept_trans [OF k1 this], of "w1\<lparr>w_timers := m, w_ticks := k, w_nodes := (w_nodes w1)(p \<mapsto> ?n2)\<rparr>"]
    have "good p w True (w1\<lparr>w_timers := m, w_ticks := k, w_nodes := (w_nodes w1)(p \<mapsto> ?n2)\<rparr>)"
      by (simp add: same_core_def kept_good)
    moreover have "wp any_fault (CTransaction_over e p NO_MORE_TIMER False) Q w2" if "w_nodes w2 p = Some ?n2" for w2 Q
      by (rule over_unknown [OF that]) (simp_all add: stopReasons_def)
    ultimately show "?Q u (w1\<lparr>w_timers := m, w_ticks := k\<rparr>)" using n1 by (simp add: wp_simps)
  qed
  then show ?thesis by (simp add: startHeartBeat_def wp_bindM wp_thenM wp_updTx n w1_def n1_def)
qed

lemma startReady_good:
  assumes n: "w_nodes w p = Some n"
    and tR: "tR = (n_transaction n)\<lparr>t_status := READY, t_lastUpdate := hs_lastUpdate msg\<rparr>"
    and wR: "wR = w\<lparr>w_nodes := (w_nodes w)(p \<mapsto> n\<lparr>n_transaction := tR\<rparr>)\<rparr>" and inv: "sv_inv wR"
  shows "wp any_fault (startReady e p msg) (good p wR) w"
proof -
  define nR where "nR = n\<lparr>n_transaction := tR\<rparr>"
  have nR: "w_nodes wR p = Some nR" "t_status (n_transaction nR) = READY" by (simp_all add: wR nR_def tR)
  have "wp any_fault (CTransaction_send e p bytes False)
      (\<lambda>sent. wp any_fault (if sent then startHeartBeat e p else retM True) (good p wR)) wR" for bytes
  proof (rule wp_send_noAck [OF nR(1)])
    fix sent k o1 wi
    let ?w = "wR\<lparr>w_ticks := k, w_out := o1, w_wire := wi\<rparr>"
    have k: "kept p wR ?w" by (rule kept_of_core [OF inv nR(1)]) (simp add: same_core_def)
    have "wp any_fault (startHeartBeat e p) (good p ?w) ?w"
      by (rule startHeartBeat_good [of ?w p nR]) (use k nR in \<open>simp_all add: kept_def\<close>)
    then have "wp any_fault (startHeartBeat e p) (good p wR) ?w"
      by (rule wp_mono) (rule good_trans, use k kept_def in blast)
    then show "wp any_fault (if sent then startHeartBeat e p else retM True) (good p wR) ?w"
      using kept_good [OF k] by (simp add: wp_retM)
  qed
  then show ?thesis by (simp add: startReady_def wp_bindM wp_thenM wp_updTx n wR tR)
qed

text \<open>The check of a session, from a transaction that waits for its handshake.\<close>

definition waiting :: transaction where
  "waiting = CTransaction_new\<lparr>t_status := CONNECTED\<rparr>"

definition claiming :: "TPDUHandShake \<Rightarrow> ub8_ \<Rightarrow> transaction" where
  "claiming msg uid = waiting\<lparr>t_sessionId := hs_sessionId msg, t_id := uid\<rparr>"

lemma clear_claiming: "(claiming msg uid)\<lparr>t_sessionId := zeros Size_SESSION_ID, t_id := 0\<rparr> = waiting"
  by (simp add: claiming_def waiting_def CTransaction_new_def)

lemma wp_refuseSession:
  assumes inv: "sv_inv w" and n: "w_nodes w p = Some n" "n_transaction n = waiting" and r: "r \<in> stopReasons"
    and sc: "same_core (w\<lparr>w_nodes := (w_nodes w)(p \<mapsto> n\<lparr>n_transaction := claiming msg uid\<rparr>)\<rparr>) w1"
  shows "wp any_fault (thenM (clearSession p) (refuse e p h r)) (good p w) w1"
proof -
  let ?w = "w1\<lparr>w_nodes := w_nodes w\<rparr>"
  have "n\<lparr>n_transaction := waiting\<rparr> = n" using n(2) [symmetric] by simp
  then have "w_nodes w1 p = Some (n\<lparr>n_transaction := claiming msg uid\<rparr>)"
    and "(w_nodes w1)(p \<mapsto> n\<lparr>n_transaction := waiting\<rparr>) = w_nodes w"
    using sc n(1) by (simp_all add: same_core_def fun_upd_idem)
  then have c: "wp any_fault (clearSession p) Q w1 = Q () ?w" for Q
    by (simp add: clearSession_def wp_simps clear_claiming)
  have sc': "same_core w ?w" using sc by (simp add: same_core_def)
  have w1: "sv_inv ?w" "w_nodes ?w p = Some n" using sv_inv_core [OF sc'] inv n by auto
  have "wp any_fault (refuse e p h r) (good p ?w) ?w" by (rule refuse_good [OF w1 r])
  then have "wp any_fault (refuse e p h r) (good p w) ?w"
    by (rule wp_mono) (rule good_trans, use kept_of_core [OF inv n(1) sc'] kept_def in blast)
  then show ?thesis by (simp add: wp_thenM c)
qed

lemma sv_inv_register:
  assumes inv: "sv_inv w" and n: "w_nodes w p = Some n" "n_transaction n = waiting"
    and s: "length (hs_sessionId msg) = Size_SESSION_ID" "firstByte (hs_sessionId msg) \<noteq> 0"
      "0 \<in> set (hs_sessionId msg)" and uid: "uid \<noteq> 0"
    and sc: "same_core (w\<lparr>w_nodes := (w_nodes w)(p \<mapsto> n\<lparr>n_transaction := claiming msg uid\<rparr>)\<rparr>) w1"
    and free: "findKey w1 (cstr (hs_sessionId msg)) = None"
    and tR: "tR = (claiming msg uid)\<lparr>t_status := READY, t_lastUpdate := hs_lastUpdate msg\<rparr>"
    and wR: "wR = w1\<lparr>w_registry := p # w_registry w1, w_nodes := (w_nodes w1)(p \<mapsto> n\<lparr>n_transaction := tR\<rparr>)\<rparr>"
  shows "sv_inv wR \<and> handled p w wR"
proof -
  have tx: "txs w p = Some waiting" using n by (simp add: txs_def)
  have tx1: "txs w1 = (txs w)(p \<mapsto> claiming msg uid)" using sc by (simp add: same_core_def txs_def fun_eq_iff)
  have txR: "txs wR = (txs w)(p \<mapsto> tR)" using sc by (simp add: wR same_core_def txs_def fun_eq_iff)
  have reg: "reg_ok w" using inv by (simp add: sv_inv_def)
  have r1: "w_registry w1 = w_registry w" using sc by (simp add: same_core_def)
  have pr: "p \<notin> set (w_registry w)" using reg tx by (simp add: reg_ok_def ready_def waiting_def)
  have kq: "sessionKey w1 q = sessionKey w q" if "q \<in> set (w_registry w)" for q
    using tx1 pr that by (auto simp: sessionKey_txs)
  have "t_sessionId tR = hs_sessionId msg" by (simp add: tR claiming_def)
  then have "\<forall>q \<in> set (w_registry w). sessionKey w q \<noteq> Some (cstr (t_sessionId tR))"
    using free r1 kq by (simp add: findKey_None)
  then have "reg_ok wR"
    by (intro reg_ok_register [OF reg tx _ txR]) (simp_all add: waiting_def tR wR r1)
  moreover have "tx_ok ids tR" for ids
    using s uid by (simp add: tx_ok_def tR claiming_def waiting_def CTransaction_new_def)
  ultimately have "sv_inv wR"
    using sc inv by (intro sv_inv_upd [OF inv _ _ txR]) (simp_all add: wR same_core_def sv_inv_def)
  moreover have "handled p w wR"
    using sc n by (simp add: handled_def wR same_core_def n_fixed_def)
  ultimately show ?thesis by simp
qed

lemma claimSession_good:
  assumes inv: "sv_inv w" and n: "w_nodes w p = Some n" "n_transaction n = waiting"
    and s: "length (hs_sessionId msg) = Size_SESSION_ID" "firstByte (hs_sessionId msg) \<noteq> 0"
      "0 \<in> set (hs_sessionId msg)"
    and sc: "same_core (w\<lparr>w_nodes := (w_nodes w)(p \<mapsto> n\<lparr>n_transaction := claiming msg uid\<rparr>)\<rparr>) w1"
  shows "wp any_fault (claimSession e p msg uid) (good p w) w1"
proof -
  have rf: "wp any_fault (thenM (clearSession p) (refuse e p h r)) (good p w) w1" if "r \<in> stopReasons" for h r
    by (rule wp_refuseSession [OF inv n that sc])
  have n1: "w_nodes w1 p = Some (n\<lparr>n_transaction := claiming msg uid\<rparr>)"
    using sc by (simp add: same_core_def)
  have key: "t_sessionId (claiming msg uid) = hs_sessionId msg" by (simp add: claiming_def)
  have "wp any_fault (startReady e p msg) (good p w) (w1\<lparr>w_registry := p # w_registry w1\<rparr>)"
    if free: "findKey w1 (cstr (hs_sessionId msg)) = None" and uid: "uid \<noteq> 0"
  proof -
    let ?tR = "(claiming msg uid)\<lparr>t_status := READY, t_lastUpdate := hs_lastUpdate msg\<rparr>"
    let ?w = "w1\<lparr>w_registry := p # w_registry w1, w_nodes := (w_nodes w1)(p \<mapsto> n\<lparr>n_transaction := ?tR\<rparr>)\<rparr>"
    have w2: "sv_inv ?w" "handled p w ?w"
      using sv_inv_register [OF inv n s uid sc free refl refl] by auto
    have "wp any_fault (startReady e p msg) (good p ?w) (w1\<lparr>w_registry := p # w_registry w1\<rparr>)"
      by (rule startReady_good [where n = "n\<lparr>n_transaction := claiming msg uid\<rparr>"]) (use n1 w2 in simp_all)
    then show ?thesis by (rule wp_mono) (rule good_trans [OF w2(2)])
  qed
  then show ?thesis
    using rf n1 key
    by (simp add: claimSession_def stopReasons_def CTransactionManager_registerTransaction_def wp_bindM
        wp_thenM wp_retM wp_getTx wp_getsM wp_updM)
qed

lemma startSession_good:
  assumes inv: "sv_inv w" and n: "w_nodes w p = Some n" "n_transaction n = waiting"
    and s: "length (hs_sessionId msg) = Size_SESSION_ID"
  shows "wp any_fault (startSession e p msg) (good p w) w"
proof -
  define wc where "wc uid = w\<lparr>w_nodes := (w_nodes w)(p \<mapsto> n\<lparr>n_transaction := claiming msg uid\<rparr>)\<rparr>" for uid
  have cl: "waiting\<lparr>t_sessionId := hs_sessionId msg\<rparr> = claiming msg 0"
    by (simp add: claiming_def waiting_def CTransaction_new_def)
  have "wp any_fault (groupOf p) (\<lambda>g. wp any_fault (CRedisOperator_verifyHandshake e g (hs_sessionId msg)) (\<lambda>uid.
      wp any_fault (updTx p (\<lambda>t. t\<lparr>t_id := uid\<rparr>)) (\<lambda>_. wp any_fault (claimSession e p msg uid) (good p w)))) (wc 0)"
  proof (rule wp_core [OF core_groupOf], rule wp_verify)
    fix g w1 uid w2
    assume sc: "same_core (wc 0) w1" "same_core w1 w2"
      and ok: "firstByte (hs_sessionId msg) \<noteq> 0" "0 \<in> set (hs_sessionId msg)"
    let ?w = "w2\<lparr>w_nodes := (w_nodes w2)(p \<mapsto> n\<lparr>n_transaction := claiming msg uid\<rparr>)\<rparr>"
    have "same_core (wc uid) ?w" using sc by (simp add: same_core_def wc_def)
    then have "wp any_fault (claimSession e p msg uid) (good p w) ?w"
      unfolding wc_def by (rule claimSession_good [OF inv n s ok])
    moreover have "w_nodes w2 p = Some (n\<lparr>n_transaction := claiming msg 0\<rparr>)"
      "(claiming msg 0)\<lparr>t_id := uid\<rparr> = claiming msg uid"
      using sc by (simp_all add: same_core_def wc_def claiming_def)
    ultimately show "wp any_fault (updTx p (\<lambda>t. t\<lparr>t_id := uid\<rparr>))
        (\<lambda>_. wp any_fault (claimSession e p msg uid) (good p w)) w2"
      by (simp add: wp_updTx)
  qed
  then show ?thesis by (simp add: startSession_def wp_bindM wp_thenM wp_updTx n cl wc_def)
qed

lemma length_sessionId: "length buf = MSG_MAX_LENGTH \<Longrightarrow> length (hs_sessionId (TPDUHandShake_at buf)) = Size_SESSION_ID"
  by (simp add: TPDUHandShake_at_def layout)

lemma onStart_good:
  assumes inv: "sv_inv w" and n: "w_nodes w p = Some n" and buf: "length buf = MSG_MAX_LENGTH"
  shows "wp any_fault (CTransaction_onStart e p buf) (good p w) w"
proof (cases "t_status (n_transaction n) = CONNECTED")
  case True
  let ?msg = "TPDUHandShake_at buf"
  obtain k where k: "k \<in> insert 0 (issued (w_timers w))"
    "n_transaction n = CTransaction_new\<lparr>t_status := CONNECTED, t_keepLiveTimerId := k\<rparr>"
    using sv_inv_tx [OF inv n] True by (auto simp: tx_ok_def)
  have k0: "t_keepLiveTimerId (n_transaction n) = k" by (simp add: k(2))
  have "wp any_fault (killTimerM k) (\<lambda>_. wp any_fault (updTx p (\<lambda>t. t\<lparr>t_keepLiveTimerId := 0\<rparr>))
      (\<lambda>_. wp any_fault (if hs_build ?msg < BASE_BUILD (e_cfg e) then refuse e p (hs_header ?msg) CLIENT_TOO_OLD
           else startSession e p ?msg) (good p w))) w" if "k \<noteq> 0"
  proof (rule wp_killTimerM [OF sv_invD(1) [OF inv]])
    show "k \<in> issued (w_timers w)" using k that by simp
    fix m assume m: "tm_ok m" "issued m = issued (w_timers w)"
    let ?n = "n\<lparr>n_transaction := waiting\<rparr>"
    let ?w = "w\<lparr>w_timers := m, w_nodes := (w_nodes w)(p \<mapsto> ?n)\<rparr>"
    have kw: "kept p w ?w"
      by (rule kept_upd [OF inv n m(1)]) (use m k(2) in \<open>simp_all add: waiting_def tx_ok_def CTransaction_new_def\<close>)
    have inv1: "sv_inv ?w" and n1: "w_nodes ?w p = Some ?n" "n_transaction ?n = waiting"
      using kw by (simp_all add: kept_def)
    have "wp any_fault (if hs_build ?msg < BASE_BUILD (e_cfg e) then refuse e p (hs_header ?msg) CLIENT_TOO_OLD
        else startSession e p ?msg) (good p ?w) ?w"
      using refuse_good [OF inv1 n1(1), of CLIENT_TOO_OLD] startSession_good [OF inv1 n1 length_sessionId [OF buf]]
      by (simp add: stopReasons_def)
    then have "wp any_fault (if hs_build ?msg < BASE_BUILD (e_cfg e) then refuse e p (hs_header ?msg) CLIENT_TOO_OLD
        else startSession e p ?msg) (good p w) ?w"
      by (rule wp_mono) (rule good_trans, use kw kept_def in blast)
    moreover have "(n_transaction n)\<lparr>t_keepLiveTimerId := 0\<rparr> = waiting" by (simp add: k(2) waiting_def CTransaction_new_def)
    ultimately show "wp any_fault (updTx p (\<lambda>t. t\<lparr>t_keepLiveTimerId := 0\<rparr>))
      (\<lambda>_. wp any_fault (if hs_build ?msg < BASE_BUILD (e_cfg e) then refuse e p (hs_header ?msg) CLIENT_TOO_OLD
           else startSession e p ?msg) (good p w)) (w\<lparr>w_timers := m\<rparr>)"
      using n by (simp add: wp_updTx)
  qed
  then show ?thesis using True n k0
    by (simp add: CTransaction_onStart_def wp_bindM wp_thenM wp_getTx wp_assertM Let_def)
next
  case False
  then show ?thesis using n over_good [OF inv n, of WRONG_STATUS any_fault e]
    by (simp add: CTransaction_onStart_def wp_simps stopReasons_def Let_def)
qed

lemma onMessage_good:
  assumes inv: "sv_inv w" and n: "w_nodes w p = Some n" and buf: "length buf = MSG_MAX_LENGTH"
  shows "wp any_fault (CTransaction_onMessage e p buf) (good p w) w"
proof -
  have "wp any_fault (CTransaction_onStop p r) (good p w) w" for r
  proof (cases "knownReason r")
    case False
    then show ?thesis using n by (simp add: CTransaction_onStop_def wp_simps)
  qed (rule onStop_good [OF inv n])
  moreover have "wp any_fault (CTransaction_over e p UNKNOWN_MESSAGE False) (good p w) w"
    by (rule over_good [OF inv n]) (simp add: stopReasons_def)
  ultimately show ?thesis
    unfolding CTransaction_onMessage_def Let_def
    using onStart_good [OF assms] onHeartBeat_good [OF inv n] onSendMsg_good [OF inv n]
      onPushMsg_good [OF inv n] onTimer_good [OF inv n] by simp
qed

section \<open>Attaching and detaching\<close>

lemma onAttach_ok:
  assumes inv: "sv_inv w" and n: "w_nodes w p = Some n" "t_status (n_transaction n) = FREE"
  shows "wp F (CTransaction_onAttach e p) (\<lambda>ok w'. sv_inv w' \<and> handled p w w' \<and>
     (\<exists>k. txs w' p = Some (CTransaction_new\<lparr>t_status := CONNECTED, t_keepLiveTimerId := k\<rparr>) \<and> (ok \<longleftrightarrow> k \<noteq> 0))) w"
proof -
  have t: "n_transaction n = CTransaction_new" using sv_inv_tx [OF inv n(1)] n(2) by (simp add: tx_ok_def)
  let ?w = "w\<lparr>w_nodes := (w_nodes w)(p \<mapsto> n\<lparr>n_transaction := waiting\<rparr>)\<rparr>"
  have rg: "reg_ok w1" if "txs w1 = (txs w)(p \<mapsto> t1)" "t_status t1 = CONNECTED" "w_registry w1 = w_registry w" for w1 t1
  proof -
    have "ready w1 = ready w" using that n by (auto simp: ready_def txs_def)
    moreover have "p \<notin> ready w" using n by (simp add: ready_def txs_def)
    moreover have "q \<noteq> p \<Longrightarrow> sessionKey w1 q = sessionKey w q" for q using that by (simp add: sessionKey_txs)
    ultimately have "inj_on (sessionKey w1) (ready w1) \<longleftrightarrow> inj_on (sessionKey w) (ready w)"
      by (metis inj_on_cong)
    then show ?thesis using sv_invD(2) [OF inv] that(3) \<open>ready w1 = ready w\<close> by (simp add: reg_ok_def)
  qed
  have "wp F (setTimerM per p par 1) (\<lambda>u. wp F (updTx p (\<lambda>t. t\<lparr>t_keepLiveTimerId := u\<rparr>)) (\<lambda>_ w'. sv_inv w' \<and> handled p w w' \<and>
     (\<exists>k. txs w' p = Some (CTransaction_new\<lparr>t_status := CONNECTED, t_keepLiveTimerId := k\<rparr>) \<and> (u \<noteq> 0 \<longleftrightarrow> k \<noteq> 0)))) ?w"
    for per par
  proof (rule wp_setTimerM, goal_cases)
    case (2 u m k)
    let ?t = "waiting\<lparr>t_keepLiveTimerId := u\<rparr>"
    let ?w1 = "w\<lparr>w_timers := m, w_ticks := k, w_nodes := (w_nodes w)(p \<mapsto> n\<lparr>n_transaction := ?t\<rparr>)\<rparr>"
    have tx: "txs ?w1 = (txs w)(p \<mapsto> ?t)" by (simp add: txs_def fun_eq_iff)
    have "tx_ok (issued m) ?t" using 2(2) by (auto simp: tx_ok_def waiting_def)
    then have "sv_inv ?w1"
      using 2 rg [OF tx] by (intro sv_inv_upd [OF inv _ _ tx]) (auto simp: waiting_def)
    then show ?case using n 2 tx by (auto simp: wp_simps handled_def n_fixed_def waiting_def)
  qed (use sv_invD(1) [OF inv] in simp)
  then show ?thesis using n t
    by (simp add: CTransaction_onAttach_def wp_simps CTransaction_new_def waiting_def)
qed

lemma onDetach_ok:
  assumes inv: "sv_inv w" and n: "w_nodes w p = Some n" "t_status (n_transaction n) = OVER"
  shows "wp F (CTransaction_onDetach p) (\<lambda>_ w'. w' = w\<lparr>w_nodes := (w_nodes w)(p \<mapsto> n\<lparr>n_transaction := CTransaction_new\<rparr>)\<rparr> \<and> sv_inv w') w"
proof -
  have t: "n_transaction n = stopped" using sv_inv_tx [OF inv n(1)] n(2) by (simp add: tx_ok_def stopped_def)
  let ?w = "w\<lparr>w_nodes := (w_nodes w)(p \<mapsto> n\<lparr>n_transaction := CTransaction_new\<rparr>)\<rparr>"
  have tx: "txs ?w = (txs w)(p \<mapsto> CTransaction_new)" by (simp add: txs_def fun_eq_iff)
  have "ready ?w = ready w" using tx n by (auto simp: ready_def txs_def CTransaction_new_def)
  moreover have "sessionKey ?w = sessionKey w"
    using n(1) t by (auto simp: sessionKey_def stopped_def CTransaction_new_def)
  ultimately have "reg_ok ?w" using sv_invD(2) [OF inv] by (simp add: reg_ok_def)
  then have "sv_inv ?w" using sv_invD(1) [OF inv]
    by (intro sv_inv_upd [OF inv _ _ tx]) (auto simp: tx_ok_def CTransaction_new_def)
  moreover have "stopped\<lparr>t_status := FREE\<rparr> = CTransaction_new" by (simp add: stopped_def CTransaction_new_def)
  moreover have "t_sessionId stopped = zeros Size_SESSION_ID" "t_id stopped = 0" "t_status stopped = OVER"
    "t_keepLiveTimerId stopped = 0" "\<not> t_heartbeat stopped" "t_seqCounter stopped = 0" "t_mapSeq2Timer stopped = []"
    by (simp_all add: stopped_def CTransaction_new_def)
  ultimately show ?thesis using n t by (simp add: CTransaction_onDetach_def wp_simps)
qed

end
