(* ===== verification/Node_Group.thy ===== *)
theory Node_Group
  imports Transaction_Invariant
begin

text \<open>
  The node groups of src/src/traffic/CNodeGroup.cpp and the attach and detach half of
  CNode.cpp.  A group's thread alternates between its message queue (\<open>_rollingQueue\<close>) and its
  nodes (\<open>_rollingNode\<close>).  Dereferencing the iterator \<open>_pos\<close> at \<open>end()\<close> is undefined and is
  the fault \<open>EndDeref\<close>.
\<close>

section \<open>Attaching and detaching nodes\<close>

definition CNode_onAttach ::
  "'r env \<Rightarrow> ub8_ \<Rightarrow> nat \<Rightarrow> ub1_ list \<Rightarrow> ub2_ \<Rightarrow> b4_ \<Rightarrow> ('r, bool) handler" where
  "CNode_onAttach e p g ip port fd =
     thenM (updNode p (\<lambda>n. n\<lparr>n_group := Some g, n_recvOffset := 0, n_recvDueSize := 0,
                             n_ip := strncpy (n_ip n) ip Length_IP_V4, n_port := port, n_fd := fd\<rparr>))
       (CTransaction_onAttach e p)"

definition CNode_onDetach :: "ub8_ \<Rightarrow> ('r, unit) handler" where
  "CNode_onDetach p =
     thenM (CTransaction_onDetach p)
       (updNode p (\<lambda>n. n\<lparr>n_fd := 0, n_port := 0, n_ip := zeros Size_IP_V4, n_recvOffset := 0,
                         n_recvDueSize := 0, n_group := None\<rparr>))"

definition CNodeGroup_attach ::
  "'r env \<Rightarrow> nat \<Rightarrow> ub8_ \<Rightarrow> ub1_ list \<Rightarrow> ub2_ \<Rightarrow> b4_ \<Rightarrow> ('r, bool) handler" where
  "CNodeGroup_attach e g p ip port fd =
     thenM (assertM (p \<noteq> null_v))
     (bindM (CNode_onAttach e p g ip port fd) (\<lambda>ok.
        if \<not> ok then retM False
        else
          bindM (getGroup g) (\<lambda>x.
          thenM (if g_container x = [] then thenM (CRedisOperator_connect e g) (retM ()) else retM ())
          (thenM (updGroup g (\<lambda>x. x\<lparr>g_container := g_container x @ [p]\<rparr>)) (retM True)))))"

text \<open>The element after \<open>p\<close> in a list, \<open>None\<close> at the end: \<open>_pos++\<close>.\<close>

fun succIn :: "'a list \<Rightarrow> 'a \<Rightarrow> 'a option" where
  "succIn [] p = None"
| "succIn (x # xs) p = (if x = p then (case xs of [] \<Rightarrow> None | y # _ \<Rightarrow> Some y) else succIn xs p)"

definition CNodeGroup_detach :: "'r env \<Rightarrow> nat \<Rightarrow> ub8_ \<Rightarrow> ('r, unit) handler" where
  "CNodeGroup_detach e g p =
     thenM (assertM (p \<noteq> null_v))
     (bindM (getGroup g) (\<lambda>x.
        case g_pos x of
          None \<Rightarrow> failM EndDeref
        | Some q \<Rightarrow>
            thenM (updGroup g (\<lambda>x. x\<lparr>g_pos := (if q = p then succIn (g_container x) q else Some q),
                                     g_container := removeAll p (g_container x)\<rparr>))
            (bindM (getGroup g) (\<lambda>x1.
             thenM (if g_container x1 = [] then CRedisOperator_disconnect e g else retM ())
             (CNode_onDetach p)))))"

section \<open>The group's thread\<close>

definition CTrafficManager_recycleNode :: "ub8_ \<Rightarrow> ('r, unit) handler" where
  "CTrafficManager_recycleNode p =
     thenM (assertM (p \<noteq> null_v)) (updM (\<lambda>w. w\<lparr>w_nodeQueue := w_nodeQueue w @ [p]\<rparr>))"

text \<open>One read of the queue into \<open>_buffer\<close>.\<close>

definition queueRead :: "nat \<Rightarrow> nat \<Rightarrow> ub4_ \<Rightarrow> ('r, ub4_) handler" where
  "queueRead g off sz =
     bindM (getGroup g) (\<lambda>x.
     bindM (liftR (CLoopBuffer_read (g_queue x) (g_buffer x) off sz)) (\<lambda>(n, b, q).
     thenM (updGroup g (\<lambda>x. x\<lparr>g_buffer := b, g_queue := q\<rparr>)) (retM n)))"

definition dispatch :: "'r env \<Rightarrow> ub1_ list \<Rightarrow> ('r, unit) handler" where
  "dispatch e buf =
     (let p = hd_ext (THeader_at buf) in
      thenM (assertM (p \<noteq> 0))
      (bindM (getTx p) (\<lambda>t.
         if t_status t = CONNECTED \<or> t_status t = READY then
           bindM (CTransaction_onMessage e p buf) (\<lambda>ok.
             if ok then retM ()
             else
               bindM (getTx p) (\<lambda>t1.
               thenM (assertM (t_status t1 = OVER)) (CTrafficManager_recycleNode p)))
         else retM ())))"

definition CNodeGroup_rollingQueue :: "'r env \<Rightarrow> nat \<Rightarrow> ('r, bool) handler" where
  "CNodeGroup_rollingQueue e g =
     bindM (getGroup g) (\<lambda>x.
       if usedSize (g_queue x) = 0 then retM False
       else
         bindM (queueRead g 0 2) (\<lambda>n.
         thenM (assertM (n = 2))
         (bindM (getGroup g) (\<lambda>x1.
            let size = le_word (segment 0 2 (g_buffer x1)) :: ub2_ in
            bindM (queueRead g 2 (ucast size - 2)) (\<lambda>n2.
              if uint n2 + 2 \<noteq> uint size then retM False
              else bindM (getGroup g) (\<lambda>x2. thenM (dispatch e (g_buffer x2)) (retM True)))))))"

definition checkNode :: "'r env \<Rightarrow> ub8_ \<Rightarrow> ('r, bool) handler" where
  "checkNode e p =
     bindM (getTx p) (\<lambda>t.
       thenM (if t_status t = READY then CTransaction_onCheck e p else retM ()) (retM True))"

definition CNodeGroup_rollingNode :: "'r env \<Rightarrow> nat \<Rightarrow> ('r, bool) handler" where
  "CNodeGroup_rollingNode e g =
     bindM (getGroup g) (\<lambda>x.
       case g_container x of
         [] \<Rightarrow> retM False
       | first # _ \<Rightarrow>
           (let p = (case g_pos x of None \<Rightarrow> first | Some q \<Rightarrow> q) in
            thenM (updGroup g (\<lambda>x. x\<lparr>g_pos := succIn (g_container x) p\<rparr>))
              (checkNode e p)))"

definition CNodeGroup_working :: "'r env \<Rightarrow> nat \<Rightarrow> ('r, bool) handler" where
  "CNodeGroup_working e g =
     thenM (CNodeGroup_rollingQueue e g) (thenM (CNodeGroup_rollingNode e g) (retM True))"

end
