(* ===== verification/Traffic_Manager.thy ===== *)
theory Traffic_Manager
  imports Node_Group
begin

text \<open>
  The network front end, src/src/traffic/CTrafficManager.cpp: set-up of the listening socket,
  acceptance of connections, the epoll loop, and the recycling of nodes.  The results of
  system calls are inputs: the parameter \<open>workCalls\<close> of \<open>work\<close>, the events of \<open>epoll_wait\<close>, and
  the world's lists of incoming connections and of \<open>epoll_ctl\<close> results.
\<close>

section \<open>Construction\<close>

definition CNodeGroup_new :: "config \<Rightarrow> ub1_ list \<Rightarrow> ub1_ list \<Rightarrow> group result" where
  "CNodeGroup_new cfg qmem bmem =
     bindR (CLoopBuffer_new qmem (MESSAGE_MAX_NUM_IN_QUEUE cfg * of_nat MSG_MAX_LENGTH) False)
       (\<lambda>q. Inr \<lparr>g_queue = q, g_buffer = bmem, g_context = False, g_container = [], g_pos = None\<rparr>)"

text \<open>
  \<open>CTransactionManager::instance()\<close> and \<open>CTrafficManager::instance()\<close>: the timer manager,
  the pool of nodes and the groups, over the memory and addresses that \<open>new\<close> returns and a
  world outside that is given by \<open>w0\<close>.
\<close>

definition server_new ::
  "config \<Rightarrow> (nat \<Rightarrow> ub8_) \<Rightarrow> (nat \<Rightarrow> ub8_) \<Rightarrow> (nat \<Rightarrow> ub1_ list) \<Rightarrow> 'r world \<Rightarrow> 'r world result" where
  "server_new cfg timerAddr nodeAddr mem w0 =
     bindR (CTimerManager_new (TOTAL_SUPPORT_USER_NUM cfg * 8) timerAddr) (\<lambda>tm.
     bindR (CResource_new (TOTAL_SUPPORT_USER_NUM cfg) nodeAddr) (\<lambda>res.
     bindR (CNodeGroup_new cfg (mem (unat (MESSAGE_MAX_NUM_IN_QUEUE cfg * of_nat MSG_MAX_LENGTH)))
              (mem MSG_MAX_LENGTH)) (\<lambda>grp.
       Inr (w0\<lparr>w_timers := tm, w_res := res, w_registry := [], w_nodeQueue := [],
               w_nodes := (\<lambda>p. if p \<in> set (unitGroup res) then Some (CNode_new (mem MSG_MAX_LENGTH)) else None),
               w_groups := replicate (unat (NODE_GROUP_NUM cfg)) grp,
               w_curGroupIndex := 0, w_running := True, w_listenFd := 0, w_epollFd := 0\<rparr>))))"

text \<open>The results of the system calls of \<open>work\<close>.\<close>

record workCalls =
  s_socket :: b4_
  s_setsockopt :: b4_
  s_bind :: b4_
  s_epoll_create :: b4_
  s_epoll_ctl :: b4_
  s_listen :: b4_

definition exitIf :: "bool \<Rightarrow> ('r, unit) handler" where
  "exitIf b = (if b then failM ExitCall else retM ())"

text \<open>\<open>work\<close> up to the start of the worker; the result says whether it is started.\<close>

definition CTrafficManager_work :: "workCalls \<Rightarrow> ('r, bool) handler" where
  "CTrafficManager_work s =
     thenM (updM (\<lambda>w. w\<lparr>w_listenFd := s_socket s\<rparr>))
     (thenM (exitIf (s_socket s = -1))
     (thenM (exitIf (s_setsockopt s \<noteq> 0))
     (thenM (exitIf (s_bind s = -1))
     (thenM (updM (\<lambda>w. w\<lparr>w_epollFd := s_epoll_create s\<rparr>))
     (thenM (exitIf (s_epoll_create s = -1))
     (thenM (exitIf (s_epoll_ctl s = -1))
     (retM (s_listen s \<noteq> -1))))))))"

text \<open>The destructor, which \<open>destory\<close> runs.\<close>

definition CTrafficManager_delete :: "('r, unit) handler" where
  "CTrafficManager_delete =
     thenM (updM (\<lambda>w. w\<lparr>w_running := False\<rparr>))
     (bindM (getsM w_listenFd) (\<lambda>lfd. thenM (if lfd \<noteq> 0 then sysClose lfd else retM ())
     (bindM (getsM w_epollFd) (\<lambda>efd. thenM (if efd \<noteq> 0 then sysClose efd else retM ())
     (updM (\<lambda>w. w\<lparr>w_groups := []\<rparr>))))))"

section \<open>Nodes\<close>

definition CTrafficManager_allocateGroup :: "'r env \<Rightarrow> ('r, nat) handler" where
  "CTrafficManager_allocateGroup e =
     bindM (getsM w_curGroupIndex) (\<lambda>i.
       let j = (if i = NODE_GROUP_NUM (e_cfg e) then 0 else i) in
       thenM (updM (\<lambda>w. w\<lparr>w_curGroupIndex := j + 1\<rparr>)) (retM (unat j)))"

definition allocateNode :: "('r, ub8_) handler" where
  "allocateNode = bindM (getsM w_res) (\<lambda>r.
     bindM (liftR (CResource_allocate r)) (\<lambda>(p, r1).
     thenM (updM (\<lambda>w. w\<lparr>w_res := r1\<rparr>)) (retM p)))"

definition reclaimNode :: "ub8_ \<Rightarrow> ('r, unit) handler" where
  "reclaimNode p = bindM (getsM w_res) (\<lambda>r.
     bindM (liftR (CResource_reclaim r p)) (\<lambda>(_, r1). updM (\<lambda>w. w\<lparr>w_res := r1\<rparr>)))"

text \<open>The loop of \<open>_addNodes\<close> over the connections that \<open>accept\<close> returns.\<close>

fun addNodes :: "'r env \<Rightarrow> acceptEvent list \<Rightarrow> ('r, unit) handler" where
  "addNodes e [] = retM ()"
| "addNodes e (AcceptErr # rest) = updM (\<lambda>w. w\<lparr>w_accepts := rest\<rparr>)"
| "addNodes e (Incoming ip port fd # rest) =
     thenM (updM (\<lambda>w. w\<lparr>w_accepts := rest\<rparr>))
     (bindM (getsM w_res) (\<lambda>r.
        if CResource_size r = 0 then sysClose fd
        else
          bindM allocateNode (\<lambda>p.
          bindM (CTrafficManager_allocateGroup e) (\<lambda>g.
          bindM (CNodeGroup_attach e g p ip port fd) (\<lambda>ok.
            if \<not> ok then sysClose fd
            else bindM epollCtl (\<lambda>added.
              if \<not> added then CNodeGroup_detach e g p
              else addNodes e rest))))))"

definition CTrafficManager_addNodes :: "'r env \<Rightarrow> ('r, unit) handler" where
  "CTrafficManager_addNodes e = bindM (getsM w_accepts) (addNodes e)"

definition CTrafficManager_delNode :: "'r env \<Rightarrow> ub8_ \<Rightarrow> ('r, unit) handler" where
  "CTrafficManager_delNode e p =
     bindM (getNode p) (\<lambda>n.
       if t_status (n_transaction n) = FREE \<or> n_fd n = 0 then retM ()
       else
         thenM epollCtl
         (thenM (sysClose (n_fd n))
         (bindM (groupOf p) (\<lambda>g.
          thenM (CNodeGroup_detach e g p) (reclaimNode p)))))"

fun delNodes :: "'r env \<Rightarrow> ub8_ list \<Rightarrow> ('r, unit) handler" where
  "delNodes e [] = retM ()"
| "delNodes e (p # rest) =
     thenM (CTrafficManager_delNode e p)
     (thenM (updM (\<lambda>w. w\<lparr>w_nodeQueue := rest\<rparr>)) (delNodes e rest))"

section \<open>The epoll loop\<close>

text \<open>
  An event: the 64-bit \<open>data\<close> union, whose low half is \<open>data.fd\<close>, and the flags that are tested.
\<close>

record epollEvent =
  ev_data :: ub8_
  ev_in :: bool
  ev_rdhup :: bool
  ev_err :: bool

datatype waitResult = WaitErr errno | Ready "epollEvent list"

definition handleEvent :: "'r env \<Rightarrow> epollEvent \<Rightarrow> ('r, unit) handler" where
  "handleEvent e ev =
     bindM (getsM w_listenFd) (\<lambda>lfd.
       if ucast (ev_data ev) = lfd then thenM (assertM (ev_in ev)) (CTrafficManager_addNodes e)
       else
         (let p = ev_data ev in
          thenM (assertM (p \<noteq> null_v))
          (if ev_rdhup ev then thenM (CTransaction_over e p CONNECTION_BROKEN True) (retM ())
           else if ev_err ev then thenM (CTransaction_over e p CONNECTION_ERROR True) (retM ())
           else if ev_in ev then
             bindM (CNode_recv p) (\<lambda>ok.
               if ok then retM ()
               else thenM (CTransaction_over e p CANNOT_RECV_DATA True) (retM ()))
           else retM ())))"

definition CTrafficManager_working :: "'r env \<Rightarrow> waitResult \<Rightarrow> ('r, bool) handler" where
  "CTrafficManager_working e r =
     bindM (getsM w_nodeQueue) (\<lambda>q.
     thenM (delNodes e q)
     (case r of
        WaitErr err \<Rightarrow>
          if err = EINTR then retM True
          else if err \<in> {EBADF, EFAULT, EINVAL} then retM False
          else failM AssertFail
      | Ready evs \<Rightarrow> thenM (forM evs (handleEvent e)) (getsM w_running)))"

end
