(* ===== verification/Server_Invariant.thy ===== *)
theory Server_Invariant
  imports Traffic_Manager
begin

text \<open>
  The invariant of the whole server, \<open>sys_inv\<close>, and that every iteration of its threads keeps it:
  the sessions are as \<open>sv_inv\<close> says, the pool of nodes is well formed and its free nodes are
  fresh, every group's queue is a sequence of whole frames that name a node of the pool, and the
  receive buffers are between two bytes of a frame.  \<open>keeps m\<close> says that a handler keeps it;
  the collection \<open>keeps_intros\<close> composes such facts along the code.
\<close>

section \<open>Whole messages through a byte queue\<close>

context byte_queue
begin

text \<open>
  The two reads of \<open>_rollingQueue\<close>: the length of a stored message and then the rest of it
  take exactly that message from the queue.
\<close>

lemma get_message:
  assumes wf: "wf q" and b: "bytes q = m @ rest" and l: "2 < length m" "length m \<le> length buf" "length m < 2 ^ 16"
  obtains q1 q2 where "get q buf 0 2 = Inr (2, overwrite buf 0 (take 2 m), q1)"
    and "get q1 (overwrite buf 0 (take 2 m)) 2 (of_nat (length m) - 2) =
           Inr (of_nat (length m - 2), overwrite buf 0 m, q2)"
    and "wf q2" and "bytes q2 = rest" and "capacity q2 = capacity q"
proof -
  have u: "unat (of_nat (length m) - 2 :: ub4_) = length m - 2"
    using l unat_of_nat_lt [where 'a = 32, of "length m"] by (simp add: unat_minus_le)
  obtain q1 where q1: "get q buf 0 2 = Inr (2, overwrite buf 0 (take 2 m), q1)" "wf q1"
    "bytes q1 = drop 2 m @ rest" "capacity q1 = capacity q"
    using get_bytes [OF wf, of 2 0 buf] b l by (auto simp: min_def)
  have nz: "(of_nat (length m) - 2 :: ub4_) \<noteq> 0" using u l by (metis unat_0 diff_is_0_eq not_le)
  have t2: "length (take 2 m) = 2" using l by simp
  have "overwrite (overwrite buf 0 (take 2 m)) 2 (drop 2 m) = overwrite buf 0 m"
    using overwrite_overwrite [of 0 "take 2 m" "drop 2 m" buf] l unfolding t2 by (simp flip: numeral_2_eq_2)
  moreover have "min (length m - 2) (length (drop 2 m @ rest)) = length m - 2" using l by simp
  then have "\<exists>q2. get q1 (overwrite buf 0 (take 2 m)) 2 (of_nat (length m) - 2) =
      Inr (of_nat (length m - 2), overwrite (overwrite buf 0 (take 2 m)) 2 (drop 2 m), q2) \<and> wf q2 \<and>
      bytes q2 = rest \<and> capacity q2 = capacity q1"
    using get_bytes [OF q1(2) nz, of 2 "overwrite buf 0 (take 2 m)"] q1(3) u l by simp
  then obtain q2 where "get q1 (overwrite buf 0 (take 2 m)) 2 (of_nat (length m) - 2) =
      Inr (of_nat (length m - 2), overwrite (overwrite buf 0 (take 2 m)) 2 (drop 2 m), q2)" "wf q2"
    "bytes q2 = rest" "capacity q2 = capacity q1"
    by blast
  ultimately show thesis using that q1 by simp
qed

end

section \<open>The queue of a group\<close>

text \<open>
  A frame: a whole message whose length is the one its header says, small enough for every
  buffer, and addressed to a node.
\<close>

definition frame :: "'r world \<Rightarrow> ub1_ list \<Rightarrow> bool" where
  "frame w m \<longleftrightarrow>
     sizeof_THeader \<le> length m \<and> length m \<le> MSG_MAX_LENGTH \<and>
     unat (hd_size (THeader_at m)) = length m \<and> hd_ext (THeader_at m) \<in> dom (w_nodes w)"

definition framed :: "'r world \<Rightarrow> ub1_ list list \<Rightarrow> group \<Rightarrow> bool" where
  "framed w ms x \<longleftrightarrow>
     lb_plain (g_queue x) \<and> length (g_buffer x) = MSG_MAX_LENGTH \<and>
     contents (g_queue x) = concat ms \<and> (\<forall>m \<in> set ms. frame w m)"

lemma THeader_at_append: "sizeof_THeader \<le> length m \<Longrightarrow> THeader_at (m @ rest) = THeader_at m"
  by (simp add: THeader_at_def segment_def layout)

lemma putMessage_framed:
  assumes g: "g < length (w_groups w)" "framed w ms (w_groups w ! g)"
    and f: "frame w m" and sz: "m = take (unat (hd_size (THeader_at msg))) msg" "THeader_at m = THeader_at msg"
    and Q: "\<And>ok q. framed w (if ok then ms @ [m] else ms) ((w_groups w ! g)\<lparr>g_queue := q\<rparr>) \<Longrightarrow>
      (ok \<longleftrightarrow> length (concat ms) + length m \<le> unat (totalSize (g_queue (w_groups w ! g)))) \<Longrightarrow>
      totalSize q = totalSize (g_queue (w_groups w ! g)) \<Longrightarrow>
      Q ok (w\<lparr>w_groups := (w_groups w)[g := (w_groups w ! g)\<lparr>g_queue := q\<rparr>]\<rparr>)"
  shows "wp F (CNodeGroup_putMessage g msg) Q w"
proof -
  let ?x = "w_groups w ! g" and ?sz = "ucast (hd_size (THeader_at msg)) :: ub4_"
  have u: "unat ?sz = length m" using f sz(2) by (simp add: frame_def unat_ucast_ub2)
  have p: "lb_plain (g_queue ?x)" and c: "contents (g_queue ?x) = concat ms"
    using g by (simp_all add: framed_def)
  have l: "0 < length m" "length m \<le> length msg" using f sz(1) by (auto simp: frame_def layout)
  then have nz: "?sz \<noteq> 0" using u by (metis unat_0 less_irrefl)
  obtain ok q where q: "CLoopBuffer_write (g_queue ?x) msg ?sz = Inr (ok, q)" "lb_plain q"
    "unat (totalSize q) = unat (totalSize (g_queue ?x))"
    "contents q = contents (g_queue ?x) @ (if ok then take (unat ?sz) msg else [])"
    "ok \<longleftrightarrow> length (contents (g_queue ?x)) + unat ?sz \<le> unat (totalSize (g_queue ?x))"
    by (rule lb.put_total [OF p nz, of msg]) (use u l in auto)
  have m: "take (unat ?sz) msg = m" using u f sz by (simp add: frame_def)
  have "framed w (if ok then ms @ [m] else ms) (?x\<lparr>g_queue := q\<rparr>)"
    using g f q c m by (auto simp: framed_def)
  then show ?thesis
    using Q [of ok q] q c u g by (simp add: CNodeGroup_putMessage_def wp_simps word_eq_unat)
qed

lemma framed_used: "framed w ms x \<Longrightarrow> usedSize (g_queue x) = 0 \<longleftrightarrow> ms = []"
proof -
  assume f: "framed w ms x"
  then have "lb_wf (g_queue x)" "contents (g_queue x) = concat ms" by (auto simp: framed_def lb_plain_def)
  then have "unat (usedSize (g_queue x)) = length (concat ms)" using length_contents by metis
  moreover have "length (concat ms) = 0 \<longleftrightarrow> ms = []"
    using f by (cases ms) (auto simp: framed_def frame_def layout)
  ultimately show ?thesis by (metis unat_0 word_eq_unat)
qed

lemma rollingQueue_idle:
  assumes "g < length (w_groups w)" and "framed w [] (w_groups w ! g)"
  shows "CNodeGroup_rollingQueue e g w = Inr (False, w)"
  using assms framed_used [OF assms(2)]
  by (simp add: CNodeGroup_rollingQueue_def bindM_def getGroup_def retM_def)

lemma wp_rollingQueue:
  assumes g: "g < length (w_groups w)" and f: "framed w (m # ms) (w_groups w ! g)"
    and Q: "\<And>q x. x = (w_groups w ! g)\<lparr>g_buffer := overwrite (g_buffer (w_groups w ! g)) 0 m, g_queue := q\<rparr> \<Longrightarrow>
      framed w ms x \<Longrightarrow>
      wp F (dispatch e (g_buffer x)) (\<lambda>_. Q True) (w\<lparr>w_groups := (w_groups w)[g := x]\<rparr>)"
  shows "wp F (CNodeGroup_rollingQueue e g) Q w"
proof -
  let ?x = "w_groups w ! g"
  have p: "lb_plain (g_queue ?x)" "contents (g_queue ?x) = m @ concat ms" "length (g_buffer ?x) = MSG_MAX_LENGTH"
    and fm: "frame w m" and fs: "\<forall>m \<in> set ms. frame w m"
    using f by (auto simp: framed_def)
  then have l: "2 < length m" "length m \<le> length (g_buffer ?x)" "length m < 2 ^ 16"
    by (auto simp: frame_def layout)
  obtain q1 q2 where q: "CLoopBuffer_read (g_queue ?x) (g_buffer ?x) 0 2 = Inr (2, overwrite (g_buffer ?x) 0 (take 2 m), q1)"
    "CLoopBuffer_read q1 (overwrite (g_buffer ?x) 0 (take 2 m)) 2 (of_nat (length m) - 2) =
       Inr (of_nat (length m - 2), overwrite (g_buffer ?x) 0 m, q2)"
    "lb_plain q2" "contents q2 = concat ms"
    by (rule lb.get_message [OF p(1,2) l]) blast
  have "segment 0 2 (overwrite (g_buffer ?x) 0 (take 2 m)) = segment 0 2 m"
    using l by (simp add: overwrite_def segment_def)
  then have sz: "le_word (segment 0 2 (overwrite (g_buffer ?x) 0 (take 2 m))) = hd_size (THeader_at m)"
    by (simp add: THeader_at_def)
  have u: "unat (hd_size (THeader_at m)) = length m" using fm by (simp add: frame_def)
  then have c: "ucast (hd_size (THeader_at m)) = (of_nat (length m) :: ub4_)"
    by (simp add: word_eq_unat unat_ucast_ub2 unat_of_nat_lt l(3) order.strict_trans [OF l(3)])
  have u2: "uint (of_nat (length m - 2) :: ub4_) + 2 = uint (hd_size (THeader_at m))"
    using l u unat_of_nat_lt [where 'a = 32, of "length m - 2"] by (simp add: uint_nat)
  have "usedSize (g_queue ?x) \<noteq> 0" using framed_used [OF f] by simp
  moreover have "framed w ms (?x\<lparr>g_buffer := overwrite (g_buffer ?x) 0 m, g_queue := q2\<rparr>)"
    using q p l fs by (simp add: framed_def)
  ultimately show ?thesis
    using g Q [OF refl] q c u2
    by (simp add: CNodeGroup_rollingQueue_def queueRead_def wp_simps sz Let_def)
qed

section \<open>The invariant of the server\<close>

definition recv_ok :: "node \<Rightarrow> bool" where
  "recv_ok n \<longleftrightarrow>
     length (n_recvBuffer n) = MSG_MAX_LENGTH \<and>
     (if n_recvDueSize n = 0 then unat (n_recvOffset n) \<le> sizeof_THeader
      else sizeof_THeader \<le> unat (n_recvOffset n) \<and> unat (n_recvOffset n) \<le> MSG_MAX_LENGTH \<and>
           hd_size (THeader_at (n_recvBuffer n)) = n_recvDueSize n)"

definition sys_inv :: "'r world \<Rightarrow> bool" where
  "sys_inv w \<longleftrightarrow>
     sv_inv w \<and> pool_wf (w_res w) \<and> dom (w_nodes w) = set (unitGroup (w_res w)) \<and>
     (\<forall>p \<in> set (freeDeque (w_res w)). txs w p = Some CTransaction_new) \<and>
     (\<forall>x \<in> set (w_groups w). \<exists>ms. framed w ms x) \<and>
     (\<forall>p n. w_nodes w p = Some n \<longrightarrow> recv_ok n)"

lemma sys_invD:
  assumes "sys_inv w"
  shows "sv_inv w" and "pool_wf (w_res w)" and "dom (w_nodes w) = set (unitGroup (w_res w))"
    and "p \<in> set (freeDeque (w_res w)) \<Longrightarrow> txs w p = Some CTransaction_new"
    and "g < length (w_groups w) \<Longrightarrow> \<exists>ms. framed w ms (w_groups w ! g)"
    and "w_nodes w q = Some n \<Longrightarrow> recv_ok n"
  using assms by (auto simp: sys_inv_def)

lemma frame_cong: "dom (w_nodes w') = dom (w_nodes w) \<Longrightarrow> frame w' m = frame w m"
  by (simp add: frame_def)

lemma framed_cong:
  "dom (w_nodes w') = dom (w_nodes w) \<Longrightarrow> g_queue x' = g_queue x \<Longrightarrow> g_buffer x' = g_buffer x \<Longrightarrow>
   framed w' ms x' = framed w ms x"
  using frame_cong [of w' w] by (simp add: framed_def)

lemma handled_dom: "handled p w w' \<Longrightarrow> dom (w_nodes w') = dom (w_nodes w)"
proof -
  assume h: "handled p w w'"
  have "w_nodes w' q \<noteq> None \<longleftrightarrow> w_nodes w q \<noteq> None" for q
    using h by (cases "q = p") (auto simp: handled_def)
  then show ?thesis by (simp add: dom_def)
qed

lemma framed_handled:
  assumes h: "handled p w w'" and f: "\<forall>x \<in> set (w_groups w). \<exists>ms. framed w ms x"
  shows "\<forall>x' \<in> set (w_groups w'). \<exists>ms. framed w' ms x'"
proof
  fix x' assume "x' \<in> set (w_groups w')"
  then have "g_fixed x' \<in> set (map g_fixed (w_groups w'))" by simp
  also have "\<dots> = set (map g_fixed (w_groups w))" using h by (simp add: handled_def)
  finally obtain x where "x \<in> set (w_groups w)" "g_fixed x' = g_fixed x" by auto
  then show "\<exists>ms. framed w' ms x'"
    using f framed_cong [OF handled_dom [OF h], of x' x] by (auto simp: g_fixed_def)
qed

lemma recv_ok_fixed: "n_fixed n' = n_fixed n \<Longrightarrow> recv_ok n' = recv_ok n"
proof -
  assume "n_fixed n' = n_fixed n"
  then have "n_recvBuffer (n_fixed n') = n_recvBuffer (n_fixed n)" "n_recvOffset (n_fixed n') = n_recvOffset (n_fixed n)"
    "n_recvDueSize (n_fixed n') = n_recvDueSize (n_fixed n)" by simp_all
  then show ?thesis by (simp add: recv_ok_def n_fixed_def)
qed

lemma sys_handled_new:
  assumes inv: "sys_inv w" and h: "handled p w w'" and sv: "sv_inv w'" and p: "p \<notin> set (freeDeque (w_res w))"
  shows "sys_inv w'"
proof -
  have "txs w' q = txs w q" if "q \<noteq> p" for q using h that by (simp add: handled_def txs_def)
  moreover have "w_res w' = w_res w" using h by (simp add: handled_def)
  ultimately have "\<forall>q \<in> set (freeDeque (w_res w')). txs w' q = Some CTransaction_new"
    using sys_invD(4) [OF inv] p by metis
  moreover have "recv_ok n'" if n': "w_nodes w' q = Some n'" for q n'
  proof -
    obtain n where "w_nodes w q = Some n" "n_fixed n' = n_fixed n"
      using h n' unfolding handled_def by (cases "q = p") auto
    then show ?thesis using sys_invD(6) [OF inv] recv_ok_fixed by blast
  qed
  ultimately show ?thesis
    using inv sv handled_dom [OF h] framed_handled [OF h] h by (auto simp: sys_inv_def handled_def)
qed

lemma sys_handled:
  assumes inv: "sys_inv w" and h: "handled p w w'" and sv: "sv_inv w'"
    and p: "txs w p = Some t" "t_status t \<noteq> FREE"
  shows "sys_inv w'"
  by (rule sys_handled_new [OF inv h sv]) (use sys_invD(4) [OF inv] p in \<open>auto simp: CTransaction_new_def\<close>)

text \<open>A change of a group's queue, buffer or container that keeps its frames.\<close>

lemma sys_group:
  assumes inv: "sys_inv w" and f: "framed w ms x"
  shows "sys_inv (w\<lparr>w_groups := (w_groups w)[g := x]\<rparr>)"
proof -
  have "framed (w\<lparr>w_groups := gs\<rparr>) ms x' = framed w ms x'" for gs ms x'
    by (rule framed_cong) simp_all
  moreover have "x' = x \<or> x' \<in> set (w_groups w)" if "x' \<in> set ((w_groups w)[g := x])" for x'
    using that set_update_subset_insert [of "w_groups w" g x] by auto
  ultimately have "\<forall>x' \<in> set ((w_groups w)[g := x]). \<exists>ms. framed (w\<lparr>w_groups := (w_groups w)[g := x]\<rparr>) ms x'"
    using inv f unfolding sys_inv_def by blast
  then show ?thesis using inv by (simp add: sys_inv_def)
qed

lemma sys_env [simp]:
  "sys_inv (w\<lparr>w_ticks := k\<rparr>) = sys_inv w" "sys_inv (w\<lparr>w_out := o1\<rparr>) = sys_inv w"
  "sys_inv (w\<lparr>w_wire := wi\<rparr>) = sys_inv w" "sys_inv (w\<lparr>w_redis := rd\<rparr>) = sys_inv w"
  "sys_inv (w\<lparr>w_in := ri\<rparr>) = sys_inv w" "sys_inv (w\<lparr>w_accepts := ac\<rparr>) = sys_inv w"
  "sys_inv (w\<lparr>w_epollCtl := ec\<rparr>) = sys_inv w" "sys_inv (w\<lparr>w_closed := cl\<rparr>) = sys_inv w"
  "sys_inv (w\<lparr>w_nodeQueue := nq\<rparr>) = sys_inv w" "sys_inv (w\<lparr>w_curGroupIndex := ci\<rparr>) = sys_inv w"
  "sys_inv (w\<lparr>w_clock := ck\<rparr>) = sys_inv w" "sys_inv (w\<lparr>w_running := rn\<rparr>) = sys_inv w"
  by (simp_all add: sys_inv_def sv_inv_def reg_ok_def ready_def txs_def sessionKey_def framed_def frame_def inj_on_def)

section \<open>Preservation\<close>

text \<open>\<open>keeps m\<close>: from a state that satisfies the invariant, \<open>m\<close> ends in one, if it returns.\<close>

definition keeps :: "('r, 'a) handler \<Rightarrow> bool" where
  "keeps m \<longleftrightarrow> (\<forall>w. sys_inv w \<longrightarrow> wp any_fault m (\<lambda>_. sys_inv) w)"

lemma keepsI: "(\<And>w. sys_inv w \<Longrightarrow> wp any_fault m (\<lambda>_. sys_inv) w) \<Longrightarrow> keeps m"
  by (simp add: keeps_def)

named_theorems keeps_intros \<open>handlers that keep the server's invariant\<close>

lemma keeps_bind [keeps_intros]: "keeps m \<Longrightarrow> (\<And>x. keeps (f x)) \<Longrightarrow> keeps (bindM m f)"
  unfolding keeps_def wp_bindM by (blast intro: wp_mono)

lemma keeps_then [keeps_intros]: "keeps m \<Longrightarrow> keeps k \<Longrightarrow> keeps (thenM m k)"
  unfolding thenM_def by (intro keeps_bind)

lemma keeps_ret [keeps_intros]: "keeps (retM x)" "keeps (failM f)" "keeps (assertM b)" "keeps (getsM h)"
  "keeps (liftR r)" "keeps (getNode p)" "keeps (getTx p)" "keeps (groupOf p)" "keeps (getGroup g)"
  "keeps gettimeofday" "keeps CBase_now"
  by (simp_all add: keeps_def wp_simps split: option.splits sum.splits)

lemma keeps_if [keeps_intros]: "keeps m \<Longrightarrow> keeps k \<Longrightarrow> keeps (if b then m else k)"
  by simp

lemma keeps_for [keeps_intros]: "(\<And>x. keeps (f x)) \<Longrightarrow> keeps (forM xs f)"
  by (induction xs) (auto intro!: keeps_intros)

lemma sys_core: "sys_inv w \<Longrightarrow> same_core w w' \<Longrightarrow> sys_inv w'"
proof -
  assume inv: "sys_inv w" and sc: "same_core w w'"
  have "\<forall>x' \<in> set (w_groups w'). \<exists>ms. framed w' ms x'"
  proof
    fix x' assume "x' \<in> set (w_groups w')"
    then have "g_fixed x' \<in> set (map g_fixed (w_groups w'))" by simp
    also have "\<dots> = set (map g_fixed (w_groups w))" using sc by (simp add: same_core_def)
    finally obtain x where x: "x \<in> set (w_groups w)" "g_fixed x' = g_fixed x" by auto
    have "framed w' ms x' = framed w ms x" for ms
      by (rule framed_cong) (use sc x in \<open>auto simp: same_core_def g_fixed_def\<close>)
    then show "\<exists>ms. framed w' ms x'" using inv x(1) by (auto simp: sys_inv_def)
  qed
  then show ?thesis using inv sc sv_inv_core [OF sc] by (auto simp: sys_inv_def same_core_def txs_def)
qed

lemma keeps_core: "core_only m \<Longrightarrow> keeps m"
  unfolding keeps_def by (blast intro: wp_core sys_core)

lemma keeps_env [keeps_intros]:
  "keeps (sysClose fd)" "keeps (updM (\<lambda>w. w\<lparr>w_nodeQueue := nq w\<rparr>))" "keeps (updM (\<lambda>w. w\<lparr>w_accepts := ac w\<rparr>))"
  "keeps (updM (\<lambda>w. w\<lparr>w_curGroupIndex := ci w\<rparr>))" "keeps epollCtl" "keeps (sysRead fd n)"
  by (auto simp: keeps_def sysClose_def epollCtl_def sysRead_def updM_def wp_def
      split: list.splits recvEvent.splits if_splits)

section \<open>The group's thread keeps the invariant\<close>

lemma keeps_recycle [keeps_intros]: "keeps (CTrafficManager_recycleNode p)"
  unfolding CTrafficManager_recycleNode_def by (intro keeps_intros)

lemma sys_good:
  "sys_inv w \<Longrightarrow> w_nodes w p = Some n \<Longrightarrow> t_status (n_transaction n) \<noteq> FREE \<Longrightarrow> good p w ok w' \<Longrightarrow> sys_inv w'"
  by (rule sys_handled [of w p w' "n_transaction n"]) (auto simp: good_def txs_def)

lemma keeps_dispatch:
  assumes buf: "length buf = MSG_MAX_LENGTH"
  shows "keeps (dispatch e buf)"
proof -
  let ?p = "hd_ext (THeader_at buf)"
  have "wp any_fault (bindM (CTransaction_onMessage e ?p buf) (\<lambda>ok.
       if ok then retM () else bindM (getTx ?p) (\<lambda>t1.
         thenM (assertM (t_status t1 = OVER)) (CTrafficManager_recycleNode ?p)))) (\<lambda>_. sys_inv) w"
    if inv: "sys_inv w" and n: "w_nodes w ?p = Some n" "t_status (n_transaction n) \<noteq> FREE" for w n
  proof -
    have "keeps (if ok then retM () else bindM (getTx ?p) (\<lambda>t1.
         thenM (assertM (t_status t1 = OVER)) (CTrafficManager_recycleNode ?p)))" for ok
      by (intro keeps_intros)
    then show ?thesis unfolding wp_bindM
      using sys_good [OF inv n] by (intro wp_mono [OF onMessage_good [OF sys_invD(1) [OF inv] n(1) buf]])
        (unfold keeps_def, blast)
  qed
  then show ?thesis
    by (auto simp: keeps_def dispatch_def wp_simps Let_def split: option.splits)
qed

lemma keeps_rollingQueue [keeps_intros]: "keeps (CNodeGroup_rollingQueue e g)"
proof (rule keepsI, goal_cases)
  case (1 w)
  note inv = this
  show ?case
  proof (cases "g < length (w_groups w)")
    case True
    then obtain ms where f: "framed w ms (w_groups w ! g)" using sys_invD(5) [OF inv] by blast
    show ?thesis
    proof (cases ms)
      case Nil
      then show ?thesis using rollingQueue_idle [OF True, of e] f inv by (simp add: wp_def)
    next
      case (Cons m ms')
      show ?thesis
      proof (rule wp_rollingQueue [OF True f [unfolded Cons]])
        fix q x assume "framed w ms' x"
        then show "wp any_fault (dispatch e (g_buffer x)) (\<lambda>_. sys_inv) (w\<lparr>w_groups := (w_groups w)[g := x]\<rparr>)"
          using keeps_dispatch [of "g_buffer x" e] sys_group [OF inv] by (auto simp: keeps_def framed_def)
      qed
    qed
  qed (simp add: CNodeGroup_rollingQueue_def wp_simps)
qed

lemma keeps_onCheck:
  "sys_inv w \<Longrightarrow> w_nodes w p = Some n \<Longrightarrow> t_status (n_transaction n) = READY \<Longrightarrow>
   wp any_fault (CTransaction_onCheck e p) (\<lambda>_. sys_inv) w"
  by (rule wp_mono [OF onCheck_kept [OF sys_invD(1)]])
    (auto intro: sys_good [of w p n True] dest: kept_good)

lemma framed_pos: "framed w ms x \<Longrightarrow> framed w ms (x\<lparr>g_pos := q\<rparr>)" "framed w ms x \<Longrightarrow> framed w ms (x\<lparr>g_container := c\<rparr>)"
  by (simp_all add: framed_def)

lemma keeps_updGroup:
  assumes "\<And>x (w :: 'r world) ms. framed w ms x \<Longrightarrow> framed w ms (f x)"
  shows "keeps (updGroup g f :: ('r, unit) handler)"
proof (rule keepsI, goal_cases)
  case (1 w)
  note inv = this
  show ?case
  proof (cases "g < length (w_groups w)")
    case True
    then obtain ms where "framed w ms (w_groups w ! g)" using sys_invD(5) [OF inv] by blast
    then show ?thesis using True sys_group [OF inv assms] by (simp add: wp_simps)
  qed (simp add: wp_simps)
qed

lemma keeps_checkNode [keeps_intros]: "keeps (checkNode e p)"
  using keeps_onCheck by (auto simp: keeps_def checkNode_def wp_simps split: option.splits)

lemma keeps_rollingNode [keeps_intros]: "keeps (CNodeGroup_rollingNode e g)"
  unfolding CNodeGroup_rollingNode_def Let_def
  by (intro keeps_intros) (auto split: list.splits intro!: keeps_intros keeps_updGroup framed_pos)

lemma keeps_CNodeGroup_working [keeps_intros]: "keeps (CNodeGroup_working e g)"
  unfolding CNodeGroup_working_def by (intro keeps_intros)

section \<open>Messages from the other threads\<close>

lemma keeps_put:
  assumes inv: "sys_inv w" and n: "w_nodes w p = Some n"
    and m: "hd_ext (THeader_at m) = p" "unat (hd_size (THeader_at m)) = length m"
      "sizeof_THeader \<le> length m" "length m \<le> MSG_MAX_LENGTH"
  shows "wp any_fault (bindM (groupOf p) (\<lambda>g. CNodeGroup_putMessage g m)) (\<lambda>_. sys_inv) w"
proof -
  have fr: "frame w m" using m n by (auto simp: frame_def)
  have "wp any_fault (CNodeGroup_putMessage g m) (\<lambda>_. sys_inv) w" for g
  proof (cases "g < length (w_groups w)")
    case True
    then obtain ms where f: "framed w ms (w_groups w ! g)" using sys_invD(5) [OF inv] by blast
    show ?thesis
      by (rule putMessage_framed [OF True f fr]) (use m sys_group [OF inv] in auto)
  qed (simp add: CNodeGroup_putMessage_def wp_simps)
  then show ?thesis using n by (simp add: wp_simps split: option.splits)
qed

lemma keeps_overQueue [keeps_intros]:
  fixes e :: "'r env"
  shows "keeps (CTransaction_over e p r True)"
proof -
  have m: "hd_ext (THeader_at (TPDUOnOver_bytes (overMsg c p now r))) = p"
    "unat (hd_size (THeader_at (TPDUOnOver_bytes (overMsg c p now r)))) = sizeof_TPDUOnOver" for c now
    using TPDUOnOver_at_bytes [of "overMsg c p now r" "[]"]
    by (auto simp: TPDUOnOver_at_def overMsg_def layout)
  have "wp any_fault (bindM (groupOf p) (\<lambda>g. CNodeGroup_putMessage g (TPDUOnOver_bytes (overMsg c p now r)))) (\<lambda>_. sys_inv) w"
    if "sys_inv w" for w :: "'r world" and now c
  proof (cases "w_nodes w p")
    case (Some n)
    then show ?thesis by (rule keeps_put [OF that]) (simp_all add: m, simp_all add: layout)
  qed (simp add: wp_simps)
  then show ?thesis by (simp add: keeps_def CTransaction_over_def wp_bindM wp_CBase_now Let_def)
qed

lemma keeps_onTimerCallback:
  fixes e :: "'r env"
  shows "keeps (CTransactionManager_onTimer e u p par)"
proof -
  have m: "hd_ext (THeader_at (TPDUOnTimer_bytes (timerMsg e now u p par))) = p"
    "unat (hd_size (THeader_at (TPDUOnTimer_bytes (timerMsg e now u p par)))) = sizeof_TPDUOnTimer" for now
    using TPDUOnTimer_at_bytes [of "timerMsg e now u p par" "[]"]
    by (auto simp: TPDUOnTimer_at_def timerMsg_def layout)
  have "wp any_fault (bindM (groupOf p) (\<lambda>g. CNodeGroup_putMessage g (TPDUOnTimer_bytes (timerMsg e now u p par)))) (\<lambda>_. sys_inv) w"
    if "sys_inv w" for w :: "'r world" and now
  proof (cases "w_nodes w p")
    case (Some n)
    then show ?thesis by (rule keeps_put [OF that]) (simp_all add: m, simp_all add: layout)
  qed (simp add: wp_simps)
  then show ?thesis
    by (simp add: keeps_def CTransactionManager_onTimer_def wp_bindM wp_thenM wp_retM wp_assertM wp_CBase_now)
qed

section \<open>The timer thread keeps the invariant\<close>

lemma sys_timers:
  "sys_inv w \<Longrightarrow> tm_ok m \<Longrightarrow> issued m = issued (w_timers w) \<Longrightarrow> sys_inv (w\<lparr>w_timers := m\<rparr>)"
proof -
  assume a: "sys_inv w" "tm_ok m" "issued m = issued (w_timers w)"
  have "framed (w\<lparr>w_timers := m\<rparr>) ms x = framed w ms x" for ms x by (rule framed_cong) simp_all
  then show ?thesis using a by (simp add: sys_inv_def sv_inv_def reg_ok_def)
qed

lemma onTimer_timers:
  "CTransactionManager_onTimer e u p par w = Inr (again, w') \<Longrightarrow> w_timers w' = w_timers w"
proof -
  have "wp any_fault (CTransactionManager_onTimer e u p par) (\<lambda>_ w'. w_timers w' = w_timers w) w"
    by (auto simp: CTransactionManager_onTimer_def CNodeGroup_putMessage_def wp_simps split: option.splits sum.splits)
  then show "CTransactionManager_onTimer e u p par w = Inr (again, w') \<Longrightarrow> w_timers w' = w_timers w"
    by (simp add: wp_def)
qed

lemma keeps_timerThread [keeps_intros]: "keeps (CTransactionManager_working e)"
proof (rule keepsI, goal_cases)
  case (1 w)
  note inv = this
  have "sys_inv (w'\<lparr>w_timers := m'\<rparr>)"
    if r: "CTimerManager_working (CTransactionManager_onTimer e) tv (w_timers w) (w\<lparr>w_ticks := k\<rparr>) = Inr (go, m', w')"
    for tv k go m' w'
  proof -
    have ok: "tm_ok (w_timers w)" using sys_invD(1) [OF inv] by (simp add: sv_inv_def)
    have m: "tm_ok m'" "issued m' = issued (w_timers w)"
      and w': "w' = w\<lparr>w_ticks := k\<rparr> \<or> (\<exists>u pI pII again. CTransactionManager_onTimer e u pI pII (w\<lparr>w_ticks := k\<rparr>) = Inr (again, w'))"
      using working_partial [OF ok r] by auto
    have "sys_inv w' \<and> w_timers w' = w_timers w"
      using w'
    proof
      assume "\<exists>u pI pII again. CTransactionManager_onTimer e u pI pII (w\<lparr>w_ticks := k\<rparr>) = Inr (again, w')"
      then obtain u pI pII again where cb: "CTransactionManager_onTimer e u pI pII (w\<lparr>w_ticks := k\<rparr>) = Inr (again, w')" by blast
      have "wp any_fault (CTransactionManager_onTimer e u pI pII) (\<lambda>_. sys_inv) (w\<lparr>w_ticks := k\<rparr>)"
        using keeps_onTimerCallback [of e u pI pII] inv by (simp add: keeps_def)
      then show ?thesis using cb onTimer_timers [OF cb] by (simp add: wp_def)
    qed (use inv in simp)
    then show ?thesis using sys_timers m by metis
  qed
  then show ?case
    unfolding CTransactionManager_working_def wp_bindM wp_gettimeofday
    by (auto simp: wp_def bindR_def split: sum.splits)
qed

section \<open>Receiving keeps the invariant\<close>

text \<open>A change of a node that leaves its transaction alone.\<close>

lemma sys_node:
  assumes inv: "sys_inv w" and n: "w_nodes w p = Some n" "n_transaction n' = n_transaction n" "recv_ok n'"
  shows "sys_inv (w\<lparr>w_nodes := (w_nodes w)(p \<mapsto> n')\<rparr>)"
proof -
  let ?w = "w\<lparr>w_nodes := (w_nodes w)(p \<mapsto> n')\<rparr>"
  have tx: "txs ?w = txs w" using n by (auto simp: txs_def fun_eq_iff)
  have d: "dom (w_nodes ?w) = dom (w_nodes w)" using n by auto
  have "sv_inv ?w" using sys_invD(1) [OF inv] tx by (simp add: sv_inv_def reg_ok_def ready_def sessionKey_txs inj_on_def)
  moreover have "framed ?w ms x = framed w ms x" for ms x by (rule framed_cong [OF d]) simp_all
  ultimately show ?thesis using inv tx d n by (auto simp: sys_inv_def)
qed

lemma THeader_at_take: "sizeof_THeader \<le> k \<Longrightarrow> sizeof_THeader \<le> length bs \<Longrightarrow> THeader_at (take k bs) = THeader_at bs"
  using THeader_at_append [of "take k bs" "drop k bs"] by simp

lemma THeader_at_overwrite:
  "sizeof_THeader \<le> off \<Longrightarrow> off \<le> length b \<Longrightarrow> THeader_at (overwrite b off bs) = THeader_at b"
  using THeader_at_append [of "take off b"] THeader_at_take [of off b] by (simp add: overwrite_def)

text \<open>A complete message in the receive buffer.\<close>

definition complete :: "node \<Rightarrow> bool" where
  "complete n \<longleftrightarrow> n_recvDueSize n \<noteq> 0 \<and> n_recvOffset n = n_recvDueSize n"

lemma patched_ext:
  assumes "recv_ok n" and "complete n" and "b = patchHeader (\<lambda>h. h\<lparr>hd_ext := p\<rparr>) (n_recvBuffer n)"
  shows "length b = MSG_MAX_LENGTH" and "hd_size (THeader_at b) = n_recvDueSize n" and "hd_ext (THeader_at b) = p"
    and "sizeof_THeader \<le> unat (n_recvDueSize n)" and "unat (n_recvDueSize n) \<le> MSG_MAX_LENGTH"
  using assms by (auto simp: recv_ok_def complete_def layout)

lemma recvDeliver_sys:
  assumes inv: "sys_inv w" and n: "w_nodes w p = Some n" "complete n"
  shows "wp any_fault (recvDeliver p) (\<lambda>_. sys_inv) w"
proof -
  define b where "b = patchHeader (\<lambda>h. h\<lparr>hd_ext := p\<rparr>) (n_recvBuffer n)"
  define n1 where "n1 = n\<lparr>n_recvBuffer := b\<rparr>"
  define w1 where "w1 = w\<lparr>w_nodes := (w_nodes w)(p \<mapsto> n1)\<rparr>"
  have rn: "recv_ok n" using sys_invD(6) [OF inv n(1)] .
  note b = patched_ext [OF rn n(2) b_def]
  have "recv_ok n1" using rn n(2) b by (auto simp: recv_ok_def n1_def complete_def)
  then have inv1: "sys_inv w1" unfolding w1_def by (intro sys_node [OF inv n(1)]) (simp add: n1_def)
  let ?m = "take (unat (n_recvDueSize n)) b"
  have m: "THeader_at ?m = THeader_at b" using b by (intro THeader_at_take) (simp_all add: layout)
  then have f: "frame w1 ?m" using b by (auto simp: frame_def w1_def)
  have "wp any_fault (CNodeGroup_putMessage g b)
      (\<lambda>ok. wp any_fault (if \<not> ok then retM False
        else thenM (updNode p (\<lambda>n. n\<lparr>n_recvOffset := 0, n_recvDueSize := 0\<rparr>)) (retM True)) (\<lambda>_. sys_inv)) w1" for g
  proof (cases "g < length (w_groups w1)")
    case True
    then obtain ms where fm: "framed w1 ms (w_groups w1 ! g)" using sys_invD(5) [OF inv1] by blast
    show ?thesis
    proof (rule putMessage_framed [OF True fm f])
      show "?m = take (unat (hd_size (THeader_at b))) b" "THeader_at ?m = THeader_at b" using b m by simp_all
      fix ok q assume "framed w1 (if ok then ms @ [?m] else ms) ((w_groups w1 ! g)\<lparr>g_queue := q\<rparr>)"
      then have inv2: "sys_inv (w1\<lparr>w_groups := (w_groups w1)[g := (w_groups w1 ! g)\<lparr>g_queue := q\<rparr>]\<rparr>)" (is "sys_inv ?w2")
        by (rule sys_group [OF inv1])
      have "w_nodes ?w2 p = Some n1" by (simp add: w1_def)
      moreover have "recv_ok (n1\<lparr>n_recvOffset := 0, n_recvDueSize := 0\<rparr>)" using b by (simp add: recv_ok_def n1_def)
      ultimately show "wp any_fault (if \<not> ok then retM False
        else thenM (updNode p (\<lambda>n. n\<lparr>n_recvOffset := 0, n_recvDueSize := 0\<rparr>)) (retM True)) (\<lambda>_. sys_inv) ?w2"
        using inv2 sys_node [OF inv2, of p n1] by (simp add: wp_simps)
    qed
  qed (simp add: CNodeGroup_putMessage_def wp_simps)
  then show ?thesis using n(1)
    by (simp add: recvDeliver_def wp_bindM wp_thenM wp_updNode wp_getNode wp_groupOf b_def n1_def w1_def split: option.splits)
qed

lemma recvCount_header:
  "n_recvDueSize n = 0 \<Longrightarrow> unat (n_recvOffset n) \<le> sizeof_THeader \<Longrightarrow>
   recvCount n = sizeof_THeader - unat (n_recvOffset n)"
  by (simp add: recvCount_def layout unat_sub_if' unsigned_ucast_eq take_bit_nat_eq_self
      order.strict_trans1 [of _ 29] split: if_splits)

text \<open>The offset does not wrap within the buffer.\<close>

lemma recvOffset_step:
  "unat off + k \<le> MSG_MAX_LENGTH \<Longrightarrow> unat (off + of_nat k :: ub2_) = unat off + k"
  by (subst unat_plus_lt) (simp_all add: unat_of_nat_lt layout)

text \<open>The node once \<open>bs\<close> has been read into its buffer.\<close>

definition stored :: "node \<Rightarrow> ub1_ list \<Rightarrow> node" where
  "stored n bs =
     (let b = overwrite (n_recvBuffer n) (unat (n_recvOffset n)) bs; off = n_recvOffset n + of_nat (length bs) in
      n\<lparr>n_recvBuffer := b, n_recvOffset := off,
        n_recvDueSize := (if n_recvDueSize n = 0 \<and> off = of_nat sizeof_THeader then hd_size (THeader_at b)
                          else n_recvDueSize n)\<rparr>)"

lemma stored_fields [simp]:
  "n_transaction (stored n bs) = n_transaction n" "n_group (stored n bs) = n_group n" "n_fd (stored n bs) = n_fd n"
  by (simp_all add: stored_def Let_def)

lemma stored_ok:
  assumes "recv_ok n" and "bs \<noteq> []" and "length bs \<le> recvCount n"
    and "unat (n_recvOffset n) + length bs \<le> MSG_MAX_LENGTH"
  shows "recv_ok (stored n bs)"
proof (cases "n_recvDueSize n = 0")
  case True
  then have c: "recvCount n = sizeof_THeader - unat (n_recvOffset n)" "unat (n_recvOffset n) \<le> sizeof_THeader"
    using assms(1) recvCount_header [of n] by (simp_all add: recv_ok_def)
  then have "unat (n_recvOffset n) + length bs \<le> sizeof_THeader" using assms(3) by simp
  then show ?thesis
    using assms True recvOffset_step [OF assms(4)] by (auto simp: recv_ok_def stored_def Let_def layout)
next
  case False
  then show ?thesis
    using assms THeader_at_overwrite recvOffset_step [OF assms(4)]
    by (auto simp: recv_ok_def stored_def Let_def)
qed

lemma wp_recvBytes:
  assumes n: "w_nodes w p = Some n" and rn: "recv_ok n" and bs: "bs \<noteq> []" "length bs \<le> recvCount n"
    and fit: "unat (n_recvOffset n) + length bs \<le> MSG_MAX_LENGTH"
  shows "wp F (recvBytes p bs) Q w =
    wp F (if complete (stored n bs) then recvDeliver p else retM True) Q (w\<lparr>w_nodes := (w_nodes w)(p \<mapsto> stored n bs)\<rparr>)"
proof -
  let ?b = "overwrite (n_recvBuffer n) (unat (n_recvOffset n)) bs" and ?off = "n_recvOffset n + of_nat (length bs)"
  have m: "memcpy (n_recvBuffer n) (unat (n_recvOffset n)) bs 0 (length bs) = Inr ?b"
    using fit rn by (simp add: memcpy_overwrite recv_ok_def segment_def)
  have h: "le_word (segment 0 2 ?b) = hd_size (THeader_at ?b)" by (simp add: THeader_at_def)
  have z: "?off \<noteq> 0" using recvOffset_step [OF fit] bs(1) by (metis unat_0 add_is_0 length_0_conv)
  let ?n1 = "n\<lparr>n_recvBuffer := ?b, n_recvOffset := ?off\<rparr>"
  note defs = recvBytes_def m h Let_def wp_simps complete_def
  consider "n_recvDueSize n = 0" "?off = of_nat sizeof_THeader" | "\<not> (n_recvDueSize n = 0 \<and> ?off = of_nat sizeof_THeader)"
    by blast
  then show ?thesis
  proof cases
    case 1
    then have "stored n bs = ?n1\<lparr>n_recvDueSize := hd_size (THeader_at ?b)\<rparr>" by (simp add: stored_def Let_def)
    then show ?thesis using n 1 z by (auto simp: defs layout)
  next
    case 2
    then have s: "stored n bs = ?n1" unfolding stored_def Let_def by (subst if_not_P) simp_all
    then show ?thesis using n 2 z unfolding s by (auto simp: defs)
  qed
qed

lemma recvBytes_sys:
  fixes w :: "'r world"
  assumes inv: "sys_inv w" and n: "w_nodes w p = Some n" and bs: "bs \<noteq> []" "length bs \<le> recvCount n"
  shows "wp any_fault (recvBytes p bs) (\<lambda>_. sys_inv) w"
proof (cases "unat (n_recvOffset n) + length bs \<le> MSG_MAX_LENGTH")
  case False
  have "length (n_recvBuffer n) = MSG_MAX_LENGTH" using sys_invD(6) [OF inv n] by (simp add: recv_ok_def)
  then show ?thesis using False n by (simp add: recvBytes_def wp_simps memcpy_def)
next
  case True
  have rn: "recv_ok n" using sys_invD(6) [OF inv n] .
  have "sys_inv (w\<lparr>w_nodes := (w_nodes w)(p \<mapsto> stored n bs)\<rparr>)"
    using stored_ok [OF rn bs True] by (intro sys_node [OF inv n]) simp_all
  then show ?thesis
    unfolding wp_recvBytes [OF n rn bs True] using recvDeliver_sys [of "w\<lparr>w_nodes := (w_nodes w)(p \<mapsto> stored n bs)\<rparr>" p "stored n bs"] by (simp add: wp_retM)
qed

text \<open>A \<open>read\<close> returns at most the bytes asked for, and takes them from what has arrived.\<close>

lemma wp_sysRead:
  assumes "\<And>r ri. (\<And>bs. r = Got bs \<Longrightarrow> length bs \<le> count \<and> arrivedBytes (w_in w fd) = length bs + arrivedBytes (ri fd)) \<Longrightarrow>
    (\<forall>fd'. fd' \<noteq> fd \<longrightarrow> ri fd' = w_in w fd') \<Longrightarrow> Q r (w\<lparr>w_in := ri\<rparr>)"
  shows "wp F (sysRead fd count) Q w"
proof (cases "w_in w fd")
  case Nil
  then show ?thesis using assms [of _ "w_in w"] by (auto simp: sysRead_def wp_def)
next
  case (Cons ev rest)
  then show ?thesis
    using assms [of "Got []" "w_in w"] assms [of _ "w_in w"] assms [of "Got (take count _)" "(w_in w)(fd := Arrived (drop count _) # rest)"]
      assms [of "Got _" "(w_in w)(fd := rest)"] assms [of "Failed _" "(w_in w)(fd := rest)"]
    by (cases ev) (auto simp: sysRead_def wp_def)
qed

lemma keeps_recvLoop: "keeps (recvLoop k p :: ('r, bool) handler)"
proof (induction k)
  case 0
  then show ?case by (simp add: keeps_intros)
next
  case (Suc k)
  show ?case
  proof (rule keepsI, goal_cases)
    case (1 w)
    note inv = this
    show ?case
    proof (cases "w_nodes w p")
      case (Some n)
      show ?thesis
        unfolding recvLoop.simps wp_bindM wp_getNode Some option.case
      proof (rule wp_sysRead, goal_cases)
        case (1 r ri)
        have inv1: "sys_inv (w\<lparr>w_in := ri\<rparr>)" (is "sys_inv ?w") using inv by simp
        have "wp any_fault (recvBytes p bs) (\<lambda>go. wp any_fault (if go then recvLoop k p else retM False) (\<lambda>_. sys_inv)) ?w"
          if "bs \<noteq> []" "r = Got bs" for bs
          by (rule wp_mono [OF recvBytes_sys [OF inv1, of p n bs]])
            (use that 1 Some Suc.IH in \<open>auto simp: keeps_def wp_retM\<close>)
        then show ?case using inv1
          by (auto simp: wp_simps CNode_handleRecvErrors_def split: ioResult.splits)
      qed
    qed (simp add: wp_simps)
  qed
qed

lemma keeps_recv [keeps_intros]: "keeps (CNode_recv p)"
  unfolding CNode_recv_def by (intro keeps_intros keeps_recvLoop)

section \<open>Attaching and detaching keep the invariant\<close>

lemma framed_push: "framed w ms x \<Longrightarrow> framed w ms (x\<lparr>g_container := g_container x @ [p]\<rparr>)"
  by (simp add: framed_def)

lemma attach_sys:
  fixes w :: "'r world"
  assumes inv: "sys_inv w" and n: "w_nodes w p = Some n" "n_transaction n = CTransaction_new"
    and p: "p \<notin> set (freeDeque (w_res w))"
  shows "wp any_fault (CNodeGroup_attach e g p ip port fd) (\<lambda>_. sys_inv) w"
proof -
  let ?n = "n\<lparr>n_group := Some g, n_recvOffset := 0, n_recvDueSize := 0,
              n_ip := strncpy (n_ip n) ip Length_IP_V4, n_port := port, n_fd := fd\<rparr>"
  let ?w = "w\<lparr>w_nodes := (w_nodes w)(p \<mapsto> ?n)\<rparr>"
  have "recv_ok ?n" using sys_invD(6) [OF inv n(1)] by (simp add: recv_ok_def)
  then have inv1: "sys_inv ?w" by (intro sys_node [OF inv n(1)]) simp_all
  have tail: "keeps (if \<not> ok then retM False else
          bindM (getGroup g) (\<lambda>x.
          thenM (if g_container x = [] then thenM (CRedisOperator_connect e g) (retM ()) else retM ())
          (thenM (updGroup g (\<lambda>x. x\<lparr>g_container := g_container x @ [p]\<rparr>)) (retM True))))" for ok
    by (intro keeps_intros keeps_updGroup framed_push keeps_core core_intros)
  have "wp any_fault (CTransaction_onAttach e p) (\<lambda>_. sys_inv) ?w"
    by (rule wp_mono [OF onAttach_ok [OF sys_invD(1) [OF inv1], of p ?n]])
      (use n p in \<open>auto intro: sys_handled_new [OF inv1] simp: CTransaction_new_def\<close>)
  then show ?thesis
    using n(1) tail unfolding CNodeGroup_attach_def CNode_onAttach_def wp_thenM wp_bindM wp_assertM wp_updNode
    by (auto simp: keeps_def elim!: wp_mono)
qed

lemma onDetach_sys:
  fixes w :: "'r world"
  assumes inv: "sys_inv w"
  shows "wp any_fault (CNode_onDetach p) (\<lambda>_ w'. sys_inv w' \<and> w_res w' = w_res w \<and> txs w' p = Some CTransaction_new) w"
proof -
  let ?u = "\<lambda>n. n\<lparr>n_fd := 0, n_port := 0, n_ip := zeros Size_IP_V4, n_recvOffset := 0, n_recvDueSize := 0, n_group := None\<rparr>"
  consider n where "w_nodes w p = Some n" "t_status (n_transaction n) = OVER"
    | "wp any_fault (CTransaction_onDetach p) (\<lambda>_ _. False) w"
    using that by (cases "w_nodes w p"; cases "\<exists>n. w_nodes w p = Some n \<and> t_status (n_transaction n) = OVER")
      (auto simp: CTransaction_onDetach_def wp_simps)
  then show ?thesis
  proof cases
    case 1
    let ?n = "n\<lparr>n_transaction := CTransaction_new\<rparr>"
    let ?w = "w\<lparr>w_nodes := (w_nodes w)(p \<mapsto> ?n)\<rparr>"
    have h: "handled p w ?w" using 1 by (auto simp: handled_def n_fixed_def)
    have "p \<notin> set (freeDeque (w_res w))" using sys_invD(4) [OF inv, of p] 1 by (auto simp: txs_def CTransaction_new_def)
    then have "sv_inv ?w \<Longrightarrow> sys_inv ?w" by (intro sys_handled_new [OF inv h])
    moreover have "recv_ok (?u ?n)" using sys_invD(6) [OF inv 1(1)] by (simp add: recv_ok_def)
    ultimately have "sv_inv ?w \<Longrightarrow> sys_inv (?w\<lparr>w_nodes := (w_nodes ?w)(p \<mapsto> ?u ?n)\<rparr>)"
      by (intro sys_node [of ?w p ?n]) simp_all
    then show ?thesis unfolding CNode_onDetach_def wp_thenM
      by (intro wp_mono [OF onDetach_ok [OF sys_invD(1) [OF inv] 1]]) (auto simp: wp_simps txs_def)
  next
    case 2
    then show ?thesis unfolding CNode_onDetach_def wp_thenM by (rule wp_mono) simp
  qed
qed

lemma framed_remove:
  "framed w ms x \<Longrightarrow> framed w ms (x\<lparr>g_pos := f x, g_container := h x\<rparr>)"
  by (simp add: framed_def)

lemma detach_sys:
  fixes w :: "'r world"
  assumes inv: "sys_inv w"
  shows "wp any_fault (CNodeGroup_detach e g p) (\<lambda>_ w'. sys_inv w' \<and> w_res w' = w_res w \<and> txs w' p = Some CTransaction_new) w"
proof -
  have on: "wp any_fault (CNode_onDetach p) (\<lambda>_ w'. sys_inv w' \<and> w_res w' = w_res w \<and> txs w' p = Some CTransaction_new) w1"
    if "sys_inv w1" "w_res w1 = w_res w" for w1 :: "'r world" using onDetach_sys [OF that(1), of p] that(2) by simp
  have dis: "wp any_fault (CRedisOperator_disconnect e g)
      (\<lambda>_. wp any_fault (CNode_onDetach p) (\<lambda>_ w'. sys_inv w' \<and> w_res w' = w_res w \<and> txs w' p = Some CTransaction_new)) w1"
    if "sys_inv w1" "w_res w1 = w_res w" for w1 :: "'r world"
    by (rule wp_core [OF core_disconnect]) (use that sys_core [OF that(1)] on in \<open>auto simp: same_core_def\<close>)
  show ?thesis
  proof (cases "g < length (w_groups w)")
    case True
    then obtain ms where f: "framed w ms (w_groups w ! g)" using sys_invD(5) [OF inv] by blast
    have "sys_inv (w\<lparr>w_groups := (w_groups w)[g := (w_groups w ! g)\<lparr>g_pos := q, g_container := c\<rparr>]\<rparr>)" for q c
      by (rule sys_group [OF inv, of ms]) (use f in \<open>simp add: framed_def\<close>)
    then show ?thesis using True on dis
      by (auto simp: CNodeGroup_detach_def wp_simps split: option.splits)
  qed (simp add: CNodeGroup_detach_def wp_simps)
qed


section \<open>The traffic manager keeps the invariant\<close>

lemma sys_res:
  assumes "sys_inv w" and "pool_wf r" and "set (unitGroup r) = set (unitGroup (w_res w))"
    and "\<And>q. q \<in> set (freeDeque r) \<Longrightarrow> txs w q = Some CTransaction_new"
  shows "sys_inv (w\<lparr>w_res := r\<rparr>)"
proof -
  have "framed (w\<lparr>w_res := r\<rparr>) ms x = framed w ms x" for ms x by (rule framed_cong) simp_all
  moreover have "sv_inv (w\<lparr>w_res := r\<rparr>) = sv_inv w" "txs (w\<lparr>w_res := r\<rparr>) = txs w"
    by (simp_all add: sv_inv_def reg_ok_def ready_def txs_def sessionKey_def inj_on_def fun_eq_iff)
  ultimately show ?thesis using assms by (simp add: sys_inv_def)
qed

lemma wp_epollCtl: "(\<And>ok l. Q ok (w\<lparr>w_epollCtl := l\<rparr>)) \<Longrightarrow> wp F epollCtl Q w"
proof (cases "w_epollCtl w")
  case Nil
  assume "\<And>ok l. Q ok (w\<lparr>w_epollCtl := l\<rparr>)"
  from this [of True "w_epollCtl w"] have "Q True w" by simp
  then show ?thesis using Nil by (simp add: epollCtl_def wp_def)
qed (simp add: epollCtl_def wp_def)

lemma keeps_delNode [keeps_intros]: "keeps (CTrafficManager_delNode e p :: ('r, unit) handler)"
proof (rule keepsI, goal_cases)
  case (1 w)
  note inv = this
  show ?case
  proof (cases "w_nodes w p")
    case (Some n)
    show ?thesis
    proof (cases "t_status (n_transaction n) = FREE \<or> n_fd n = 0")
      case False
      then have nf: "p \<notin> set (freeDeque (w_res w))"
        using sys_invD(4) [OF inv, of p] Some by (auto simp: txs_def CTransaction_new_def)
      have pu: "p \<in> set (unitGroup (w_res w))" using sys_invD(3) [OF inv] Some by auto
      obtain r where r: "CResource_reclaim (w_res w) p = Inr (True, r)" "pool_wf r"
        "freeDeque r = freeDeque (w_res w) @ [p]" "set (unitGroup r) = set (unitGroup (w_res w))"
        using res.recl_held [OF sys_invD(2) [OF inv] pu nf] by blast
      have rec: "wp any_fault (reclaimNode p) (\<lambda>_. sys_inv) w1"
        if "sys_inv w1" "w_res w1 = w_res w" "txs w1 p = Some CTransaction_new" for w1 :: "'r world"
        using that r sys_res [OF that(1) r(2)] sys_invD(4) [OF that(1)] by (auto simp: reclaimNode_def wp_simps)
      have det: "wp any_fault (CNodeGroup_detach e g p) (\<lambda>_. wp any_fault (reclaimNode p) (\<lambda>_. sys_inv)) w1"
        if "sys_inv w1" "w_res w1 = w_res w" for g and w1 :: "'r world"
        by (rule wp_mono [OF detach_sys [OF that(1)]]) (use rec that(2) in auto)
      have grp: "wp any_fault (bindM (groupOf p) (\<lambda>g. thenM (CNodeGroup_detach e g p) (reclaimNode p))) (\<lambda>_. sys_inv) w1"
        if "sys_inv w1" "w_res w1 = w_res w" for w1 :: "'r world"
        using det [OF that] by (auto simp: wp_simps split: option.splits)
      show ?thesis
        using Some False grp inv unfolding CTrafficManager_delNode_def wp_bindM wp_getNode
        by (simp add: wp_if wp_thenM sysClose_def wp_updM wp_epollCtl wp_bindM)
    qed (use Some inv in \<open>auto simp: CTrafficManager_delNode_def wp_simps\<close>)
  qed (simp add: CTrafficManager_delNode_def wp_simps)
qed

lemma keeps_delNodes [keeps_intros]: "keeps (delNodes e ps)"
  by (induction ps) (auto intro!: keeps_intros)

lemma keeps_addNodes [keeps_intros]: "keeps (addNodes e evs :: ('r, unit) handler)"
proof (induction evs)
  case (Cons ev rest)
  note IH = this
  show ?case
  proof (cases ev)
  case (Incoming ip port fd)
  have tail: "keeps (if \<not> ok then sysClose fd
            else bindM epollCtl (\<lambda>added. if \<not> added then CNodeGroup_detach e g p else addNodes e rest))" for ok g p
  proof -
    have "keeps (CNodeGroup_detach e g p :: ('r, unit) handler)"
      by (rule keepsI, rule wp_mono [OF detach_sys]) auto
    then show ?thesis using IH by (intro keeps_intros)
  qed
  show ?thesis
  proof (rule keepsI, goal_cases)
    case (1 w)
    note inv = this
    have "wp any_fault (bindM allocateNode (\<lambda>p.
          bindM (CTrafficManager_allocateGroup e) (\<lambda>g.
          bindM (CNodeGroup_attach e g p ip port fd) (\<lambda>ok.
            if \<not> ok then sysClose fd
            else bindM epollCtl (\<lambda>added. if \<not> added then CNodeGroup_detach e g p else addNodes e rest))))) (\<lambda>_. sys_inv) w1"
      if inv1: "sys_inv w1" and nz: "CResource_size (w_res w1) \<noteq> 0" for w1 :: "'r world"
    proof -
      obtain p us where f: "freeDeque (w_res w1) = p # us"
        using nz size_zero_iff [OF sys_invD(2) [OF inv1]] by (cases "freeDeque (w_res w1)") auto
      obtain r where r: "CResource_allocate (w_res w1) = Inr (p, r)" "pool_wf r" "freeDeque r = us"
        "set (unitGroup r) = set (unitGroup (w_res w1))"
        using res.alloc_first [OF sys_invD(2) [OF inv1] f] by blast
      have np: "p \<notin> set us" using res.free_distinct [OF sys_invD(2) [OF inv1]] f by simp
      obtain n where n: "w_nodes w1 p = Some n" "n_transaction n = CTransaction_new"
        using sys_invD(4) [OF inv1, of p] f by (auto simp: txs_def)
      have inv2: "sys_inv (w1\<lparr>w_res := r\<rparr>)"
        by (rule sys_res [OF inv1 r(2,4)]) (use sys_invD(4) [OF inv1] f r in auto)
      have att: "wp any_fault (CNodeGroup_attach e g p ip port fd)
          (\<lambda>ok. wp any_fault (if \<not> ok then sysClose fd
            else bindM epollCtl (\<lambda>added. if \<not> added then CNodeGroup_detach e g p else addNodes e rest)) (\<lambda>_. sys_inv))
          (w1\<lparr>w_res := r, w_curGroupIndex := j\<rparr>)" for g j
        by (rule wp_mono [OF attach_sys [of _ p n]]) (use inv2 n np r tail in \<open>auto simp: keeps_def\<close>)
      show ?thesis
        unfolding allocateNode_def CTrafficManager_allocateGroup_def wp_bindM wp_getsM wp_liftR r(1) sum.case prod.case
          wp_thenM wp_retM wp_updM Let_def by (rule att)
    qed
    moreover have "wp any_fault (sysClose fd) (\<lambda>_. sys_inv) w1" if "sys_inv w1" for w1 :: "'r world"
      using that by (simp add: sysClose_def wp_updM)
    ultimately show ?case using inv Incoming by (auto simp: wp_simps)
  qed
  qed (simp add: keeps_intros)
qed (simp add: keeps_intros)

lemma keeps_handleEvent [keeps_intros]: "keeps (handleEvent e ev)"
  unfolding handleEvent_def CTrafficManager_addNodes_def Let_def by (intro keeps_intros)

lemma keeps_CTrafficManager_working [keeps_intros]: "keeps (CTrafficManager_working e r)"
  unfolding CTrafficManager_working_def by (cases r) (auto intro!: keeps_intros)

section \<open>Construction establishes the invariant\<close>

text \<open>
  What the start of the server relies on: at least two users, a queue of less than 2 GB, and
  memory from \<open>new\<close> that is as long as was asked for, at addresses that are not null and differ.
\<close>

definition boot_ok :: "config \<Rightarrow> (nat \<Rightarrow> ub8_) \<Rightarrow> (nat \<Rightarrow> ub8_) \<Rightarrow> (nat \<Rightarrow> ub1_ list) \<Rightarrow> bool" where
  "boot_ok cfg timerAddr nodeAddr mem \<longleftrightarrow>
     1 < TOTAL_SUPPORT_USER_NUM cfg \<and> inj_on nodeAddr {0..<unat (TOTAL_SUPPORT_USER_NUM cfg)} \<and>
     (\<forall>i < unat (TOTAL_SUPPORT_USER_NUM cfg). nodeAddr i \<noteq> null_v) \<and>
     1 < TOTAL_SUPPORT_USER_NUM cfg * 8 \<and> inj_on timerAddr {0..<unat (TOTAL_SUPPORT_USER_NUM cfg * 8)} \<and>
     (\<forall>i < unat (TOTAL_SUPPORT_USER_NUM cfg * 8). timerAddr i \<noteq> null_v) \<and>
     0 < unat (MESSAGE_MAX_NUM_IN_QUEUE cfg * of_nat MSG_MAX_LENGTH) \<and>
     unat (MESSAGE_MAX_NUM_IN_QUEUE cfg * of_nat MSG_MAX_LENGTH) < 2 ^ 31 \<and> (\<forall>k. length (mem k) = k)"

lemma server_new_inv:
  assumes boot: "boot_ok cfg timerAddr nodeAddr mem"
  obtains w where "server_new cfg timerAddr nodeAddr mem w0 = Inr w" and "sys_inv w"
    and "length (w_groups w) = unat (NODE_GROUP_NUM cfg)"
    and "\<And>g. g < length (w_groups w) \<Longrightarrow> framed w [] (w_groups w ! g)"
proof -
  have nodes: "1 < TOTAL_SUPPORT_USER_NUM cfg" "inj_on nodeAddr {0..<unat (TOTAL_SUPPORT_USER_NUM cfg)}"
      "\<forall>i < unat (TOTAL_SUPPORT_USER_NUM cfg). nodeAddr i \<noteq> null_v"
    and tms: "1 < TOTAL_SUPPORT_USER_NUM cfg * 8" "inj_on timerAddr {0..<unat (TOTAL_SUPPORT_USER_NUM cfg * 8)}"
      "\<forall>i < unat (TOTAL_SUPPORT_USER_NUM cfg * 8). timerAddr i \<noteq> null_v"
    and queue: "0 < unat (MESSAGE_MAX_NUM_IN_QUEUE cfg * of_nat MSG_MAX_LENGTH)"
      "unat (MESSAGE_MAX_NUM_IN_QUEUE cfg * of_nat MSG_MAX_LENGTH) < 2 ^ 31"
    and mem: "\<And>k. length (mem k) = k"
    using boot by (auto simp only: boot_ok_def)
  obtain tm where tm: "CTimerManager_new (TOTAL_SUPPORT_USER_NUM cfg * 8) timerAddr = Inr tm" "tm_ok tm"
    using tm_inv_new [OF tms] by (auto simp: tm_ok_def)
  obtain r where r: "CResource_new (TOTAL_SUPPORT_USER_NUM cfg) nodeAddr = Inr r" "pool_wf r" "freeDeque r = unitGroup r"
    using pool_wf_new [OF nodes] by blast
  obtain q where q: "CLoopBuffer_new (mem (unat (MESSAGE_MAX_NUM_IN_QUEUE cfg * of_nat MSG_MAX_LENGTH)))
      (MESSAGE_MAX_NUM_IN_QUEUE cfg * of_nat MSG_MAX_LENGTH) False = Inr q" "lb_plain q" "contents q = []"
    using wf_new [OF mem queue, of False] by (auto simp: lb_plain_def)
  let ?grp = "\<lparr>g_queue = q, g_buffer = mem MSG_MAX_LENGTH, g_context = False, g_container = [], g_pos = None\<rparr>"
  let ?w = "w0\<lparr>w_timers := tm, w_res := r, w_registry := [], w_nodeQueue := [],
       w_nodes := (\<lambda>p. if p \<in> set (unitGroup r) then Some (CNode_new (mem MSG_MAX_LENGTH)) else None),
       w_groups := replicate (unat (NODE_GROUP_NUM cfg)) ?grp,
       w_curGroupIndex := 0, w_running := True, w_listenFd := 0, w_epollFd := 0\<rparr>"
  have "server_new cfg timerAddr nodeAddr mem w0 = Inr ?w"
    using tm r q by (simp add: server_new_def CNodeGroup_new_def)
  moreover have fr: "framed ?w [] ?grp" using q mem by (simp add: framed_def)
  moreover have "ready ?w = {}" by (auto simp: ready_def txs_def CNode_new_def CTransaction_new_def split: if_splits)
  then have "sv_inv ?w" using tm(2)
    by (auto simp: sv_inv_def reg_ok_def txs_def tx_ok_def CNode_new_def CTransaction_new_def split: if_splits)
  then have "sys_inv ?w" using r mem fr
    by (auto simp: sys_inv_def txs_def recv_ok_def CNode_new_def dom_def split: if_splits)
  ultimately show thesis using that [of ?w] by simp
qed

section \<open>Reachable states\<close>

text \<open>
  The threads of the server and the world outside, one step at a time: a group's thread takes a
  message or visits a node, the timer thread runs one iteration, the traffic manager recycles the
  queued nodes, handles one event or runs a whole iteration, and data, connections, replies of the
  kernel and of Redis and the time change.
\<close>

inductive server_step :: "'r env \<Rightarrow> 'r world \<Rightarrow> 'r world \<Rightarrow> bool" for e where
  queue: "CNodeGroup_rollingQueue e g w = Inr (b, w') \<Longrightarrow> server_step e w w'"
| visit: "CNodeGroup_rollingNode e g w = Inr (b, w') \<Longrightarrow> server_step e w w'"
| group: "CNodeGroup_working e g w = Inr (b, w') \<Longrightarrow> server_step e w w'"
| timer: "CTransactionManager_working e w = Inr (b, w') \<Longrightarrow> server_step e w w'"
| recycle: "delNodes e (w_nodeQueue w) w = Inr (u, w') \<Longrightarrow> server_step e w w'"
| event: "handleEvent e ev w = Inr (u, w') \<Longrightarrow> server_step e w w'"
| traffic: "CTrafficManager_working e r w = Inr (b, w') \<Longrightarrow> server_step e w w'"
| outside: "server_step e w (w\<lparr>w_in := i, w_out := o1, w_accepts := a, w_epollCtl := c, w_clock := k, w_redis := s\<rparr>)"

inductive_cases server_stepE: "server_step e w w'"

inductive server_reach :: "'r env \<Rightarrow> 'r world \<Rightarrow> 'r world \<Rightarrow> bool" for e w0 where
  start: "server_reach e w0 w0"
| more: "server_reach e w0 w \<Longrightarrow> server_step e w w' \<Longrightarrow> server_reach e w0 w'"

lemma keepsD: "keeps m \<Longrightarrow> sys_inv w \<Longrightarrow> m w = Inr (x, w') \<Longrightarrow> sys_inv w'"
  by (auto simp: keeps_def wp_def)

lemma server_step_inv: "server_step e w w' \<Longrightarrow> sys_inv w \<Longrightarrow> sys_inv w'"
  by (erule server_step.cases)
    (auto dest: keepsD [OF keeps_rollingQueue] keepsD [OF keeps_rollingNode] keepsD [OF keeps_CNodeGroup_working]
      keepsD [OF keeps_timerThread] keepsD [OF keeps_delNodes] keepsD [OF keeps_handleEvent]
      keepsD [OF keeps_CTrafficManager_working])

lemma server_reach_inv: "server_reach e w0 w \<Longrightarrow> sys_inv w0 \<Longrightarrow> sys_inv w"
  by (induction rule: server_reach.induct) (auto intro: server_step_inv)

theorem reach_inv:
  assumes "boot_ok cfg timerAddr nodeAddr mem" and "server_new cfg timerAddr nodeAddr mem w0 = Inr w1"
    and "server_reach e w1 w"
  shows "sys_inv w"
  using server_new_inv [OF assms(1), of w0] server_reach_inv [OF assms(3)] assms(2) by auto

end
