(* ===== verification/Framing.thy ===== *)
theory Framing
  imports Server_Invariant
begin

text \<open>
  What a connection promises about the bytes it moves: \<open>recv\<close> splits the stream into the messages
  their headers announce, however the stream is cut into reads, and queues each of them stamped
  with its node; its loop ends; \<open>send\<close> puts a prefix of the message on the wire, and the whole
  message when it returns true.
\<close>

section \<open>Reassembly of messages from the stream\<close>

text \<open>
  A well-formed message on the wire: as long as its header says, at least a header, and within
  the receive buffer.  \<open>partial\<close> is what has arrived of one that is not complete.
\<close>

definition wire_msg :: "ub1_ list \<Rightarrow> bool" where
  "wire_msg m \<longleftrightarrow>
     sizeof_THeader \<le> length m \<and> length m \<le> MSG_MAX_LENGTH \<and> unat (hd_size (THeader_at m)) = length m"

definition partial :: "ub1_ list \<Rightarrow> bool" where
  "partial s \<longleftrightarrow> (\<exists>r. r \<noteq> [] \<and> wire_msg (s @ r))"

text \<open>The message as it is queued: its \<open>ext\<close> field names the node.\<close>

definition stamp :: "ub8_ \<Rightarrow> ub1_ list \<Rightarrow> ub1_ list" where
  "stamp p m = patchHeader (\<lambda>h. h\<lparr>hd_ext := p\<rparr>) m"

text \<open>The node holds the incomplete message \<open>s\<close>.\<close>

definition holds :: "node \<Rightarrow> ub1_ list \<Rightarrow> bool" where
  "holds n s \<longleftrightarrow>
     partial s \<and> length (n_recvBuffer n) = MSG_MAX_LENGTH \<and> unat (n_recvOffset n) = length s \<and>
     take (length s) (n_recvBuffer n) = s \<and>
     n_recvDueSize n = (if length s < sizeof_THeader then 0 else hd_size (THeader_at s))"

lemma wire_msg_size: "wire_msg m \<Longrightarrow> sizeof_THeader \<le> length s \<Longrightarrow> m = s @ r \<Longrightarrow>
    unat (hd_size (THeader_at s)) = length m"
  by (simp add: wire_msg_def THeader_at_append)

lemma holds_recv_ok: "holds n s \<Longrightarrow> recv_ok n"
proof -
  assume h: "holds n s"
  then obtain r where r: "r \<noteq> []" "wire_msg (s @ r)" by (auto simp: holds_def partial_def)
  show ?thesis
  proof (cases "length s < sizeof_THeader")
    case False
    have "THeader_at (n_recvBuffer n) = THeader_at s"
      using h False THeader_at_take [of "length s" "n_recvBuffer n"] by (simp add: holds_def layout)
    moreover have "length s \<le> MSG_MAX_LENGTH" using r by (simp add: wire_msg_def)
    moreover have "hd_size (THeader_at s) \<noteq> 0" using wire_msg_size [OF r(2) _ refl] False r(1) by (auto simp: not_less)
    ultimately show ?thesis using h False by (simp add: holds_def recv_ok_def)
  qed (use h in \<open>simp add: holds_def recv_ok_def\<close>)
qed

lemma unat_ucast_ub2_64: "unat (ucast (x :: ub2_) :: ub8_) = unat x"
  using unat_ub2_lt [of x] by (simp add: unsigned_ucast_eq take_bit_nat_eq_self)

lemma holds_count:
  assumes "holds n s" and "wire_msg (s @ r)"
  shows "recvCount n = (if length s < sizeof_THeader then sizeof_THeader - length s else length r)"
proof (cases "length s < sizeof_THeader")
  case True
  then show ?thesis using assms(1) recvCount_header [of n] by (simp add: holds_def)
next
  case False
  then have u: "unat (n_recvDueSize n) = length s + length r" and o: "unat (n_recvOffset n) = length s"
    using assms wire_msg_size [OF assms(2) _ refl] by (simp_all add: holds_def)
  have nz: "n_recvDueSize n \<noteq> 0" using u False by (auto simp: layout)
  have "unat (ucast (n_recvDueSize n) - ucast (n_recvOffset n) :: ub8_) = unat (n_recvDueSize n) - unat (n_recvOffset n)"
    using u o by (subst unat_minus_le) (simp_all add: unat_ucast_ub2_64)
  then show ?thesis using nz u o False by (simp add: recvCount_def)
qed

text \<open>Reading a piece of the message.\<close>

lemma holds_stored:
  assumes h: "holds n s" and bs: "bs \<noteq> []" "length bs \<le> recvCount n" and m: "wire_msg (s @ bs @ r)"
  shows "unat (n_recvOffset n) + length bs \<le> MSG_MAX_LENGTH"
    and "r \<noteq> [] \<Longrightarrow> holds (stored n bs) (s @ bs) \<and> \<not> complete (stored n bs)"
    and "r = [] \<Longrightarrow> complete (stored n bs) \<and> recv_ok (stored n bs) \<and> take (length (s @ bs)) (n_recvBuffer (stored n bs)) = s @ bs \<and>
      unat (n_recvDueSize (stored n bs)) = length (s @ bs)"
proof -
  let ?b = "overwrite (n_recvBuffer n) (unat (n_recvOffset n)) bs"
  have o: "unat (n_recvOffset n) = length s" and lb: "length (n_recvBuffer n) = MSG_MAX_LENGTH" using h by (simp_all add: holds_def)
  show fit: "unat (n_recvOffset n) + length bs \<le> MSG_MAX_LENGTH" using m o by (simp add: wire_msg_def)
  have tk: "take (length (s @ bs)) ?b = s @ bs" using h o lb fit by (simp add: holds_def overwrite_def)
  have o2: "unat (n_recvOffset (stored n bs)) = length (s @ bs)"
    using recvOffset_step [OF fit] o by (simp add: stored_def Let_def)
  have lb2: "length ?b = MSG_MAX_LENGTH" using lb fit by simp
  have hd: "THeader_at ?b = THeader_at (s @ bs)" if "sizeof_THeader \<le> length (s @ bs)"
    using THeader_at_take [of "length (s @ bs)" ?b] tk that lb2 by (simp add: layout)
  have sz: "unat (hd_size (THeader_at (s @ bs))) = length (s @ bs) + length r" if "sizeof_THeader \<le> length (s @ bs)"
    using wire_msg_size [OF m that, of r] by simp
  have due: "n_recvDueSize (stored n bs) = (if length (s @ bs) < sizeof_THeader then 0 else hd_size (THeader_at (s @ bs)))"
  proof (cases "length s < sizeof_THeader")
    case True
    then have "length (s @ bs) \<le> sizeof_THeader" using bs(2) holds_count [OF h m] by simp
    moreover have "n_recvOffset n + of_nat (length bs) = of_nat sizeof_THeader \<longleftrightarrow> length (s @ bs) = sizeof_THeader"
      using recvOffset_step [OF fit] o by (auto simp: word_eq_unat layout)
    ultimately show ?thesis using True h hd by (auto simp: stored_def Let_def holds_def)
  next
    case False
    then have "n_recvDueSize n = hd_size (THeader_at s)" "THeader_at (s @ bs) = THeader_at s" "hd_size (THeader_at s) \<noteq> 0"
      using h THeader_at_append [of s bs] wire_msg_size [OF m, of s "bs @ r"] bs(1) by (auto simp: holds_def not_less)
    then show ?thesis using False by (simp add: stored_def Let_def)
  qed
  have tk2: "take (length (s @ bs)) (n_recvBuffer (stored n bs)) = s @ bs" using tk by (simp add: stored_def Let_def)
  have cmp: "complete (stored n bs) \<longleftrightarrow> r = []"
    using o2 due sz m by (auto simp: complete_def word_eq_unat wire_msg_def layout)
  show "r \<noteq> [] \<Longrightarrow> holds (stored n bs) (s @ bs) \<and> \<not> complete (stored n bs)"
    using cmp due o2 tk2 lb2 m by (auto simp: holds_def partial_def stored_def Let_def)
  show "r = [] \<Longrightarrow> complete (stored n bs) \<and> recv_ok (stored n bs) \<and> take (length (s @ bs)) (n_recvBuffer (stored n bs)) = s @ bs \<and>
      unat (n_recvDueSize (stored n bs)) = length (s @ bs)"
    using cmp tk2 stored_ok [OF holds_recv_ok [OF h] bs fit] due sz m by (auto simp: wire_msg_def)
qed

text \<open>One iteration of the loop that does not complete the message, and one that does.\<close>

lemma recvBytes_piece:
  assumes n: "w_nodes w p = Some n" and h: "holds n s" and bs: "bs \<noteq> []" "length bs \<le> recvCount n"
    and m: "wire_msg (s @ bs @ r)" "r \<noteq> []"
  shows "recvBytes p bs w = Inr (True, w\<lparr>w_nodes := (w_nodes w)(p \<mapsto> stored n bs)\<rparr>)"
proof -
  note st = holds_stored [OF h bs m(1)]
  have "wp (\<lambda>_. False) (recvBytes p bs) (\<lambda>x w'. x \<and> w' = w\<lparr>w_nodes := (w_nodes w)(p \<mapsto> stored n bs)\<rparr>) w"
    using st(2) [OF m(2)] by (simp add: wp_recvBytes [OF n holds_recv_ok [OF h] bs st(1)] wp_retM)
  then show ?thesis by (auto simp: wp_total_iff)
qed

text \<open>The state once a complete message has been queued.\<close>

definition queued :: "nat \<Rightarrow> loopBuffer \<Rightarrow> ub8_ \<Rightarrow> node \<Rightarrow> 'r world \<Rightarrow> 'r world" where
  "queued g q p n w = w\<lparr>w_nodes := (w_nodes w)(p \<mapsto> n), w_groups := (w_groups w)[g := (w_groups w ! g)\<lparr>g_queue := q\<rparr>]\<rparr>"

lemma partial_empty: "partial []"
proof -
  define m where "m = THeader_bytes \<lparr>hd_size = of_nat sizeof_THeader, hd_type = 0, hd_cmd = 0, hd_ver = 0, hd_lang = 0,
    hd_seq = 0, hd_stmp = 0, hd_ext = 0\<rparr>"
  have "length m = sizeof_THeader" by (simp add: m_def)
  then have "m \<noteq> []" by (auto simp: layout)
  moreover have "wire_msg ([] @ m)"
    using THeader_at_bytes [of _ "[]"] by (simp add: wire_msg_def m_def layout)
  ultimately show ?thesis unfolding partial_def by blast
qed

lemma holds_empty:
  "length (n_recvBuffer n) = MSG_MAX_LENGTH \<Longrightarrow> n_recvOffset n = 0 \<Longrightarrow> n_recvDueSize n = 0 \<Longrightarrow> holds n []"
  using partial_empty by (simp add: holds_def layout)

lemma take_stamp: "sizeof_THeader \<le> k \<Longrightarrow> sizeof_THeader \<le> length b \<Longrightarrow> take k (stamp p b) = stamp p (take k b)"
  by (simp add: stamp_def patchHeader_def THeader_at_take drop_take)

lemma recvBytes_whole:
  assumes n: "w_nodes w p = Some n" "n_group n = Some g" and h: "holds n s"
    and bs: "bs \<noteq> []" "length bs \<le> recvCount n" and m: "wire_msg (s @ bs)"
    and g: "g < length (w_groups w)" "lb_plain (g_queue (w_groups w ! g))"
      "length (contents (g_queue (w_groups w ! g))) + length (s @ bs) \<le> unat (totalSize (g_queue (w_groups w ! g)))"
  obtains q n' where "recvBytes p bs w = Inr (True, queued g q p n' w)" and "holds n' []"
    and "n_fd n' = n_fd n" "n_group n' = n_group n" "n_transaction n' = n_transaction n"
    and "lb_plain q" "totalSize q = totalSize (g_queue (w_groups w ! g))"
    and "contents q = contents (g_queue (w_groups w ! g)) @ stamp p (s @ bs)"
proof -
  let ?q = "g_queue (w_groups w ! g)" and ?n = "stored n bs"
  let ?b = "stamp p (n_recvBuffer ?n)" and ?m = "s @ bs"
  have m': "wire_msg (s @ bs @ [])" using m by simp
  note st = holds_stored(1) [OF h bs m'] and c = holds_stored(3) [OF h bs m' refl]
  have pe: "length ?b = MSG_MAX_LENGTH" "hd_size (THeader_at ?b) = n_recvDueSize ?n" "hd_ext (THeader_at ?b) = p"
    using patched_ext [of ?n ?b p] c by (auto simp: stamp_def)
  have tb: "take (length ?m) ?b = stamp p ?m"
    using take_stamp [of "length ?m" "n_recvBuffer ?n" p] c m by (simp add: wire_msg_def recv_ok_def layout)
  let ?sz = "ucast (hd_size (THeader_at ?b)) :: ub4_"
  have u: "unat ?sz = length ?m" using c pe by (simp add: unat_ucast_ub2)
  have nz: "?sz \<noteq> 0" using u m by (auto simp: wire_msg_def layout)
  have lm: "length ?m \<le> length ?b" using m pe(1) by (simp add: wire_msg_def)
  obtain ok q where q: "CLoopBuffer_write ?q ?b ?sz = Inr (ok, q)" "lb_plain q" "unat (totalSize q) = unat (totalSize ?q)"
    "contents q = contents ?q @ (if ok then take (unat ?sz) ?b else [])"
    "ok \<longleftrightarrow> length (contents ?q) + unat ?sz \<le> unat (totalSize ?q)"
    by (rule lb.put_total [OF g(2) nz, of ?b]) (use u lm in auto)
  then have ok: "ok" using u g(3) by simp
  define n' where "n' = ?n\<lparr>n_recvBuffer := ?b, n_recvOffset := 0, n_recvDueSize := 0\<rparr>"
  have "wp (\<lambda>_. False) (recvBytes p bs) (\<lambda>x w'. x \<and> w' = queued g q p n' w) w"
    using c n g(1) q(1) ok
    by (simp add: wp_recvBytes [OF n(1) holds_recv_ok [OF h] bs st] recvDeliver_def CNodeGroup_putMessage_def wp_simps
        queued_def n'_def stamp_def)
  then have "recvBytes p bs w = Inr (True, queued g q p n' w)" by (auto simp: wp_total_iff)
  moreover have "holds n' []" using pe(1) by (intro holds_empty) (simp_all add: n'_def)
  moreover have "contents q = contents ?q @ stamp p ?m" using q(4) ok u tb by simp
  ultimately show thesis using that [of q n'] q(2,3) by (simp add: n'_def word_eq_unat)
qed

text \<open>Where the stream continues with \<open>bs\<close>, \<open>bs\<close> is a piece of the current message or its end.\<close>

lemma partial_shorter:
  assumes "partial s" and "wire_msg m" and "s @ inp = m @ rest"
  shows "length s < length m"
proof (cases "length s < sizeof_THeader")
  case False
  obtain r where r: "r \<noteq> []" "wire_msg (s @ r)" using assms(1) by (auto simp: partial_def)
  have "THeader_at s = THeader_at m"
    using THeader_at_append [of s inp] THeader_at_append [of m rest] assms(2,3) False by (simp add: wire_msg_def)
  then show ?thesis using wire_msg_size [OF r(2) _ refl] False r(1) assms(2) by (cases r) (simp_all add: wire_msg_def not_less)
qed (use assms(2) in \<open>simp add: wire_msg_def\<close>)

text \<open>How many bytes a reader that has \<open>s\<close> of a message asks for: the rest of the header, then the rest of the message.\<close>

definition wanted :: "ub1_ list \<Rightarrow> nat" where
  "wanted s = (if length s < sizeof_THeader then sizeof_THeader - length s else unat (hd_size (THeader_at s)) - length s)"

lemma wanted_rest: "wire_msg (s @ r) \<Longrightarrow> wanted s = (if length s < sizeof_THeader then sizeof_THeader - length s else length r)"
  using wire_msg_size [of "s @ r" s r] by (auto simp: wanted_def)

lemma wanted_pos: "partial s \<Longrightarrow> 0 < wanted s"
  by (auto simp: partial_def wanted_rest)

lemma holds_wanted: "holds n s \<Longrightarrow> recvCount n = wanted s"
  using holds_count [of n s] by (auto simp: holds_def partial_def wanted_rest)

lemma next_piece:
  assumes s: "partial s" and str: "s @ bs @ inp = concat ms @ t" and ms: "\<forall>m \<in> set ms. wire_msg m" and t: "partial t"
    and bs: "length bs \<le> wanted s"
  obtains (piece) r where "r \<noteq> []" and "wire_msg (s @ bs @ r)"
    | (whole) ms' where "ms = (s @ bs) # ms'" and "wire_msg (s @ bs)" and "inp = concat ms' @ t"
proof (cases ms)
  case Nil
  obtain u where "u \<noteq> []" "wire_msg (t @ u)" using t by (auto simp: partial_def)
  then show ?thesis using Nil str piece [of "inp @ u"] by auto
next
  case (Cons m ms')
  have m: "wire_msg m" using ms Cons by simp
  have eq: "s @ bs @ inp = m @ concat ms' @ t" using str Cons by simp
  have lt: "length s < length m" using partial_shorter [OF s m eq] .
  then obtain r where r: "m = s @ r" "r \<noteq> []" using eq by (auto simp: append_eq_append_conv2)
  have "length bs \<le> length r" using bs wanted_rest [of s r] m r lt by (auto simp: wire_msg_def split: if_splits)
  moreover have "bs @ inp = r @ concat ms' @ t" using eq r by simp
  ultimately obtain r' where r': "r = bs @ r'" "inp = r' @ concat ms' @ t" by (auto simp: append_eq_append_conv2)
  then show ?thesis
    using m r Cons piece [of r'] whole [of ms'] by (cases "r' = []") auto
qed

text \<open>Where the stream ends, the messages are complete.\<close>

lemma no_more:
  assumes "partial s" and "s = concat ms @ t" and "\<forall>m \<in> set ms. wire_msg m"
  shows "ms = []" and "t = s"
proof -
  show "ms = []"
  proof (rule ccontr)
    assume "ms \<noteq> []"
    then obtain m ms' where m: "ms = m # ms'" by (cases ms) auto
    then have "length s < length m" using partial_shorter [OF assms(1), of m "[]" "concat ms' @ t"] assms(2,3) by simp
    then show False using assms(2) m by simp
  qed
  then show "t = s" using assms(2) by simp
qed

definition received :: "nat \<Rightarrow> loopBuffer \<Rightarrow> ub8_ \<Rightarrow> node \<Rightarrow> 'r world \<Rightarrow> 'r world" where
  "received g q p n w = (queued g q p n w)\<lparr>w_in := (w_in w)(n_fd n := [])\<rparr>"

lemma received_idle:
  "w_nodes w p = Some n \<Longrightarrow> w_in w (n_fd n) = [] \<Longrightarrow> received g (g_queue (w_groups w ! g)) p n w = w"
  by (simp add: received_def queued_def fun_upd_idem)

lemma recvLoop_reassembles:
  assumes "w_nodes w p = Some n" "n_group n = Some g" "holds n s"
    and "w_in w (n_fd n) = map Arrived cs" "[] \<notin> set cs" "length (concat cs) < k"
    and "s @ concat cs = concat ms @ t" "\<forall>m \<in> set ms. wire_msg m" "partial t"
    and "g < length (w_groups w)" "lb_plain (g_queue (w_groups w ! g))"
      "length (contents (g_queue (w_groups w ! g))) + length (concat ms) \<le> unat (totalSize (g_queue (w_groups w ! g)))"
  shows "\<exists>q n'. recvLoop k p w = Inr (True, received g q p n' w) \<and> holds n' t \<and> n_fd n' = n_fd n \<and> n_group n' = n_group n \<and>
     n_transaction n' = n_transaction n \<and> lb_plain q \<and> totalSize q = totalSize (g_queue (w_groups w ! g)) \<and>
     contents q = contents (g_queue (w_groups w ! g)) @ concat (map (stamp p) ms)"
  using assms
proof (induction k arbitrary: w n s cs ms)
  case (Suc k)
  have ps: "partial s" using Suc.prems(3) by (simp add: holds_def)
  show ?case
  proof (cases cs)
    case Nil
    have "ms = []" using no_more(1) [OF ps _ Suc.prems(8)] Suc.prems(7) Nil by simp
    moreover have "recvCount n \<noteq> 0"
      using holds_wanted [OF Suc.prems(3)] wanted_pos [OF ps] by simp
    ultimately show ?thesis
      using Suc.prems Nil received_idle [of w p n g]
      by (intro exI [of _ "g_queue (w_groups w ! g)"] exI [of _ n])
        (simp add: bindM_def getNode_def sysRead_def retM_def)
  next
    case (Cons c cs')
    define bs where "bs = take (recvCount n) c"
    define cs1 where "cs1 = (if length c \<le> recvCount n then cs' else drop (recvCount n) c # cs')"
    define w1 where "w1 = w\<lparr>w_in := (w_in w)(n_fd n := map Arrived cs1)\<rparr>"
    have cnt: "recvCount n \<noteq> 0"
      using holds_wanted [OF Suc.prems(3)] wanted_pos [OF ps] by simp
    have bs: "bs \<noteq> []" "length bs \<le> recvCount n" using cnt Suc.prems(5) Cons by (auto simp: bs_def)
    have cc: "concat cs = bs @ concat cs1" "[] \<notin> set cs1" using Suc.prems(5) Cons by (auto simp: bs_def cs1_def)
    have k: "length (concat cs1) < k" using cc(1) bs(1) Suc.prems(6) by (cases bs) simp_all
    have rd: "sysRead (n_fd n) (recvCount n) w = Inr (Got bs, w1)"
      using Suc.prems(4,5) Cons cnt by (auto simp: sysRead_def w1_def bs_def cs1_def)
    have step: "recvLoop (Suc k) p w = recvLoop k p w2" if "recvBytes p bs w1 = Inr (True, w2)" for w2
      using Suc.prems(1) rd bs(1) that by (simp add: bindM_def getNode_def)
    have w1: "w_nodes w1 p = Some n" "w_groups w1 = w_groups w" using Suc.prems(1) by (simp_all add: w1_def)
    have str: "s @ bs @ concat cs1 = concat ms @ t" using Suc.prems(7) cc by simp
    show ?thesis
    proof (rule next_piece [OF ps str Suc.prems(8,9) bs(2) [unfolded holds_wanted [OF Suc.prems(3)]]])
      fix r assume r: "r \<noteq> []" "wire_msg (s @ bs @ r)"
      let ?w2 = "w1\<lparr>w_nodes := (w_nodes w1)(p \<mapsto> stored n bs)\<rparr>"
      have "recvLoop (Suc k) p w = recvLoop k p ?w2"
        using recvBytes_piece [OF w1(1) Suc.prems(3) bs r(2,1)] by (rule step)
      moreover have "received g q p n' ?w2 = received g q p n' w" if "n_fd n' = n_fd n" for q n'
        using that w1(2) by (simp add: received_def queued_def w1_def)
      moreover have "holds (stored n bs) (s @ bs)" using holds_stored(2) [OF Suc.prems(3) bs r(2,1)] by simp
      ultimately show ?thesis
        using Suc.IH [of ?w2 "stored n bs" "s @ bs" cs1 ms] Suc.prems w1 str cc(2) k
        by (fastforce simp: w1_def)
    next
      fix ms' assume m: "ms = (s @ bs) # ms'" "wire_msg (s @ bs)" "concat cs1 = concat ms' @ t"
      obtain q1 n1 where q1: "recvBytes p bs w1 = Inr (True, queued g q1 p n1 w1)" "holds n1 []"
        "n_fd n1 = n_fd n" "n_group n1 = n_group n" "n_transaction n1 = n_transaction n" "lb_plain q1"
        "totalSize q1 = totalSize (g_queue (w_groups w ! g))"
        "contents q1 = contents (g_queue (w_groups w ! g)) @ stamp p (s @ bs)"
        by (rule recvBytes_whole [OF w1(1) Suc.prems(2,3) bs m(2)]) (use Suc.prems w1(2) m(1) in auto)
      let ?w2 = "queued g q1 p n1 w1"
      have st: "recvLoop (Suc k) p w = recvLoop k p ?w2" using q1(1) by (rule step)
      have eq: "received g q p n' ?w2 = received g q p n' w" if "n_fd n' = n_fd n" for q n'
        using that w1(2) Suc.prems(10) by (simp add: received_def queued_def w1_def)
      have ls: "length (stamp p (s @ bs)) = length (s @ bs)" using m(2) by (simp add: stamp_def wire_msg_def)
      have w2: "w_nodes ?w2 p = Some n1" "w_in ?w2 (n_fd n1) = map Arrived cs1" "g < length (w_groups ?w2)"
        "g_queue (w_groups ?w2 ! g) = q1"
        using Suc.prems(10) q1(3) by (simp_all add: queued_def w1_def)
      have "\<exists>q n'. recvLoop k p ?w2 = Inr (True, received g q p n' ?w2) \<and> holds n' t \<and> n_fd n' = n_fd n1 \<and>
          n_group n' = n_group n1 \<and> n_transaction n' = n_transaction n1 \<and> lb_plain q \<and> totalSize q = totalSize q1 \<and>
          contents q = contents q1 @ concat (map (stamp p) ms')"
        using Suc.IH [of ?w2 n1 "[]" cs1 ms'] Suc.prems(2,8-12) q1 w2 ls m cc(2) k by simp
      then obtain q n' where "recvLoop k p ?w2 = Inr (True, received g q p n' ?w2)" "holds n' t" "n_fd n' = n_fd n1"
          "n_group n' = n_group n1" "n_transaction n' = n_transaction n1" "lb_plain q" "totalSize q = totalSize q1"
          "contents q = contents q1 @ concat (map (stamp p) ms')"
        by blast
      then show ?thesis using q1 eq st m(1) by (intro exI [of _ q] exI [of _ n']) simp
    qed
  qed
qed simp

lemma arrivedBytes_map: "arrivedBytes (map Arrived cs) = length (concat cs)"
  by (induction cs) simp_all

lemma recv_reassembles:
  assumes "w_nodes w p = Some n" "n_group n = Some g" "holds n s"
    and "w_in w (n_fd n) = map Arrived cs" "[] \<notin> set cs"
    and "s @ concat cs = concat ms @ t" "\<forall>m \<in> set ms. wire_msg m" "partial t"
    and "g < length (w_groups w)" "lb_plain (g_queue (w_groups w ! g))"
      "length (contents (g_queue (w_groups w ! g))) + length (concat ms) \<le> unat (totalSize (g_queue (w_groups w ! g)))"
  shows "\<exists>q n'. CNode_recv p w = Inr (True, received g q p n' w) \<and> holds n' t \<and> n_fd n' = n_fd n \<and> n_group n' = n_group n \<and>
     n_transaction n' = n_transaction n \<and> lb_plain q \<and> totalSize q = totalSize (g_queue (w_groups w ! g)) \<and>
     contents q = contents (g_queue (w_groups w ! g)) @ concat (map (stamp p) ms)"
proof -
  have "CNode_recv p w = recvLoop (Suc (length (concat cs))) p w"
    using assms(1,4) by (simp add: CNode_recv_def bindM_def getNode_def getsM_def arrivedBytes_map del: recvLoop.simps)
  then show ?thesis using recvLoop_reassembles [OF assms(1-5) lessI assms(6-)] by (simp del: recvLoop.simps)
qed

section \<open>The loop of \<open>recv\<close> ends\<close>

text \<open>
  The fuel of \<open>CNode_recv\<close> is never used up: whatever arrives and whatever state the node is
  in, \<open>StackOverflow\<close>, which stands for it, is not the outcome.
\<close>

lemma recvDeliver_in:
  "wp (\<lambda>e. e \<noteq> StackOverflow) (recvDeliver p)
     (\<lambda>_ w'. w_in w' = w_in w \<and> (\<exists>n'. w_nodes w' p = Some n' \<and> n_fd n' = n_fd n)) w"
  if "w_nodes w p = Some n"
proof -
  have "CLoopBuffer_write q m sz \<noteq> Inl StackOverflow" for q m sz
    by (auto simp: CLoopBuffer_write_def assertR_def memcpy_def bindR_def Let_def split: if_splits sum.splits)
  then show ?thesis using that
    by (auto simp: recvDeliver_def CNodeGroup_putMessage_def wp_simps split: option.splits sum.splits)
qed

text \<open>Reading what has arrived makes progress, and everything else leaves the sockets alone.\<close>

abbreviation not_fuel :: "fault \<Rightarrow> bool" where
  "not_fuel f \<equiv> f \<noteq> StackOverflow"

lemma recvBytes_in:
  assumes n: "w_nodes w p = Some n"
  shows "wp not_fuel (recvBytes p bs) (\<lambda>_ w'. w_in w' = w_in w \<and> (\<exists>n'. w_nodes w' p = Some n' \<and> n_fd n' = n_fd n)) w"
proof -
  have m: "memcpy d i b j k \<noteq> Inl StackOverflow" for d b :: "ub1_ list" and i j k by (simp add: memcpy_def)
  have "wp not_fuel (recvDeliver p) (\<lambda>_ w'. w_in w' = w_in w \<and> (\<exists>n'. w_nodes w' p = Some n' \<and> n_fd n' = n_fd n))
      (w\<lparr>w_nodes := (w_nodes w)(p \<mapsto> n')\<rparr>)" if "n_fd n' = n_fd n" for n'
    using recvDeliver_in [of "w\<lparr>w_nodes := (w_nodes w)(p \<mapsto> n')\<rparr>" p n'] that by simp
  then show ?thesis using n m [of "n_recvBuffer n" "unat (n_recvOffset n)" bs 0 "length bs"]
    by (auto simp: recvBytes_def wp_simps Let_def split: sum.splits)
qed

lemma recvLoop_ends:
  "w_nodes w p = Some n \<Longrightarrow> arrivedBytes (w_in w (n_fd n)) < k \<Longrightarrow> wp not_fuel (recvLoop k p) (\<lambda>_ _. True) w"
proof (induction k arbitrary: w n)
  case (Suc k)
  show ?case
    unfolding recvLoop.simps wp_bindM wp_getNode Suc.prems(1) option.case
  proof (rule wp_sysRead, goal_cases)
    case (1 r ri)
    show ?case
    proof (cases r)
      case (Got bs)
      have "wp not_fuel (recvBytes p bs) (\<lambda>go. wp not_fuel (if go then recvLoop k p else retM False) (\<lambda>_ _. True)) (w\<lparr>w_in := ri\<rparr>)"
        if "bs \<noteq> []"
      proof (rule wp_mono [OF recvBytes_in [of _ p n]], goal_cases)
        case (2 go w1)
        then obtain n' where "w_nodes w1 p = Some n'" "n_fd n' = n_fd n" "w_in w1 = ri" by auto
        moreover have "arrivedBytes (ri (n_fd n)) < k"
          using 1(1) [OF Got] Suc.prems(2) that by (cases bs) auto
        ultimately show ?case using Suc.IH [of w1 n'] by (simp add: wp_retM)
      qed (use Suc.prems(1) in simp)
      then show ?thesis using Got by (simp add: wp_simps)
    qed (simp add: wp_simps CNode_handleRecvErrors_def)
  qed
qed simp

lemma recv_ends: "CNode_recv p w \<noteq> Inl StackOverflow"
proof -
  have "wp not_fuel (CNode_recv p) (\<lambda>_ _. True) w"
    using recvLoop_ends [of w p] unfolding CNode_recv_def wp_bindM wp_getNode wp_getsM
    by (simp del: recvLoop.simps split: option.splits)
  then show ?thesis by (auto simp: wp_def)
qed

section \<open>Sending\<close>

text \<open>
  What goes out is a prefix of the message, and all of it when \<open>send\<close> returns true.  The only
  failed assertion is an error code that the code does not name.
\<close>

lemma sendLoop_spec:
  "buf \<noteq> [] \<Longrightarrow>
   (case sendLoop evs buf of
      Inl f \<Rightarrow> f = AssertFail \<and> (SendErr EISDIR \<in> set evs \<or> SendErr OtherErrno \<in> set evs)
    | Inr (ok, out, evs') \<Rightarrow> (\<exists>k. out = take k buf) \<and> (ok \<longleftrightarrow> out = buf) \<and> (\<exists>pre. evs = pre @ evs'))"
proof (induction evs buf rule: sendLoop.induct)
  case (2 k evs buf)
  show ?case
  proof (cases "take k buf = [] \<or> drop k buf = []")
    case True
    then show ?thesis using 2(2) by (auto intro: exI [of _ 0] exI [of _ k])
  next
    case False
    then have IH: "case sendLoop evs (drop k buf) of
      Inl f \<Rightarrow> f = AssertFail \<and> (SendErr EISDIR \<in> set evs \<or> SendErr OtherErrno \<in> set evs)
    | Inr (ok, out, evs') \<Rightarrow> (\<exists>j. out = take j (drop k buf)) \<and> (ok \<longleftrightarrow> out = drop k buf) \<and> (\<exists>pre. evs = pre @ evs')"
      using 2(1) by simp
    show ?thesis
    proof (cases "sendLoop evs (drop k buf)")
      case (Inr r)
      obtain ok out evs' where r: "r = (ok, out, evs')" by (cases r)
      then obtain j pre where j: "out = take j (drop k buf)" "ok \<longleftrightarrow> out = drop k buf" "evs = pre @ evs'"
        using IH Inr by auto
      have "take k buf @ out = take (k + j) buf" using j by (simp add: take_add)
      moreover have "take k buf @ out = buf \<longleftrightarrow> out = drop k buf"
        by (metis append_take_drop_id same_append_eq)
      ultimately show ?thesis using False Inr r j by (auto intro: exI [of _ "k + j"] exI [of _ "Accepts k # pre"])
    qed (use False IH in auto)
  qed
next
  case (3 err evs buf)
  then show ?case
    by (cases err) (auto split: sum.splits intro: exI [of _ 0] exI [of _ "SendErr EAGAIN # _"])
next
  case (1 buf)
  then show ?case by (auto intro: exI [of _ "length buf"])
qed

end
