(* ===== verification/Example_Run.thy ===== *)
theory Example_Run
  imports Framing
begin

text \<open>
  A small deployment and a run of it: a client connects and sends a
  handshake in two pieces, which is reassembled and queued.  The run is
  evaluated from the definitions; it is an instance of the reachable states that the invariants
  speak about.
\<close>

section \<open>A deployment\<close>

definition addr :: "nat \<Rightarrow> ub8_" where
  "addr i = of_nat (Suc i)"

lemma unat_addr: "i < unat (n :: ub4_) \<Longrightarrow> unat (addr i) = Suc i"
  using unat_ub4_lt [of n] unat_of_nat_lt [where 'a = 64, of "Suc i"] by (simp add: addr_def)

lemma addr_inj: "inj_on addr {0..<unat (n :: ub4_)}"
  by (rule inj_onI) (metis atLeastLessThan_iff nat.inject unat_addr)

lemma addr_nonnull: "\<forall>i < unat (n :: ub4_). addr i \<noteq> null_v"
  by (metis Zero_not_Suc unat_0 unat_addr)

definition ex_config :: config where
  "ex_config =
     \<lparr>RUN_AS_DAEMON = 0, NAME = [0], BASE_BUILD = 1, PROTOCOL_VERSION = 1, LISTEN_IP = [0], LISTEN_PORT = 0,
      EPOLL_WAIT_EVENT_NUM = 1, NODE_GROUP_NUM = 1, NODE_GROUP_SIZE = 2, TOTAL_SUPPORT_USER_NUM = 2,
      TOTAL_THREAD_NUM = 1, MESSAGE_MAX_NUM_IN_QUEUE = 1, THREAD_STACK_SIZE = 0, HEARTBEAT_INTERVAL = 60,
      VALID_DURATION = 1000, VALID_NUMBER = 5, REDIS_HOST = [0], REDIS_PORT = 0, REDIS_TIMEOUT = 0,
      REDIS_AUTH = [0], REDIS_DB = 0\<rparr>"

text \<open>A Redis server that knows every session as user 42 and accepts every other command; its state
  counts the commands.\<close>

definition ex_redis :: "nat hiredis" where
  "ex_redis =
     \<lparr>h_connect = (\<lambda>g s. (ContextOk, s)), h_free = (\<lambda>g s. s),
      h_command = (\<lambda>g args s. (Some (if hd args = str ''zscore'' then R_String (str ''42'') else R_Status), Suc s))\<rparr>"

definition ex_env :: "nat env" where
  "ex_env = \<lparr>e_cfg = ex_config, e_api = ex_redis, e_depth = 3, e_junk = 0\<rparr>"

definition ex_pool :: resource where
  "ex_pool = \<lparr>maxNum = 0, unitGroup = [], freeDeque = []\<rparr>"

definition ex_outside :: "nat world" where
  "ex_outside =
     \<lparr>w_nodes = Map.empty, w_groups = [],
      w_timers = \<lparr>timerRes = ex_pool, timers = Map.empty, timerList = 0, lastTimer = 0, queueForAdd = [],
                  queueForDel = [], curTimer = 0\<rparr>,
      w_registry = [], w_res = ex_pool, w_nodeQueue = [], w_curGroupIndex = 0, w_running = True, w_listenFd = 0,
      w_epollFd = 0, w_clock = (\<lambda>k. \<lparr>tv_sec = 1000 + int k, tv_usec = 0\<rparr>), w_ticks = 0, w_in = (\<lambda>_. []),
      w_out = (\<lambda>_. []), w_wire = (\<lambda>_. []), w_accepts = [], w_epollCtl = [], w_closed = [], w_redis = 0\<rparr>"

definition ex_start :: "nat world result" where
  "ex_start = server_new ex_config addr addr zeros ex_outside"

section \<open>A run\<close>

definition ex_hello :: "ub1_ list" where
  "ex_hello = TPDUHandShake_bytes
     \<lparr>hs_header = \<lparr>hd_size = of_nat sizeof_TPDUHandShake, hd_type = MT_ACCOUNT, hd_cmd = MC_HAND_SHAKE,
        hd_ver = 1, hd_lang = 1, hd_seq = 1, hd_stmp = 0, hd_ext = 0\<rparr>,
      hs_build = 7, hs_lastUpdate = 0, hs_sessionId = take Size_SESSION_ID (str ''abc'' @ zeros Size_SESSION_ID)\<rparr>"

definition input :: "ub8_ \<Rightarrow> epollEvent" where
  "input p = \<lparr>ev_data = p, ev_in = True, ev_rdhup = False, ev_err = False\<rparr>"

definition connects :: "acceptEvent list \<Rightarrow> (nat, unit) handler" where
  "connects evs = updM (\<lambda>w. w\<lparr>w_accepts := evs\<rparr>)"

definition sends :: "b4_ \<Rightarrow> ub1_ list list \<Rightarrow> (nat, unit) handler" where
  "sends fd cs = updM (\<lambda>w. w\<lparr>w_in := (w_in w)(fd := map Arrived cs)\<rparr>)"

definition ex_run :: "(nat, unit) handler" where
  "ex_run =
     thenM (connects [Incoming (str ''10.0.0.1'') 80 7])
     (thenM (handleEvent ex_env (input 0))
     (thenM (sends 7 [take 10 ex_hello, drop 10 ex_hello])
            (handleEvent ex_env (input 1))))"

definition ex_status :: "nat world \<Rightarrow> ub8_ \<Rightarrow> ETransactionStatus option" where
  "ex_status w p = map_option (\<lambda>n. t_status (n_transaction n)) (w_nodes w p)"

text \<open>The connection is waiting for its handshake, and the server has everything it needs to answer.\<close>

definition ex_waits :: "nat world \<Rightarrow> bool" where
  "ex_waits w \<longleftrightarrow>
     (case w_nodes w 1 of None \<Rightarrow> False
      | Some n \<Rightarrow> n_fd n = 7 \<and> n_group n = Some 0 \<and> t_keepLiveTimerId (n_transaction n) \<noteq> 0) \<and>
     w_out w 7 = [] \<and> map g_context (w_groups w) = [True] \<and> freeDeque (timerRes (w_timers w)) \<noteq> [] \<and>
     w_registry w = [] \<and> map g_container (w_groups w) = [[1]]"

definition ex_check :: bool where
  "ex_check =
     (case bindR ex_start ex_run of
        Inl _ \<Rightarrow> False
      | Inr (_, w) \<Rightarrow> ex_status w 1 = Some CONNECTED \<and>
          map (\<lambda>x. usedSize (g_queue x)) (w_groups w) = [of_nat sizeof_TPDUHandShake] \<and> freeDeque (w_res w) = [2] \<and>
          ex_waits w)"

lemma ex_run_evaluates: "ex_check"
  by code_simp

section \<open>The run is a sequence of steps\<close>

definition steps_only :: "'r env \<Rightarrow> ('r, 'a) handler \<Rightarrow> bool" where
  "steps_only e m \<longleftrightarrow> (\<forall>w x w'. m w = Inr (x, w') \<longrightarrow> server_reach e w w')"

lemma server_reach_trans: "server_reach e w1 w2 \<Longrightarrow> server_reach e w2 w3 \<Longrightarrow> server_reach e w1 w3"
  by (rotate_tac, induction rule: server_reach.induct) (auto intro: server_reach.intros)

lemma steps_then: "steps_only e m \<Longrightarrow> steps_only e k \<Longrightarrow> steps_only e (thenM m k)"
  unfolding steps_only_def thenM_def bindM_def bindR_def
  by (clarsimp split: sum.splits) (blast intro: server_reach_trans)

lemma steps_handleEvent: "steps_only e (handleEvent e ev)"
  by (auto simp: steps_only_def intro: server_reach.intros server_step.event)

lemma steps_outside: "steps_only e (connects evs)" "steps_only e (sends fd cs)"
proof -
  have "server_step e w (w\<lparr>w_accepts := evs\<rparr>)" for w
    using server_step.outside [where e = e and w = w and i = "w_in w" and ?o1.0 = "w_out w" and a = evs and c = "w_epollCtl w" and k = "w_clock w" and s = "w_redis w"] by simp
  then show "steps_only e (connects evs)"
    by (auto simp: steps_only_def connects_def updM_def intro: server_reach.intros)
  have "server_step e w (w\<lparr>w_in := i\<rparr>)" for w i
    using server_step.outside [where e = e and w = w and i = i and ?o1.0 = "w_out w" and a = "w_accepts w" and c = "w_epollCtl w" and k = "w_clock w" and s = "w_redis w"] by simp
  then show "steps_only e (sends fd cs)"
    by (auto simp: steps_only_def sends_def updM_def intro: server_reach.intros)
qed

lemma ex_run_reaches:
  obtains w0 w where "ex_start = Inr w0" and "server_reach ex_env w0 w"
    and "ex_status w 1 = Some CONNECTED" and "freeDeque (w_res w) = [2]"
    and "map (\<lambda>x. usedSize (g_queue x)) (w_groups w) = [of_nat sizeof_TPDUHandShake]" and "ex_waits w"
proof -
  have steps: "steps_only ex_env ex_run"
    unfolding ex_run_def by (intro steps_then steps_handleEvent steps_outside)
  obtain w0 u w where w: "ex_start = Inr w0" "ex_run w0 = Inr (u, w)"
    using ex_run_evaluates by (auto simp: ex_check_def bindR_def split: sum.splits)
  have "bindR ex_start ex_run = Inr (u, w)" unfolding w(1) bindR_def sum.case by (rule w(2))
  then have "ex_status w 1 = Some CONNECTED" "freeDeque (w_res w) = [2]"
    "map (\<lambda>x. usedSize (g_queue x)) (w_groups w) = [of_nat sizeof_TPDUHandShake]" "ex_waits w"
    using ex_run_evaluates unfolding ex_check_def by simp_all
  moreover have "server_reach ex_env w0 w" by (rule steps [unfolded steps_only_def, rule_format, OF w(2)])
  ultimately show thesis using that [OF w(1)] by simp
qed

lemma ex_boot: "boot_ok ex_config addr addr zeros"
  using addr_inj [of 2] addr_inj [of 16] addr_nonnull [of 2] addr_nonnull [of 16]
  by (simp add: boot_ok_def ex_config_def zeros_def layout)

section \<open>A single node\<close>

text \<open>A world with one node, on descriptor 7, and one group with a queue of 64 bytes that holds \<open>bs\<close>.\<close>

definition ex_ping :: "ub8_ \<Rightarrow> ub1_ list" where
  "ex_ping p = THeader_bytes \<lparr>hd_size = of_nat sizeof_THeader, hd_type = MT_CONTROL, hd_cmd = MC_HEART_BEAT,
     hd_ver = 1, hd_lang = 1, hd_seq = 0, hd_stmp = 0, hd_ext = p\<rparr>"

definition ex_node :: node where
  "ex_node = (CNode_new (zeros MSG_MAX_LENGTH))\<lparr>n_fd := 7, n_group := Some 0\<rparr>"

definition ex_group :: "ub1_ list \<Rightarrow> group" where
  "ex_group bs =
     \<lparr>g_queue = \<lparr>buffer = bs @ zeros (64 - length bs), totalSize = 64, actualSize = 64, usedSize = of_nat (length bs),
        freeSize = 64 - of_nat (length bs), isPadding = False, padding = 0, writePos = length bs, readPos = 0\<rparr>,
      g_buffer = zeros MSG_MAX_LENGTH, g_context = False, g_container = [1], g_pos = None\<rparr>"

definition ex_world :: "ub1_ list \<Rightarrow> ub1_ list list \<Rightarrow> nat world" where
  "ex_world bs cs = ex_outside\<lparr>w_nodes := [1 \<mapsto> ex_node], w_groups := [ex_group bs], w_in := (\<lambda>_. map Arrived cs)\<rparr>"

lemma ex_ping_facts: "length (ex_ping p) = 29" "THeader_at (ex_ping p) = \<lparr>hd_size = 29, hd_type = MT_CONTROL, hd_cmd = MC_HEART_BEAT,
     hd_ver = 1, hd_lang = 1, hd_seq = 0, hd_stmp = 0, hd_ext = p\<rparr>"
  using THeader_at_bytes [of _ "[]"] by (simp_all add: ex_ping_def layout)

lemma ex_group_plain: "length bs \<le> 64 \<Longrightarrow> lb_plain (g_queue (ex_group bs)) \<and> contents (g_queue (ex_group bs)) = bs"
  by (auto simp: ex_group_def lb_plain_def lb_wf_def lb_straight_def contents_def segment_def zeros_def unat_of_nat_lt
      word_eq_unat unat_minus_le)


lemma ex_world_framed: "framed (ex_world (ex_ping 1) cs) [ex_ping 1] (w_groups (ex_world (ex_ping 1) cs) ! 0)"
  using ex_group_plain [of "ex_ping 1"]
  by (simp add: framed_def frame_def ex_world_def ex_ping_facts layout) (simp add: ex_group_def zeros_def layout)

lemma ex_node_holds: "holds ex_node []"
  by (rule holds_empty) (simp_all add: ex_node_def CNode_new_def zeros_def)

section \<open>Timers\<close>

text \<open>Two listed timers, the cursor on the first.\<close>

definition two_timers :: timerManager where
  "two_timers =
     \<lparr>timerRes = \<lparr>maxNum = 2, unitGroup = [1, 2], freeDeque = []\<rparr>,
      timers = [1 \<mapsto> (armed \<lparr>tv_sec = 5, tv_usec = 0\<rparr> 9 0 0 0)\<lparr>tstatus := ADDED, nextT := 2\<rparr>,
                2 \<mapsto> (armed \<lparr>tv_sec = 5, tv_usec = 0\<rparr> 3 7 8 1)\<lparr>tstatus := ADDED, previousT := 1\<rparr>],
      timerList = 1, lastTimer = 2, queueForAdd = [], queueForDel = [], curTimer = 1\<rparr>"

lemma two_timers_inv: "tm_inv two_timers ([] @ [1] @ 2 # [])"
  by (auto simp: tm_inv_def two_timers_def pool_wf_def timer_ok_def armed_def split: if_splits)

end
