(* ===== verification/Session.thy ===== *)
theory Session
  imports Example_Run
begin

unbundle bit_operations_syntax

text \<open>
  What a session goes through, branch by branch, on a socket that takes everything that is
  written: the handshake and its refusals, the keep-alive timer, a pushed message and its
  acknowledgement, and the end.  The lemmas compute the weakest preconditions of the handlers of
  CTransaction.cpp along the branch that is taken.
\<close>

section \<open>The end of a session\<close>

lemma onStop_returns:
  assumes "sv_inv w" and "w_nodes w p = Some n" and "knownReason r"
  obtains m where "CTransaction_onStop p r w = Inr (False, after_stop p n w m)" and "tm_ok m"
    and "pending m = pending (w_timers w) - tx_timers (n_transaction n)"
proof -
  have "wp (\<lambda>_. False) (CTransaction_onStop p r) (\<lambda>ok w'. \<not> ok \<and> (\<exists>m. w' = after_stop p n w m \<and> tm_ok m \<and>
      pending m = pending (w_timers w) - tx_timers (n_transaction n))) w"
    by (rule onStop_wp [OF assms]) blast
  then show thesis using that by (auto simp: wp_total_iff)
qed

section \<open>The handshake\<close>

text \<open>A message of full length to a socket that takes everything.\<close>

lemma wp_CNode_send_open:
  assumes n: "w_nodes w p = Some n" "w_out w (n_fd n) = []"
    and m: "sizeof_THeader \<le> length msg" "unat (hd_size (THeader_at msg)) = length msg"
  shows "wp F (CNode_send p msg) Q w =
    Q True (w\<lparr>w_wire := (w_wire w)(n_fd n := w_wire w (n_fd n) @ patchHeader (\<lambda>h. h\<lparr>hd_ext := 0\<rparr>) msg)\<rparr>)"
proof -
  let ?m = "patchHeader (\<lambda>h. h\<lparr>hd_ext := 0\<rparr>) msg"
  have l: "length ?m = length msg" using m(1) by simp
  moreover have "0 < length msg" using m(1) by (cases msg) (auto simp: layout)
  ultimately have "?m \<noteq> []" by (metis length_greater_0_conv)
  moreover have "w\<lparr>w_out := (w_out w)(n_fd n := [])\<rparr> = w" using n(2) by (simp add: fun_upd_idem)
  ultimately show ?thesis using n l m(2) by (simp add: CNode_send_def wp_def bindM_def getNode_def Let_def)
qed

lemma wp_send_open:
  assumes n: "w_nodes w p = Some n" "w_out w (n_fd n) = []"
    and m: "sizeof_THeader \<le> length msg" "unat (hd_size (THeader_at msg)) = length msg"
    and now: "now = word_of_int (tv_sec (w_clock w (w_ticks w)) * 1000000 + tv_usec (w_clock w (w_ticks w)))"
  shows "wp F (CTransaction_send e p msg False) Q w =
    Q True (w\<lparr>w_ticks := Suc (w_ticks w),
              w_wire := (w_wire w)(n_fd n := w_wire w (n_fd n) @ patchHeader (\<lambda>h. h\<lparr>hd_stmp := now, hd_ext := 0\<rparr>) msg)\<rparr>)"
proof -
  let ?m = "patchHeader (\<lambda>h. h\<lparr>hd_stmp := now, hd_ext := 0, hd_seq := hd_seq (THeader_at msg)\<rparr>) msg"
  have pp: "patchHeader (\<lambda>h. h\<lparr>hd_ext := 0\<rparr>) ?m = patchHeader (\<lambda>h. h\<lparr>hd_stmp := now, hd_ext := 0\<rparr>) msg"
    by (simp add: patchHeader_def THeader_at_bytes)
  have "wp F (CNode_send p ?m) R (w\<lparr>w_ticks := k\<rparr>) = R True (w\<lparr>w_ticks := k,
      w_wire := (w_wire w)(n_fd n := w_wire w (n_fd n) @ patchHeader (\<lambda>h. h\<lparr>hd_stmp := now, hd_ext := 0\<rparr>) msg)\<rparr>)" for R k
    using wp_CNode_send_open [of "w\<lparr>w_ticks := k\<rparr>" p n ?m F R] n m by (simp add: pp)
  then show ?thesis using now by (simp add: CTransaction_send_def wp_simps)
qed

text \<open>The bytes of an acknowledgement with a code, as the socket sees them.\<close>

definition acked :: "node \<Rightarrow> ub2_ \<Rightarrow> THeader \<Rightarrow> 'r world \<Rightarrow> 'r world \<Rightarrow> bool" where
  "acked n code h w w' \<longleftrightarrow>
     (\<exists>t. w_wire w' = (w_wire w)(n_fd n := w_wire w (n_fd n) @ TPDUHandShakeAck_bytes
        (handShakeAck (h\<lparr>hd_stmp := t, hd_ext := 0\<rparr>) code)))"

lemma patch_ack:
  "patchHeader f (TPDUHandShakeAck_bytes a) = TPDUHandShakeAck_bytes (a\<lparr>hsa_header := f (hsa_header a)\<rparr>)"
  by (simp add: patchHeader_def TPDUHandShakeAck_bytes_def THeader_at_bytes)

lemma ack_stamped:
  "(handShakeAck h c)\<lparr>hsa_header := (hsa_header (handShakeAck h c))\<lparr>hd_stmp := t, hd_ext := 0\<rparr>\<rparr> =
     handShakeAck (h\<lparr>hd_stmp := t, hd_ext := 0\<rparr>) c"
  by (simp add: handShakeAck_def)

lemma ack_sized:
  "sizeof_THeader \<le> length (TPDUHandShakeAck_bytes (handShakeAck h c))"
  "unat (hd_size (THeader_at (TPDUHandShakeAck_bytes (handShakeAck h c)))) = length (TPDUHandShakeAck_bytes (handShakeAck h c))"
  by (simp_all add: TPDUHandShakeAck_bytes_def THeader_at_bytes handShakeAck_def layout)

lemma wp_refuse_open:
  assumes inv: "sv_inv w" and n: "w_nodes w p = Some n" "w_out w (n_fd n) = []" and r: "r \<in> stopReasons"
    and Q: "\<And>m k wi. acked n (reason_code r) h w (w\<lparr>w_wire := wi\<rparr>) \<Longrightarrow>
       Q False (after_stop p n w m\<lparr>w_ticks := k, w_wire := wi\<rparr>)"
  shows "wp F (refuse e p h r) Q w"
proof -
  let ?ack = "TPDUHandShakeAck_bytes (handShakeAck h (reason_code r))"
  have "wp F (CTransaction_over e p r False) Q (w\<lparr>w_ticks := k, w_wire := wi\<rparr>)"
    if wi: "wi = (w_wire w)(n_fd n := w_wire w (n_fd n) @ TPDUHandShakeAck_bytes (handShakeAck (h\<lparr>hd_stmp := t, hd_ext := 0\<rparr>) (reason_code r)))"
    for k wi t
  proof -
    have "wp F (CTransaction_onStop p (reason_code r)) Q (w\<lparr>w_wire := wi, w_ticks := Suc k\<rparr>)"
    proof (rule onStop_wp [where n = n], goal_cases)
      case (4 m)
      have e: "after_stop p n (w\<lparr>w_wire := wi, w_ticks := Suc k\<rparr>) m = after_stop p n w m\<lparr>w_ticks := Suc k, w_wire := wi\<rparr>"
        by (simp add: after_stop_def)
      show ?case unfolding e by (rule Q) (auto simp: acked_def wi)
    qed (use inv n r in \<open>simp_all add: knownReason_code\<close>)
    then show ?thesis by (simp add: CTransaction_over_def wp_simps overMsg_def Let_def)
  qed
  then show ?thesis
    unfolding refuse_def wp_thenM wp_send_open [OF n ack_sized refl] patch_ack ack_stamped by blast
qed

text \<open>
  A connected client, its handshake timer running, on a socket that takes everything and in a group
  with a Redis connection.
\<close>

definition waiting_client :: "'r world \<Rightarrow> ub8_ \<Rightarrow> node \<Rightarrow> nat \<Rightarrow> bool" where
  "waiting_client w p n g \<longleftrightarrow>
     sv_inv w \<and> w_nodes w p = Some n \<and> t_status (n_transaction n) = CONNECTED \<and>
     t_keepLiveTimerId (n_transaction n) \<noteq> 0 \<and> w_out w (n_fd n) = [] \<and>
     n_group n = Some g \<and> g < length (w_groups w) \<and> g_context (w_groups w ! g)"

lemma wp_killTimer_free:
  assumes "tm_ok (w_timers w)" and "u \<in> issued (w_timers w)"
    and "\<And>m. tm_ok m \<Longrightarrow> issued m = issued (w_timers w) \<Longrightarrow>
      (freeDeque (timerRes (w_timers w)) \<noteq> [] \<longrightarrow> freeDeque (timerRes m) \<noteq> []) \<Longrightarrow> Q () (w\<lparr>w_timers := m\<rparr>)"
  shows "wp F (killTimerM u) Q w"
proof -
  obtain m where m: "CTimerManager_killTimer (w_timers w) u = Inr m" "tm_ok m" "issued m = issued (w_timers w)"
    using killTimer_law [OF assms(1,2)] by blast
  obtain xs where "tm_inv (w_timers w) xs" using assms(1) by (auto simp: tm_ok_def)
  moreover obtain t where "timers (w_timers w) u = Some t" "tstatus t \<noteq> NOTHING"
    using assms(2) by (auto simp: issued_def status_of_def)
  ultimately have "freeDeque (timerRes (w_timers w)) \<noteq> [] \<longrightarrow> freeDeque (timerRes m) \<noteq> []"
    using killTimer_ok m(1) by fastforce
  then show ?thesis using assms(3) [OF m(2,3)] m(1) by (simp add: wp_def killTimerM_def)
qed

text \<open>The first part of \<open>__onStart\<close>: the handshake timer is killed.\<close>

lemma wp_onStart:
  assumes wc: "waiting_client w p n g"
    and Q: "\<And>m. tm_ok m \<Longrightarrow> issued m = issued (w_timers w) \<Longrightarrow>
      (freeDeque (timerRes (w_timers w)) \<noteq> [] \<longrightarrow> freeDeque (timerRes m) \<noteq> []) \<Longrightarrow>
      wp F (if hs_build (TPDUHandShake_at buf) < BASE_BUILD (e_cfg e)
            then refuse e p (hs_header (TPDUHandShake_at buf)) CLIENT_TOO_OLD
            else startSession e p (TPDUHandShake_at buf)) Q
        (w\<lparr>w_timers := m, w_nodes := (w_nodes w)(p \<mapsto> n\<lparr>n_transaction := waiting\<rparr>)\<rparr>)"
  shows "wp F (CTransaction_onStart e p buf) Q w"
proof -
  define t where "t = n_transaction n"
  have inv: "sv_inv w" and n: "w_nodes w p = Some n" and st: "t_status t = CONNECTED" and k: "t_keepLiveTimerId t \<noteq> 0"
    using wc by (simp_all add: waiting_client_def t_def)
  have ok: "tx_ok (issued (w_timers w)) t" using sv_inv_tx [OF inv n] by (simp add: t_def)
  then have tw: "t\<lparr>t_keepLiveTimerId := 0\<rparr> = waiting" and ki: "t_keepLiveTimerId t \<in> issued (w_timers w)"
    using st k by (auto simp: tx_ok_def waiting_def CTransaction_new_def)
  have "wp F (killTimerM (t_keepLiveTimerId t)) (\<lambda>_. wp F (updTx p (\<lambda>t. t\<lparr>t_keepLiveTimerId := 0\<rparr>)) (\<lambda>_.
      wp F (if hs_build (TPDUHandShake_at buf) < BASE_BUILD (e_cfg e)
            then refuse e p (hs_header (TPDUHandShake_at buf)) CLIENT_TOO_OLD
            else startSession e p (TPDUHandShake_at buf)) Q)) w"
    by (rule wp_killTimer_free) (use sv_invD(1) [OF inv] ki n Q tw in \<open>auto simp: wp_updTx t_def [symmetric]\<close>)
  then show ?thesis
    using n st k by (simp add: CTransaction_onStart_def wp_bindM wp_thenM wp_getTx wp_assertM Let_def t_def)
qed

lemma sv_inv_waiting:
  assumes "waiting_client w p n g" and "tm_ok m" and "issued m = issued (w_timers w)"
  shows "sv_inv (w\<lparr>w_timers := m, w_nodes := (w_nodes w)(p \<mapsto> n\<lparr>n_transaction := waiting\<rparr>)\<rparr>)" (is "sv_inv ?w")
proof -
  have n: "w_nodes w p = Some n" and inv: "sv_inv w" and st: "t_status (n_transaction n) = CONNECTED"
    using assms(1) by (simp_all add: waiting_client_def)
  have tx: "txs ?w = (txs w)(p \<mapsto> waiting)" by (simp add: txs_def fun_eq_iff)
  have t: "t_sessionId (n_transaction n) = t_sessionId waiting" "t_status (n_transaction n) = t_status waiting"
    using sv_inv_tx [OF inv n] st by (auto simp: tx_ok_def waiting_def CTransaction_new_def)
  have "reg_ok ?w" by (rule reg_ok_same [where ?t0.0 = "n_transaction n", OF sv_invD(2) [OF inv] _ tx]) (use n t in \<open>simp_all add: txs_def\<close>)
  then show ?thesis using assms(2,3) by (intro sv_inv_upd [OF inv _ _ tx]) (auto simp: tx_ok_def waiting_def CTransaction_new_def)
qed

text \<open>The outcome of a refused handshake: the client is told why, and the transaction is over; nothing
  else changes but the timers and the clock.\<close>

definition refused :: "ub8_ \<Rightarrow> node \<Rightarrow> ETransactionExitReason \<Rightarrow> THeader \<Rightarrow> 'r world \<Rightarrow> 'r world \<Rightarrow> bool" where
  "refused p n r h w w' \<longleftrightarrow>
     acked n (reason_code r) h w w' \<and>
     w_nodes w' = (w_nodes w)(p \<mapsto> n\<lparr>n_transaction := stopped\<rparr>) \<and> w_registry w' = w_registry w \<and>
     w_groups w' = w_groups w"

text \<open>What Redis answers about a session: it does not know it, or the user it belongs to.\<close>

definition session_user :: "reply \<Rightarrow> ub8_" where
  "session_user r = (case r of R_String s \<Rightarrow> atoll s | _ \<Rightarrow> 0)"

definition session_query :: "ub1_ list \<Rightarrow> command" where
  "session_query sid = [str ''zscore'', str ''gml:account:session'', cstr sid]"

lemma wp_verify_open:
  assumes "g < length (w_groups w)" and "g_context (w_groups w ! g)" and "firstByte sid \<noteq> 0" and "0 \<in> set sid"
    and "h_command (e_api e) g (session_query sid) (w_redis w) = (Some r, rs)" and "r = R_Nil \<or> (\<exists>s. r = R_String s)"
  shows "wp F (CRedisOperator_verifyHandshake e g sid) Q w = Q (session_user r) (w\<lparr>w_redis := rs\<rparr>)"
  using assms
  by (auto simp: CRedisOperator_verifyHandshake_def contextM_def wp_simps cstring_def session_query_def
      CRedisOperator_errorHandler_def errorHandler_def session_user_def)

text \<open>A valid handshake, up to the answer of Redis.\<close>

definition valid_hello :: "'r env \<Rightarrow> nat \<Rightarrow> TPDUHandShake \<Rightarrow> 'r world \<Rightarrow> reply \<Rightarrow> bool" where
  "valid_hello e g msg w r \<longleftrightarrow>
     BASE_BUILD (e_cfg e) \<le> hs_build msg \<and> firstByte (hs_sessionId msg) \<noteq> 0 \<and> 0 \<in> set (hs_sessionId msg) \<and>
     fst (h_command (e_api e) g (session_query (hs_sessionId msg)) (w_redis w)) = Some r \<and>
     (r = R_Nil \<or> (\<exists>s. r = R_String s))"

lemma wp_start_valid:
  assumes wc: "waiting_client w p n g" and v: "valid_hello e g (TPDUHandShake_at buf) w r"
    and Q: "\<And>m rs. sv_inv (w\<lparr>w_timers := m, w_redis := rs, w_nodes := (w_nodes w)(p \<mapsto> n\<lparr>n_transaction := waiting\<rparr>)\<rparr>) \<Longrightarrow>
      (freeDeque (timerRes (w_timers w)) \<noteq> [] \<longrightarrow> freeDeque (timerRes m) \<noteq> []) \<Longrightarrow>
      wp F (claimSession e p (TPDUHandShake_at buf) (session_user r)) Q
        (w\<lparr>w_timers := m, w_redis := rs,
           w_nodes := (w_nodes w)(p \<mapsto> n\<lparr>n_transaction := claiming (TPDUHandShake_at buf) (session_user r)\<rparr>)\<rparr>)"
  shows "wp F (CTransaction_onStart e p buf) Q w"
proof (rule wp_onStart [OF wc], goal_cases)
  case (1 m)
  let ?msg = "TPDUHandShake_at buf"
  obtain rs where rs: "h_command (e_api e) g (session_query (hs_sessionId ?msg)) (w_redis w) = (Some r, rs)"
    using v by (metis fst_conv surj_pair valid_hello_def)
  have nb: "\<not> hs_build ?msg < BASE_BUILD (e_cfg e)" and sid: "firstByte (hs_sessionId ?msg) \<noteq> 0" "0 \<in> set (hs_sessionId ?msg)"
    and rr: "r = R_Nil \<or> (\<exists>s. r = R_String s)" using v by (auto simp: valid_hello_def)
  have grp: "n_group n = Some g" "g < length (w_groups w)" "g_context (w_groups w ! g)" using wc by (simp_all add: waiting_client_def)
  let ?w = "w\<lparr>w_timers := m, w_nodes := (w_nodes w)(p \<mapsto> n\<lparr>n_transaction := waiting\<lparr>t_sessionId := hs_sessionId ?msg\<rparr>\<rparr>)\<rparr>"
  have ver: "wp F (CRedisOperator_verifyHandshake e g (hs_sessionId ?msg)) R ?w = R (session_user r) (?w\<lparr>w_redis := rs\<rparr>)" for R
    by (rule wp_verify_open) (use grp sid rs rr in simp_all)
  have "sv_inv (w\<lparr>w_timers := m, w_redis := rs, w_nodes := (w_nodes w)(p \<mapsto> n\<lparr>n_transaction := waiting\<rparr>)\<rparr>)"
    using sv_inv_waiting [OF wc 1(1,2)]
      sv_inv_core [of "w\<lparr>w_timers := m, w_nodes := (w_nodes w)(p \<mapsto> n\<lparr>n_transaction := waiting\<rparr>)\<rparr>"
        "w\<lparr>w_timers := m, w_redis := rs, w_nodes := (w_nodes w)(p \<mapsto> n\<lparr>n_transaction := waiting\<rparr>)\<rparr>"]
    by (simp add: same_core_def)
  moreover have "?w\<lparr>w_redis := rs, w_nodes := (w_nodes w)(p \<mapsto> n\<lparr>n_transaction := claiming ?msg u\<rparr>)\<rparr> =
      w\<lparr>w_timers := m, w_redis := rs, w_nodes := (w_nodes w)(p \<mapsto> n\<lparr>n_transaction := claiming ?msg u\<rparr>)\<rparr>" for u by simp
  ultimately show ?case
    using Q 1(3) nb grp unfolding if_not_P [OF nb]
    by (simp add: startSession_def wp_thenM wp_bindM wp_updTx wp_groupOf ver claiming_def)
qed

lemma wp_refuse_claim:
  assumes inv: "sv_inv (w\<lparr>w_timers := m, w_redis := rs, w_nodes := (w_nodes w)(p \<mapsto> n\<lparr>n_transaction := waiting\<rparr>)\<rparr>)"
    and o: "w_out w (n_fd n) = []" and r: "r \<in> stopReasons"
    and Q: "\<And>w'. refused p n r h w w' \<Longrightarrow> Q False w'"
  shows "wp F (thenM (clearSession p) (refuse e p h r)) Q
     (w\<lparr>w_timers := m, w_redis := rs, w_nodes := (w_nodes w)(p \<mapsto> n\<lparr>n_transaction := claiming msg uid\<rparr>)\<rparr>)"
proof -
  have "wp F (refuse e p h r) Q (w\<lparr>w_timers := m, w_redis := rs, w_nodes := (w_nodes w)(p \<mapsto> n\<lparr>n_transaction := waiting\<rparr>)\<rparr>)"
    by (rule wp_refuse_open [where n = "n\<lparr>n_transaction := waiting\<rparr>"])
      (use inv o r in \<open>auto intro!: Q simp: refused_def acked_def after_stop_def waiting_def\<close>)
  then show ?thesis by (simp add: wp_thenM clearSession_def wp_updTx clear_claiming)
qed

lemma wp_setTimer_free:
  assumes "tm_ok (w_timers w)" and "freeDeque (timerRes (w_timers w)) \<noteq> []"
    and "\<And>u m k. u \<noteq> 0 \<Longrightarrow> u \<notin> pending (w_timers w) \<Longrightarrow> tm_ok m \<Longrightarrow> pending m = insert u (pending (w_timers w)) \<Longrightarrow>
      u \<in> issued m \<Longrightarrow> freeDeque (timerRes m) = tl (freeDeque (timerRes (w_timers w))) \<Longrightarrow> Q u (w\<lparr>w_timers := m, w_ticks := k\<rparr>)"
  shows "wp F (setTimerM per pI pII c) Q w"
proof -
  obtain xs where inv: "tm_inv (w_timers w) xs" using assms(1) by (auto simp: tm_ok_def)
  obtain u us where us: "freeDeque (timerRes (w_timers w)) = u # us" using assms(2) by (cases "freeDeque (timerRes (w_timers w))") auto
  then obtain m where m: "CTimerManager_setTimer (w_clock w (w_ticks w)) (w_timers w) per pI pII c = Inr (u, m)" "u \<noteq> 0"
      "freeDeque (timerRes m) = tl (freeDeque (timerRes (w_timers w)))"
    using setTimer_some [OF inv us, of "w_clock w (w_ticks w)" per pI pII c] by (auto simp: us)
  moreover have "u \<notin> pending (w_timers w)" "tm_ok m" "pending m = insert u (pending (w_timers w))" "u \<in> issued m"
    using setTimer_law [OF assms(1), of "w_clock w (w_ticks w)" per pI pII c] m by auto
  ultimately show ?thesis using assms(3) by (simp add: wp_def setTimerM_def)
qed

text \<open>The outcome of an accepted handshake.\<close>

definition accepted :: "ub8_ \<Rightarrow> node \<Rightarrow> TPDUHandShake \<Rightarrow> ub8_ \<Rightarrow> 'r world \<Rightarrow> 'r world \<Rightarrow> bool" where
  "accepted p n msg uid w w' \<longleftrightarrow>
     acked n 0 (hs_header msg) w w' \<and> w_registry w' = p # w_registry w \<and> w_groups w' = w_groups w \<and>
     (\<exists>u \<in> pending (w_timers w'). u \<noteq> 0 \<and> w_nodes w' = (w_nodes w)(p \<mapsto> n\<lparr>n_transaction :=
        (claiming msg uid)\<lparr>t_status := READY, t_lastUpdate := hs_lastUpdate msg, t_heartbeat := True, t_keepLiveTimerId := u\<rparr>\<rparr>))"

lemma wp_startReady_open:
  assumes tm: "tm_ok m" "freeDeque (timerRes m) \<noteq> []" and o: "w_out w (n_fd n) = []"
    and Q: "\<And>w'. accepted p n msg uid w w' \<Longrightarrow> Q True w'"
  shows "wp F (startReady e p msg) Q (w\<lparr>w_timers := m, w_redis := rs, w_registry := p # w_registry w,
     w_nodes := (w_nodes w)(p \<mapsto> n\<lparr>n_transaction := claiming msg uid\<rparr>)\<rparr>)"
proof -
  let ?t = "(claiming msg uid)\<lparr>t_status := READY, t_lastUpdate := hs_lastUpdate msg\<rparr>"
  let ?w = "\<lambda>t. w\<lparr>w_timers := m, w_redis := rs, w_registry := p # w_registry w,
     w_nodes := (w_nodes w)(p \<mapsto> n\<lparr>n_transaction := t\<rparr>)\<rparr>"
  have hb: "wp F (startHeartBeat e p) Q (?w ?t\<lparr>w_ticks := k, w_wire := wi\<rparr>)"
    if wi: "wi = (w_wire w)(n_fd n := w_wire w (n_fd n) @ TPDUHandShakeAck_bytes (handShakeAck ((hs_header msg)\<lparr>hd_stmp := t, hd_ext := 0\<rparr>) 0))"
    for k wi t
  proof -
    have "wp F (setTimerM (HEARTBEAT_INTERVAL (e_cfg e)) p (status_code READY) 0) (\<lambda>u.
        wp F (updTx p (\<lambda>t. t\<lparr>t_keepLiveTimerId := u\<rparr>)) (\<lambda>_. wp F (if u = 0 then CTransaction_over e p NO_MORE_TIMER False else retM True) Q))
        (w\<lparr>w_timers := m, w_redis := rs, w_registry := p # w_registry w, w_ticks := k, w_wire := wi,
           w_nodes := (w_nodes w)(p \<mapsto> n\<lparr>n_transaction := ?t\<lparr>t_heartbeat := True\<rparr>\<rparr>)\<rparr>)"
      by (rule wp_setTimer_free) (use tm wi in \<open>auto intro!: Q simp: wp_updTx wp_retM accepted_def acked_def\<close>)
    then show ?thesis by (simp add: startHeartBeat_def wp_thenM wp_bindM wp_updTx)
  qed
  have n: "w_nodes (?w ?t) p = Some (n\<lparr>n_transaction := ?t\<rparr>)" "w_out (?w ?t) (n_fd (n\<lparr>n_transaction := ?t\<rparr>)) = []"
    using o by simp_all
  have "wp F (CTransaction_send e p (TPDUHandShakeAck_bytes (handShakeAck (hs_header msg) 0)) False)
      (\<lambda>sent. wp F (if sent then startHeartBeat e p else retM True) Q) (?w ?t)"
    unfolding wp_send_open [OF n ack_sized refl] patch_ack ack_stamped using hb by simp
  then show ?thesis by (simp add: startReady_def wp_thenM wp_bindM wp_updTx)
qed

lemma handshake_outcome:
  assumes wc: "waiting_client w p n g" and v: "valid_hello e g (TPDUHandShake_at buf) w r"
    and fr: "freeDeque (timerRes (w_timers w)) \<noteq> []"
  shows "\<exists>ok w'. CTransaction_onStart e p buf w = Inr (ok, w') \<and>
    (if session_user r = 0 then \<not> ok \<and> refused p n NO_THE_SESSION_FOUND (hs_header (TPDUHandShake_at buf)) w w'
     else if findKey w (cstr (hs_sessionId (TPDUHandShake_at buf))) \<noteq> None
     then \<not> ok \<and> refused p n SAME_SESSION_ID (hs_header (TPDUHandShake_at buf)) w w'
     else ok \<and> accepted p n (TPDUHandShake_at buf) (session_user r) w w')"
proof -
  let ?msg = "TPDUHandShake_at buf" and ?uid = "session_user r"
  let ?Q = "\<lambda>ok w'. if ?uid = 0 then \<not> ok \<and> refused p n NO_THE_SESSION_FOUND (hs_header ?msg) w w'
     else if findKey w (cstr (hs_sessionId ?msg)) \<noteq> None then \<not> ok \<and> refused p n SAME_SESSION_ID (hs_header ?msg) w w'
     else ok \<and> accepted p n ?msg ?uid w w'"
  have n: "w_nodes w p = Some n" and o: "w_out w (n_fd n) = []" and inv: "sv_inv w" and st: "t_status (n_transaction n) = CONNECTED"
    using wc by (simp_all add: waiting_client_def)
  have pr: "p \<notin> set (w_registry w)" using sv_invD(2) [OF inv] n st by (simp add: reg_ok_def ready_def txs_def)
  have "wp (\<lambda>_. False) (CTransaction_onStart e p buf) ?Q w"
  proof (rule wp_start_valid [OF wc v], goal_cases)
    case (1 m rs)
    let ?w = "w\<lparr>w_timers := m, w_redis := rs, w_nodes := (w_nodes w)(p \<mapsto> n\<lparr>n_transaction := claiming ?msg ?uid\<rparr>)\<rparr>"
    have "tm_ok m" using sv_invD(1) [OF 1(1)] by simp
    have key: "findKey ?w k = findKey w k" for k
      unfolding findKey_def using pr by (auto intro!: find_cong simp: sessionKey_def)
    have ref: "wp (\<lambda>_. False) (thenM (clearSession p) (refuse e p (hs_header ?msg) rr)) ?Q ?w"
      if "rr \<in> stopReasons" "\<And>w'. refused p n rr (hs_header ?msg) w w' \<Longrightarrow> ?Q False w'" for rr
      by (rule wp_refuse_claim [OF 1(1) o that(1)]) (rule that(2))
    have acc: "wp (\<lambda>_. False) (startReady e p ?msg) ?Q (w\<lparr>w_timers := m, w_redis := rs, w_registry := p # w_registry w,
        w_nodes := (w_nodes w)(p \<mapsto> n\<lparr>n_transaction := claiming ?msg ?uid\<rparr>)\<rparr>)"
      if "?uid \<noteq> 0" "findKey w (cstr (hs_sessionId ?msg)) = None"
      by (rule wp_startReady_open) (use \<open>tm_ok m\<close> 1(2) fr o that in auto)
    have swap: "?w\<lparr>w_registry := p # w_registry w\<rparr> = w\<lparr>w_timers := m, w_redis := rs, w_registry := p # w_registry w,
        w_nodes := (w_nodes w)(p \<mapsto> n\<lparr>n_transaction := claiming ?msg ?uid\<rparr>)\<rparr>" by simp
    have sid: "t_sessionId (claiming ?msg ?uid) = hs_sessionId ?msg" by (simp add: claiming_def)
    consider "?uid = 0" | "?uid \<noteq> 0" "findKey w (cstr (hs_sessionId ?msg)) \<noteq> None" | "?uid \<noteq> 0" "findKey w (cstr (hs_sessionId ?msg)) = None"
      by blast
    then show ?case
    proof cases
      case a: 1
      then show ?thesis using ref [of NO_THE_SESSION_FOUND] by (simp add: claimSession_def stopReasons_def)
    next
      case 2
      then show ?thesis using ref [of SAME_SESSION_ID] key sid
        by (auto simp: claimSession_def CTransactionManager_registerTransaction_def wp_simps stopReasons_def)
    next
      case 3
      then show ?thesis using acc [folded swap] key sid
        by (simp add: claimSession_def CTransactionManager_registerTransaction_def wp_simps)
    qed
  qed
  then show ?thesis unfolding wp_total_iff by blast
qed

section \<open>Keep-alive\<close>

definition keepLiveMsg :: "'r world \<Rightarrow> ub8_ \<Rightarrow> ub1_ list \<Rightarrow> bool" where
  "keepLiveMsg w p buf \<longleftrightarrow>
     (\<exists>n. w_nodes w p = Some n \<and> ot_timerId (TPDUOnTimer_at buf) = t_keepLiveTimerId (n_transaction n) \<and>
        ot_parameter (TPDUOnTimer_at buf) = status_code (t_status (n_transaction n)))"

lemma heartBeat_sized:
  "sizeof_THeader \<le> length (TPDUHeartBeat_bytes (heartBeatMsg e))"
  "unat (hd_size (THeader_at (TPDUHeartBeat_bytes (heartBeatMsg e)))) = length (TPDUHeartBeat_bytes (heartBeatMsg e))"
  using THeader_at_bytes [of _ "[]"] by (simp_all add: TPDUHeartBeat_bytes_def heartBeatMsg_def layout)

lemma patch_heartBeat:
  "patchHeader f (TPDUHeartBeat_bytes a) = TPDUHeartBeat_bytes (a\<lparr>hb_header := f (hb_header a)\<rparr>)"
  using THeader_at_bytes [of _ "[]"] by (simp add: patchHeader_def TPDUHeartBeat_bytes_def layout)

text \<open>The two outcomes of the keep-alive timer.\<close>

definition heartbeat_sent :: "'r env \<Rightarrow> ub8_ \<Rightarrow> node \<Rightarrow> 'r world \<Rightarrow> 'r world \<Rightarrow> bool" where
  "heartbeat_sent e p n w w' \<longleftrightarrow>
     (\<exists>t. w_wire w' = (w_wire w)(n_fd n := w_wire w (n_fd n) @ TPDUHeartBeat_bytes
        ((heartBeatMsg e)\<lparr>hb_header := (hb_header (heartBeatMsg e))\<lparr>hd_stmp := t, hd_ext := 0\<rparr>\<rparr>))) \<and>
     w_nodes w' = (w_nodes w)(p \<mapsto> n\<lparr>n_transaction := (n_transaction n)\<lparr>t_heartbeat := False\<rparr>\<rparr>) \<and>
     w_timers w' = w_timers w \<and> w_registry w' = w_registry w \<and> w_groups w' = w_groups w"

definition session_ended :: "ub8_ \<Rightarrow> node \<Rightarrow> 'r world \<Rightarrow> 'r world \<Rightarrow> bool" where
  "session_ended p n w w' \<longleftrightarrow>
     w_nodes w' = (w_nodes w)(p \<mapsto> n\<lparr>n_transaction := stopped\<rparr>) \<and>
     w_registry w' = (if t_status (n_transaction n) = READY then remove1 p (w_registry w) else w_registry w) \<and>
     pending (w_timers w') = pending (w_timers w) - tx_timers (n_transaction n) \<and>
     w_wire w' = w_wire w \<and> w_groups w' = w_groups w"

lemma ended_after_stop:
  "pending m = pending (w_timers w) - tx_timers (n_transaction n) \<Longrightarrow> session_ended p n w (after_stop p n (w\<lparr>w_ticks := k\<rparr>) m)"
  by (simp add: session_ended_def after_stop_def)

lemma wp_over_ends:
  assumes "sv_inv w" and "w_nodes w p = Some n" and "r \<in> stopReasons"
    and "\<And>w'. session_ended p n w w' \<Longrightarrow> Q False w'"
  shows "wp F (CTransaction_over e p r False) Q w"
proof -
  have "wp F (CTransaction_onStop p (reason_code r)) Q (w\<lparr>w_ticks := Suc (w_ticks w)\<rparr>)"
    by (rule onStop_wp [where n = n])
      (use assms in \<open>simp_all add: knownReason_code ended_after_stop\<close>)
  then show ?thesis by (simp add: CTransaction_over_def wp_bindM wp_CBase_now overMsg_def Let_def)
qed

lemma wp_beat:
  assumes n: "w_nodes w p = Some n" and o: "w_out w (n_fd n) = []"
    and Q: "\<And>w'. heartbeat_sent e p n w w' \<Longrightarrow> Q True w'"
  shows "wp F (thenM (CTransaction_send e p (TPDUHeartBeat_bytes (heartBeatMsg e)) False)
    (thenM (updTx p (\<lambda>t. t\<lparr>t_heartbeat := False\<rparr>)) (retM True))) Q w"
  using n by (auto simp: wp_thenM wp_updTx wp_retM wp_send_open [OF n o heartBeat_sized refl] patch_heartBeat
      heartbeat_sent_def intro!: Q)


section \<open>Pushing a message\<close>

lemma wp_send_wait:
  assumes n: "w_nodes w p = Some n" "w_out w (n_fd n) = []"
    and m: "sizeof_THeader \<le> length msg" "unat (hd_size (THeader_at msg)) = length msg"
    and tm: "tm_ok (w_timers w)" "freeDeque (timerRes (w_timers w)) \<noteq> []"
    and seq: "seq = nextSeq (t_seqCounter (n_transaction n))"
    and Q: "\<And>u m k now. u \<noteq> 0 \<Longrightarrow> u \<notin> pending (w_timers w) \<Longrightarrow> tm_ok m \<Longrightarrow> pending m = insert u (pending (w_timers w)) \<Longrightarrow>
      u \<in> issued m \<Longrightarrow> freeDeque (timerRes m) = tl (freeDeque (timerRes (w_timers w))) \<Longrightarrow>
      Q True (w\<lparr>w_wire := (w_wire w)(n_fd n := w_wire w (n_fd n) @ patchHeader (\<lambda>h. h\<lparr>hd_stmp := now, hd_ext := 0, hd_seq := seq\<rparr>) msg),
         w_timers := m, w_ticks := k,
         w_nodes := (w_nodes w)(p \<mapsto> n\<lparr>n_transaction := (n_transaction n)\<lparr>t_seqCounter := seq,
            t_mapSeq2Timer := mapPut seq u (t_mapSeq2Timer (n_transaction n))\<rparr>\<rparr>)\<rparr>)"
  shows "wp F (CTransaction_send e p msg True) Q w"
proof -
  define now :: ub8_ where "now = word_of_int (tv_sec (w_clock w (w_ticks w)) * 1000000 + tv_usec (w_clock w (w_ticks w)))"
  let ?m = "patchHeader (\<lambda>h. h\<lparr>hd_stmp := now, hd_ext := 0, hd_seq := seq\<rparr>) msg"
  let ?n = "n\<lparr>n_transaction := (n_transaction n)\<lparr>t_seqCounter := seq\<rparr>\<rparr>"
  let ?w = "w\<lparr>w_ticks := Suc (w_ticks w), w_nodes := (w_nodes w)(p \<mapsto> ?n)\<rparr>"
  let ?wi = "(w_wire w)(n_fd n := w_wire w (n_fd n) @ ?m)"
  have pp: "patchHeader (\<lambda>h. h\<lparr>hd_ext := 0\<rparr>) ?m = ?m"
    by (simp add: patchHeader_def THeader_at_bytes) (cases "THeader_at msg", simp)
  have sent: "wp F (CNode_send p ?m) R ?w = R True (?w\<lparr>w_wire := ?wi\<rparr>)" for R
    using wp_CNode_send_open [of ?w p ?n ?m F R] n m by (simp add: pp)
  have "wp F (armAckTimer e p seq) Q (?w\<lparr>w_wire := ?wi\<rparr>)"
    unfolding armAckTimer_def wp_bindM
    by (rule wp_setTimer_free) (use tm Q in \<open>auto simp: wp_simps\<close>)
  then show ?thesis using n(1) seq sent
    by (simp add: CTransaction_send_def wp_simps now_def)
qed

lemma mapDel_put: "mapDel k (mapPut k v m) = mapDel k m"
  by (induction k v m rule: mapPut.induct) (auto simp: mapDel_def)

lemma mapPut_found: "map_of (mapPut k v m) k = Some v"
  by (induction k v m rule: mapPut.induct) auto

lemma nextSeq_nonzero: "nextSeq c \<noteq> 0"
  by (simp add: nextSeq_def Let_def)

text \<open>A message was pushed: it is on the wire with the next sequence number, and a timer waits for its
  acknowledgement.\<close>

definition pushed ::
  "ub8_ \<Rightarrow> node \<Rightarrow> TPDUPushMsg \<Rightarrow> ub8_ \<Rightarrow> ub8_ \<Rightarrow> 'r world \<Rightarrow> 'r world \<Rightarrow> bool" where
  "pushed p n msg stmp u w w' \<longleftrightarrow>
     (let t = n_transaction n; seq = nextSeq (t_seqCounter t) in
       hd_size (pm_header msg) = of_nat sizeof_TPDUPushMsg \<and> hd_type (pm_header msg) = MT_SERVICE \<and>
       hd_cmd (pm_header msg) = MC_PUSH_MSG \<and> hd_seq (pm_header msg) = seq \<and>
       w_wire w' = (w_wire w)(n_fd n := w_wire w (n_fd n) @ TPDUPushMsg_bytes msg) \<and>
       w_nodes w' = (w_nodes w)(p \<mapsto> n\<lparr>n_transaction := t\<lparr>t_seqCounter := seq,
         t_mapSeq2Timer := mapPut seq u (t_mapSeq2Timer t), t_lastUpdate := stmp\<rparr>\<rparr>) \<and>
       w_registry w' = w_registry w \<and> w_groups w' = w_groups w \<and> w_out w' = w_out w \<and> w_redis w' = w_redis w \<and>
       u \<noteq> 0 \<and> u \<notin> pending (w_timers w) \<and> pending (w_timers w') = insert u (pending (w_timers w)) \<and>
       freeDeque (timerRes (w_timers w')) = tl (freeDeque (timerRes (w_timers w))))"

lemma patch_push:
  "patchHeader f (TPDUPushMsg_bytes a) = TPDUPushMsg_bytes (a\<lparr>pm_header := f (pm_header a)\<rparr>)"
  by (simp add: patchHeader_def TPDUPushMsg_bytes_def THeader_at_bytes)

lemma push_message:
  assumes inv: "sv_inv w" and n: "w_nodes w p = Some n" "w_out w (n_fd n) = []"
    and free: "freeDeque (timerRes (w_timers w)) \<noteq> []" and len: "unat len \<le> Length_JSON"
  shows "\<exists>msg u w'. CTransaction_handlePushMessage e p ornType ornId ornExtId messageId json len stmp w = Inr (True, w') \<and>
     pushed p n msg stmp u w w' \<and> tm_ok (w_timers w') \<and> u \<in> issued (w_timers w') \<and>
     pm_ornType msg = ornType \<and> pm_ornId msg = ornId \<and> pm_ornExtId msg = ornExtId \<and>
     pm_messageId msg = messageId \<and> pm_json msg = strncpy (zeros Size_JSON) json Length_JSON"
proof -
  let ?h = "\<lambda>now. \<lparr>hd_size = of_nat sizeof_TPDUPushMsg, hd_type = MT_SERVICE, hd_cmd = MC_PUSH_MSG,
     hd_ver = PROTOCOL_VERSION (e_cfg e), hd_lang = ML_CN, hd_seq = 0, hd_stmp = now, hd_ext = 0\<rparr>"
  let ?m = "\<lambda>now. \<lparr>pm_header = ?h now, pm_ornType = ornType, pm_ornId = ornId, pm_ornExtId = ornExtId, pm_messageId = messageId,
     pm_json = strncpy (zeros Size_JSON) json Length_JSON\<rparr>"
  let ?Q = "\<lambda>ok w'. ok = True \<and> (\<exists>msg u. pushed p n msg stmp u w w' \<and> tm_ok (w_timers w') \<and> u \<in> issued (w_timers w') \<and>
     pm_ornType msg = ornType \<and> pm_ornId msg = ornId \<and> pm_ornExtId msg = ornExtId \<and>
     pm_messageId msg = messageId \<and> pm_json msg = strncpy (zeros Size_JSON) json Length_JSON)"
  have sz: "sizeof_THeader \<le> length (TPDUPushMsg_bytes (?m now))" "unat (hd_size (THeader_at (TPDUPushMsg_bytes (?m now)))) = length (TPDUPushMsg_bytes (?m now))" for now
    by (simp_all add: TPDUPushMsg_bytes_def THeader_at_bytes layout zeros_def)
  have "wp (\<lambda>_. False) (CTransaction_send e p (TPDUPushMsg_bytes (?m now)) True)
      (\<lambda>ret. wp (\<lambda>_. False) (thenM (if ret then updTx p (\<lambda>t. t\<lparr>t_lastUpdate := stmp\<rparr>) else retM ()) (retM ret)) ?Q) (w\<lparr>w_ticks := k\<rparr>)" for now k
  proof (rule wp_send_wait [OF _ _ sz, where n = n and seq = "nextSeq (t_seqCounter (n_transaction n))"], goal_cases)
    case (6 u m k' now')
    show ?case
      by (simp add: wp_simps patch_push)
        (intro exI [of _ "(?m now)\<lparr>pm_header := (?h now)\<lparr>hd_stmp := now', hd_ext := 0, hd_seq := nextSeq (t_seqCounter (n_transaction n))\<rparr>\<rparr>"]
          exI [of _ u], use 6 in \<open>simp add: pushed_def Let_def\<close>)
  qed (use n free sv_invD(1) [OF inv] in simp_all)
  then have "wp (\<lambda>_. False) (CTransaction_handlePushMessage e p ornType ornId ornExtId messageId json len stmp) ?Q w"
    using len unfolding CTransaction_handlePushMessage_def Let_def wp_bindM wp_CBase_now wp_thenM wp_assertM by simp
  then show ?thesis unfolding wp_total_iff by blast
qed

lemma wp_killTimer_at:
  "wp F (killTimerM u) Q w = (case CTimerManager_killTimer (w_timers w) u of Inl f \<Rightarrow> F f | Inr m \<Rightarrow> Q () (w\<lparr>w_timers := m\<rparr>))"
  by (simp add: wp_def killTimerM_def bindR_def split: sum.splits)

lemma push_ack:
  assumes n: "w_nodes w p = Some n" "t_status (n_transaction n) = READY" and tm: "tm_ok (w_timers w)" "u \<in> issued (w_timers w)"
    and seq: "seq = hd_seq (THeader_at buf)" "seq \<noteq> 0" and u: "map_of (t_mapSeq2Timer (n_transaction n)) seq = Some u"
  shows "\<exists>m. CTransaction_onPushMsg e p buf w = Inr (True, w\<lparr>w_timers := m,
      w_nodes := (w_nodes w)(p \<mapsto> n\<lparr>n_transaction := (n_transaction n)\<lparr>t_mapSeq2Timer := mapDel seq (t_mapSeq2Timer (n_transaction n))\<rparr>\<rparr>)\<rparr>) \<and>
    pending m = pending (w_timers w) - {u}"
proof -
  obtain m where m: "CTimerManager_killTimer (w_timers w) u = Inr m" "pending m = pending (w_timers w) - {u}"
    using killTimer_law [OF tm] by blast
  have h: "hd_seq (pma_header (TPDUPushMsgAck_at buf)) = seq" using seq by (simp add: TPDUPushMsgAck_at_def)
  have "wp (\<lambda>_. False) (CTransaction_onPushMsg e p buf) (\<lambda>ok w'. ok \<and> w' = w\<lparr>w_timers := m,
      w_nodes := (w_nodes w)(p \<mapsto> n\<lparr>n_transaction := (n_transaction n)\<lparr>t_mapSeq2Timer := mapDel seq (t_mapSeq2Timer (n_transaction n))\<rparr>\<rparr>)\<rparr>) w"
    using n u m(1) seq(2) h
    by (simp add: CTransaction_onPushMsg_def Let_def wp_simps wp_killTimer_at)
  then show ?thesis using m(2) by (auto simp: wp_total_iff)
qed


section \<open>Examples\<close>

text \<open>The connection of the example run, when its handshake is handled.\<close>

lemma ex_run_waits:
  obtains w0 w n where "ex_start = Inr w0" and "server_reach ex_env w0 w" and "waiting_client w 1 n 0"
    and "freeDeque (timerRes (w_timers w)) \<noteq> []" and "findKey w k = None"
proof (rule ex_run_reaches)
  fix w0 w assume w: "ex_start = Inr w0" "server_reach ex_env w0 w" "ex_status w 1 = Some CONNECTED" "ex_waits w"
  have "sv_inv w" using reach_inv [OF ex_boot w(1) [unfolded ex_start_def] w(2)] by (simp add: sys_inv_def)
  moreover obtain n where "w_nodes w 1 = Some n" using w(4) by (auto simp: ex_waits_def split: option.splits)
  moreover have "length (w_groups w) = 1" "g_context (w_groups w ! 0)" using w(4) by (auto simp: ex_waits_def)
  ultimately show thesis using w that [OF w(1,2), of n]
    by (simp add: ex_waits_def ex_status_def waiting_client_def findKey_def)
qed

lemma ex_hello_at: "TPDUHandShake_at ex_hello =
  \<lparr>hs_header = \<lparr>hd_size = of_nat sizeof_TPDUHandShake, hd_type = MT_ACCOUNT, hd_cmd = MC_HAND_SHAKE,
     hd_ver = 1, hd_lang = 1, hd_seq = 1, hd_stmp = 0, hd_ext = 0\<rparr>,
   hs_build = 7, hs_lastUpdate = 0, hs_sessionId = take Size_SESSION_ID (str ''abc'' @ zeros Size_SESSION_ID)\<rparr>"
  unfolding ex_hello_def using TPDUHandShake_at_bytes [of _ "[]"] by (simp add: zeros_def layout)

lemma ex_hello_valid: "valid_hello ex_env 0 (TPDUHandShake_at ex_hello) w (R_String (str ''42''))"
  by (simp add: valid_hello_def ex_hello_at ex_env_def ex_config_def ex_redis_def session_query_def firstByte_def str_def zeros_def layout)

lemma ex_user: "session_user (R_String (str ''42'')) = 42"
  by (simp add: session_user_def) code_simp

text \<open>A ready session with its keep-alive timer.\<close>

definition ex_timers :: timerManager where
  "ex_timers =
     \<lparr>timerRes = \<lparr>maxNum = 2, unitGroup = [1, 2], freeDeque = [2]\<rparr>,
      timers = [1 \<mapsto> (armed \<lparr>tv_sec = 5, tv_usec = 0\<rparr> 9 1 2 0)\<lparr>tstatus := ADDED\<rparr>, 2 \<mapsto> TTimer_new],
      timerList = 1, lastTimer = 1, queueForAdd = [], queueForDel = [], curTimer = 1\<rparr>"

lemma ex_timers_ok: "tm_inv ex_timers [1]"
  by (auto simp: tm_inv_def ex_timers_def pool_wf_def timer_ok_def armed_def TTimer_new_def split: if_splits)

definition ex_session :: node where
  "ex_session = ex_node\<lparr>n_transaction := CTransaction_new\<lparr>t_status := READY, t_sessionId := 97 # zeros Length_SESSION_ID, t_id := 42,
     t_keepLiveTimerId := 1, t_heartbeat := True\<rparr>\<rparr>"

definition ex_ready :: "nat world" where
  "ex_ready = (ex_world [] [])\<lparr>w_nodes := [1 \<mapsto> ex_session], w_registry := [1], w_timers := ex_timers\<rparr>"

lemma ex_ready_inv: "sv_inv ex_ready"
proof -
  have "tm_ok ex_timers" using ex_timers_ok by (auto simp: tm_ok_def)
  moreover have "issued ex_timers = {1}" by (auto simp: issued_def status_of_def ex_timers_def armed_def TTimer_new_def split: if_splits)
  ultimately show ?thesis
    by (auto simp: sv_inv_def ex_ready_def reg_ok_def ready_def txs_def tx_ok_def ex_session_def CTransaction_new_def
        firstByte_def zeros_def layout split: if_splits)
qed

section \<open>Properties\<close>

text \<open>C17: The handshake.  A waiting client on an open socket sends a handshake with a supported build
  and a session.  If Redis does not know the session, the client is told so and the transaction is
  over; if another connection has the session, likewise; otherwise the client is told
  that it is accepted, the session is registered to it, and its keep-alive timer runs.\<close>

theorem handshake_result:
  assumes wc: "waiting_client w p n g" and v: "valid_hello e g (TPDUHandShake_at buf) w r"
    and fr: "freeDeque (timerRes (w_timers w)) \<noteq> []"
  shows "\<exists>ok w'. CTransaction_onStart e p buf w = Inr (ok, w') \<and>
    (if session_user r = 0 then \<not> ok \<and> refused p n NO_THE_SESSION_FOUND (hs_header (TPDUHandShake_at buf)) w w'
     else if findKey w (cstr (hs_sessionId (TPDUHandShake_at buf))) \<noteq> None
     then \<not> ok \<and> refused p n SAME_SESSION_ID (hs_header (TPDUHandShake_at buf)) w w'
     else ok \<and> accepted p n (TPDUHandShake_at buf) (session_user r) w w')"
  using handshake_outcome [OF wc v fr] .

theorem handshake_result_witness:
  "\<exists>w n w'. waiting_client w 1 n 0 \<and> CTransaction_onStart ex_env 1 ex_hello w = Inr (True, w') \<and>
     accepted 1 n (TPDUHandShake_at ex_hello) 42 w w'"
  by (rule ex_run_waits [of "cstr (hs_sessionId (TPDUHandShake_at ex_hello))"])
    (use handshake_result [OF _ ex_hello_valid] in \<open>fastforce simp: ex_user\<close>)

text \<open>A client that is too old is told so, and its transaction is over; Redis is not asked.\<close>

theorem handshake_old:
  assumes wc: "waiting_client w p n g" and old: "hs_build (TPDUHandShake_at buf) < BASE_BUILD (e_cfg e)"
  shows "\<exists>w'. CTransaction_onStart e p buf w = Inr (False, w') \<and>
    refused p n CLIENT_TOO_OLD (hs_header (TPDUHandShake_at buf)) w w' \<and> w_redis w' = w_redis w"
proof -
  have n: "w_nodes w p = Some n" "w_out w (n_fd n) = []" using wc by (simp_all add: waiting_client_def)
  have "wp (\<lambda>_. False) (CTransaction_onStart e p buf)
    (\<lambda>ok w'. \<not> ok \<and> refused p n CLIENT_TOO_OLD (hs_header (TPDUHandShake_at buf)) w w' \<and> w_redis w' = w_redis w) w"
  proof (rule wp_onStart [OF wc], goal_cases)
    case (1 m)
    let ?w = "w\<lparr>w_timers := m, w_nodes := (w_nodes w)(p \<mapsto> n\<lparr>n_transaction := waiting\<rparr>)\<rparr>"
    have "wp (\<lambda>_. False) (refuse e p (hs_header (TPDUHandShake_at buf)) CLIENT_TOO_OLD)
      (\<lambda>ok w'. \<not> ok \<and> refused p n CLIENT_TOO_OLD (hs_header (TPDUHandShake_at buf)) w w' \<and> w_redis w' = w_redis w) ?w"
    proof (rule wp_refuse_open [where n = "n\<lparr>n_transaction := waiting\<rparr>"], goal_cases)
      case (5 m' k wi)
      then show ?case by (simp add: refused_def acked_def after_stop_def waiting_def)
    qed (use sv_inv_waiting [OF wc 1(1,2)] n in \<open>simp_all add: stopReasons_def\<close>)
    then show ?case using old by simp
  qed
  then show ?thesis by (auto simp: wp_total_iff)
qed

theorem handshake_old_witness:
  "\<exists>w n w'. waiting_client w 1 n 0 \<and>
     CTransaction_onStart (ex_env\<lparr>e_cfg := ex_config\<lparr>BASE_BUILD := 9\<rparr>\<rparr>) 1 ex_hello w = Inr (False, w') \<and>
     refused 1 n CLIENT_TOO_OLD (hs_header (TPDUHandShake_at ex_hello)) w w'"
  by (rule ex_run_waits)
    (use handshake_old [of _ 1 _ 0 ex_hello "ex_env\<lparr>e_cfg := ex_config\<lparr>BASE_BUILD := 9\<rparr>\<rparr>"] in \<open>fastforce simp: ex_hello_at\<close>)

text \<open>C22: The keep-alive timer.  When the timer of a connection expires, a client that has
  not shaken hands, and a session whose last heartbeat was not answered, are ended: the session is
  unregistered, its timers are killed, its fields are cleared and false is returned.  A session that did answer is
  sent another heartbeat and has until the next expiry to answer it.\<close>

theorem keep_alive:
  assumes inv: "sv_inv w" and n: "w_nodes w p = Some n" and o: "w_out w (n_fd n) = []" and k: "keepLiveMsg w p buf"
    and st: "t_status (n_transaction n) \<in> {CONNECTED, READY}"
  shows "\<exists>ok w'. CTransaction_onTimer e p buf w = Inr (ok, w') \<and>
     (ok \<longleftrightarrow> t_status (n_transaction n) = READY \<and> t_heartbeat (n_transaction n)) \<and>
     (if ok then heartbeat_sent e p n w w' else session_ended p n w w')"
proof -
  let ?live = "t_status (n_transaction n) = READY \<and> t_heartbeat (n_transaction n)"
  let ?Q = "\<lambda>ok w'. (?live \<longrightarrow> ok \<and> heartbeat_sent e p n w w') \<and> (\<not> ?live \<longrightarrow> \<not> ok \<and> session_ended p n w w')"
  have m: "ot_timerId (TPDUOnTimer_at buf) = t_keepLiveTimerId (n_transaction n)"
    "ot_parameter (TPDUOnTimer_at buf) = status_code (t_status (n_transaction n))"
    using k n by (auto simp: keepLiveMsg_def)
  have c: "ucast (ucast (status_code x :: ub8_) :: b4_) = (status_code x :: ub8_)" for x
    by (cases x) (simp_all add: status_code_def)
  have "wp (\<lambda>_. False) (CTransaction_onTimer e p buf) ?Q w"
  proof (cases ?live)
    case True
    then have "wp (\<lambda>_. False) (thenM (CTransaction_send e p (TPDUHeartBeat_bytes (heartBeatMsg e)) False)
        (thenM (updTx p (\<lambda>t. t\<lparr>t_heartbeat := False\<rparr>)) (retM True))) ?Q w"
      by (intro wp_beat [OF n o]) simp
    then show ?thesis using n m c True by (simp add: CTransaction_onTimer_def Let_def wp_bindM wp_getTx)
  next
    case False
    then have "wp (\<lambda>_. False) (CTransaction_over e p TIME_OUT False) ?Q w"
      by (intro wp_over_ends [OF inv n]) (simp_all add: stopReasons_def)
    then show ?thesis using n m c False st by (auto simp: CTransaction_onTimer_def Let_def wp_bindM wp_getTx)
  qed
  then obtain ok w' where "CTransaction_onTimer e p buf w = Inr (ok, w')" "?Q ok w'" unfolding wp_total_iff by blast
  then show ?thesis by (intro exI [of _ ok] exI [of _ w']) auto
qed

theorem keep_alive_witness:
  "\<exists>w'. CTransaction_onTimer ex_env 1 (TPDUOnTimer_bytes (timerMsg ex_env 0 1 1 (status_code READY))) ex_ready = Inr (True, w') \<and>
     heartbeat_sent ex_env 1 ex_session ex_ready w'"
proof -
  have n: "w_nodes ex_ready 1 = Some ex_session" "t_status (n_transaction ex_session) = READY" "t_heartbeat (n_transaction ex_session)"
    "t_keepLiveTimerId (n_transaction ex_session) = 1" "w_out ex_ready (n_fd ex_session) = []"
    by (simp_all add: ex_ready_def ex_session_def ex_world_def ex_outside_def)
  have "keepLiveMsg ex_ready 1 (TPDUOnTimer_bytes (timerMsg ex_env 0 1 1 (status_code READY)))"
    using TPDUOnTimer_at_bytes [of _ "[]"] n by (simp add: keepLiveMsg_def timerMsg_def)
  from keep_alive [OF ex_ready_inv n(1,5) this, of ex_env] n(2,3) show ?thesis by fastforce
qed

text \<open>A pushed message and its acknowledgement.  For a ready session on an open socket, with a
  free timer, a stored message is sent under the next sequence number, which is never zero, with
  exactly the stored origin, id and text, and a timer is set for its acknowledgement; when the
  acknowledgement with that number comes, the timer is killed and nothing remains to be waited for.\<close>

theorem push_acknowledged:
  assumes inv: "sv_inv w" and n: "w_nodes w p = Some n" "t_status (n_transaction n) = READY" "w_out w (n_fd n) = []"
    and free: "freeDeque (timerRes (w_timers w)) \<noteq> []" and len: "unat len \<le> Length_JSON"
    and ack: "hd_seq (THeader_at buf) = nextSeq (t_seqCounter (n_transaction n))"
  shows "\<exists>msg u w1 w2.
     CTransaction_handlePushMessage e p ornType ornId ornExtId messageId json len stmp w = Inr (True, w1) \<and>
     pushed p n msg stmp u w w1 \<and>
     pm_ornType msg = ornType \<and> pm_ornId msg = ornId \<and> pm_ornExtId msg = ornExtId \<and>
     pm_messageId msg = messageId \<and> pm_json msg = strncpy (zeros Size_JSON) json Length_JSON \<and>
     hd_seq (pm_header msg) \<noteq> 0 \<and>
     CTransaction_onPushMsg e p buf w1 = Inr (True, w2) \<and> pending (w_timers w2) = pending (w_timers w) \<and>
     map_option (t_mapSeq2Timer \<circ> n_transaction) (w_nodes w2 p) =
       Some (mapDel (hd_seq (pm_header msg)) (t_mapSeq2Timer (n_transaction n)))"
proof -
  let ?seq = "nextSeq (t_seqCounter (n_transaction n))"
  obtain msg u w1 where p1: "CTransaction_handlePushMessage e p ornType ornId ornExtId messageId json len stmp w = Inr (True, w1)"
      "pushed p n msg stmp u w w1" "tm_ok (w_timers w1)" "u \<in> issued (w_timers w1)"
      and msg: "pm_ornType msg = ornType" "pm_ornId msg = ornId" "pm_ornExtId msg = ornExtId"
        "pm_messageId msg = messageId" "pm_json msg = strncpy (zeros Size_JSON) json Length_JSON"
    using push_message [OF inv n(1,3) free len, of e ornType ornId ornExtId messageId json stmp] by blast
  let ?t = "(n_transaction n)\<lparr>t_seqCounter := ?seq, t_mapSeq2Timer := mapPut ?seq u (t_mapSeq2Timer (n_transaction n)), t_lastUpdate := stmp\<rparr>"
  have n1: "w_nodes w1 p = Some (n\<lparr>n_transaction := ?t\<rparr>)" and pn: "pending (w_timers w1) = insert u (pending (w_timers w))"
    "u \<notin> pending (w_timers w)" and sq: "hd_seq (pm_header msg) = ?seq" using p1(2) by (simp_all add: pushed_def Let_def)
  let ?w2 = "\<lambda>m. w1\<lparr>w_timers := m, w_nodes := (w_nodes w1)(p \<mapsto>
      n\<lparr>n_transaction := ?t\<lparr>t_mapSeq2Timer := mapDel ?seq (t_mapSeq2Timer ?t)\<rparr>\<rparr>)\<rparr>"
  obtain m where m: "CTransaction_onPushMsg e p buf w1 = Inr (True, ?w2 m)" "pending m = pending (w_timers w1) - {u}"
    using push_ack [OF n1 _ p1(3,4) ack [symmetric] nextSeq_nonzero, of e] n(2) by (auto simp: mapPut_found)
  show ?thesis
    by (intro exI [of _ msg] exI [of _ u] exI [of _ w1] exI [of _ "?w2 m"])
      (use p1 msg m pn sq in \<open>simp add: nextSeq_nonzero mapDel_put\<close>)
qed

theorem push_acknowledged_witness:
  "\<exists>msg u w1 w2.
     CTransaction_handlePushMessage ex_env 1 1 5 6 7 (str ''hi'') 2 900 ex_ready = Inr (True, w1) \<and>
     pushed 1 ex_session msg 900 u ex_ready w1 \<and> pm_messageId msg = 7 \<and>
     CTransaction_onPushMsg ex_env 1 (TPDUPushMsgAck_bytes \<lparr>pma_header = (THeader_at (ex_ping 1))\<lparr>hd_seq := 1\<rparr>, pma_code = 0\<rparr>) w1 = Inr (True, w2) \<and>
     pending (w_timers w2) = pending (w_timers ex_ready)"
proof -
  have n: "w_nodes ex_ready 1 = Some ex_session" "t_status (n_transaction ex_session) = READY" "w_out ex_ready (n_fd ex_session) = []"
    "freeDeque (timerRes (w_timers ex_ready)) \<noteq> []" "t_seqCounter (n_transaction ex_session) = 0"
    by (simp_all add: ex_ready_def ex_session_def ex_world_def ex_outside_def CTransaction_new_def ex_timers_def)
  have "hd_seq (THeader_at (TPDUPushMsgAck_bytes \<lparr>pma_header = (THeader_at (ex_ping 1))\<lparr>hd_seq := 1\<rparr>, pma_code = 0\<rparr>)) =
      nextSeq (t_seqCounter (n_transaction ex_session))"
    by (simp add: n(5) nextSeq_def TPDUPushMsgAck_bytes_def THeader_at_bytes)
  from push_acknowledged [OF ex_ready_inv n(1-4) _ this, of 2 ex_env 1 5 6 7 "str ''hi''" 900]
  show ?thesis by (auto simp: layout)
qed



end
