(* ===== verification/Config_Load.thy ===== *)
theory Config_Load
  imports Conf_Reader Session
begin

text \<open>
  The start of the configuration, src/src/config/Config.cpp, with the defaults of
  DefaultConfig.h: every global is read from the file or set to its default.  \<open>config_of\<close> says what a document
  means; \<open>initialize\<close> computes it.
\<close>

section \<open>Sizes\<close>

definition Length_NAME :: nat where "Length_NAME = 32"
definition Length_PASSWORD :: nat where "Length_PASSWORD = 32"
definition Length_URL :: nat where "Length_URL = 256"
definition Length_PATH :: nat where "Length_PATH = 256"
definition Size_NAME :: nat where "Size_NAME = Length_NAME + 1"
definition Size_PASSWORD :: nat where "Size_PASSWORD = Length_PASSWORD + 1"
definition Size_URL :: nat where "Size_URL = Length_URL + 1"
definition Size_PATH :: nat where "Size_PATH = Length_PATH + 1"

lemmas conf_sizes = Length_NAME_def Length_PASSWORD_def Length_URL_def Length_PATH_def
  Size_NAME_def Size_PASSWORD_def Size_URL_def Size_PATH_def Size_IP_V4_def Length_IP_V4_def

text \<open>A string literal, with its terminator.\<close>

definition lit :: "string \<Rightarrow> ub1_ list" where
  "lit s = str s @ [0]"

section \<open>Defaults\<close>

definition Default_CONF_FILE :: "ub1_ list" where "Default_CONF_FILE = lit ''gMaxLinked.conf''"
definition Default_RUN_AS_DAEMON :: ub4_ where "Default_RUN_AS_DAEMON = 0"
definition Default_NAME :: "ub1_ list" where "Default_NAME = lit ''gMaxLinked''"
definition Default_BASE_BUILD :: ub4_ where "Default_BASE_BUILD = 0"
definition Default_PROTOCOL_VERSION :: ub2_ where "Default_PROTOCOL_VERSION = 0x0100"
definition Default_LISTEN_IP :: "ub1_ list" where "Default_LISTEN_IP = lit ''0.0.0.0''"
definition Default_LISTEN_PORT :: ub2_ where "Default_LISTEN_PORT = 10505"
definition Default_EPOLL_WAIT_EVENT_NUM :: ub4_ where "Default_EPOLL_WAIT_EVENT_NUM = 16"
definition Default_NODE_GROUP_NUM :: ub4_ where "Default_NODE_GROUP_NUM = 4"
definition Default_NODE_GROUP_SIZE :: ub4_ where "Default_NODE_GROUP_SIZE = 16"
definition Default_THREAD_STACK_SIZE :: ub4_ where "Default_THREAD_STACK_SIZE = 4096"
definition Default_HEARTBEAT_INTERVAL :: ub4_ where "Default_HEARTBEAT_INTERVAL = 10"
definition Default_VALID_DURATION :: ub8_ where "Default_VALID_DURATION = 24 * 60 * 60 * 1000000"
definition Default_VALID_NUMBER :: ub1_ where "Default_VALID_NUMBER = 8"
definition Default_HOST :: "ub1_ list" where "Default_HOST = lit ''localhost''"
definition Default_PORT :: ub2_ where "Default_PORT = 6379"
definition Default_TIMEOUT :: ub4_ where "Default_TIMEOUT = 1"
definition Default_AUTH :: "ub1_ list" where "Default_AUTH = lit ''123456''"
definition Default_DB :: ub1_ where "Default_DB = 0"

section \<open>Loading\<close>

text \<open>A value that is read, or its default when it cannot be read or is zero.\<close>

definition intOr :: "confReader \<Rightarrow> string \<Rightarrow> string \<Rightarrow> ub4_ \<Rightarrow> ub4_ \<Rightarrow> ub4_ result" where
  "intOr conf s key old d =
     bindR (CConfReader_readInt conf (lit s) (lit key) old) (\<lambda>(ret, v). Inr (if ret \<noteq> 0 \<or> v = 0 then d else v))"

definition shortOr :: "confReader \<Rightarrow> string \<Rightarrow> string \<Rightarrow> ub2_ \<Rightarrow> ub2_ \<Rightarrow> ub2_ result" where
  "shortOr conf s key old d =
     bindR (CConfReader_readShort conf (lit s) (lit key) old) (\<lambda>(ret, v). Inr (if ret \<noteq> 0 \<or> v = 0 then d else v))"

definition stringOr :: "confReader \<Rightarrow> string \<Rightarrow> string \<Rightarrow> ub1_ list \<Rightarrow> nat \<Rightarrow> ub1_ list \<Rightarrow> ub1_ list result" where
  "stringOr conf s key old sz d =
     bindR (CConfReader_readString conf (lit s) (lit key) old (of_nat sz)) (\<lambda>(ret, v).
       Inr (if ret \<noteq> 0 \<or> firstByte v = 0 then strncpy v d sz else v))"

definition initializeApp :: "confReader \<Rightarrow> config \<Rightarrow> config result" where
  "initializeApp conf c =
     bindR (intOr conf ''app'' ''run_as_daemon'' (RUN_AS_DAEMON c) Default_RUN_AS_DAEMON) (\<lambda>daemon.
     bindR (stringOr conf ''app'' ''name'' (NAME c) Size_NAME Default_NAME) (\<lambda>name.
     bindR (intOr conf ''app'' ''base_build'' (BASE_BUILD c) Default_BASE_BUILD) (\<lambda>build.
     bindR (shortOr conf ''app'' ''protocol_version'' (PROTOCOL_VERSION c) Default_PROTOCOL_VERSION) (\<lambda>version.
     bindR (stringOr conf ''app'' ''listen_ip'' (LISTEN_IP c) Size_IP_V4 Default_LISTEN_IP) (\<lambda>ip.
     bindR (shortOr conf ''app'' ''listen_port'' (LISTEN_PORT c) Default_LISTEN_PORT) (\<lambda>port.
     bindR (intOr conf ''app'' ''epoll_wait_event_number'' (EPOLL_WAIT_EVENT_NUM c) Default_EPOLL_WAIT_EVENT_NUM) (\<lambda>events.
     bindR (intOr conf ''app'' ''node_group_num'' (NODE_GROUP_NUM c) Default_NODE_GROUP_NUM) (\<lambda>groups.
     bindR (intOr conf ''app'' ''node_group_size'' (NODE_GROUP_SIZE c) Default_NODE_GROUP_SIZE) (\<lambda>gsize.
     bindR (intOr conf ''app'' ''message_max_num_in_queue'' (MESSAGE_MAX_NUM_IN_QUEUE c) (gsize * 8)) (\<lambda>messages.
     bindR (intOr conf ''app'' ''thread_stack_size'' (THREAD_STACK_SIZE c) Default_THREAD_STACK_SIZE) (\<lambda>stack.
     bindR (intOr conf ''app'' ''heartbeat_interval'' (HEARTBEAT_INTERVAL c) Default_HEARTBEAT_INTERVAL) (\<lambda>heartbeat.
       Inr (c\<lparr>RUN_AS_DAEMON := daemon, NAME := name, BASE_BUILD := build, PROTOCOL_VERSION := version,
              LISTEN_IP := ip, LISTEN_PORT := port, EPOLL_WAIT_EVENT_NUM := events,
              NODE_GROUP_NUM := groups, NODE_GROUP_SIZE := gsize, TOTAL_SUPPORT_USER_NUM := groups * gsize,
              TOTAL_THREAD_NUM := groups + 4, MESSAGE_MAX_NUM_IN_QUEUE := messages,
              THREAD_STACK_SIZE := stack, HEARTBEAT_INTERVAL := heartbeat\<rparr>)))))))))))))"

text \<open>The product with the configured hours is computed in 32 bits, the one with the default in 64.\<close>

definition initializeMsg :: "confReader \<Rightarrow> ub4_ \<Rightarrow> config \<Rightarrow> config result" where
  "initializeMsg conf junk c =
     bindR (CConfReader_readInt conf (lit ''msg'') (lit ''valid_duration'') junk) (\<lambda>(ret, d).
     bindR (CConfReader_readByte conf (lit ''msg'') (lit ''valid_number'') (VALID_NUMBER c)) (\<lambda>(ret1, k).
       Inr (c\<lparr>VALID_DURATION := (if ret \<noteq> 0 \<or> d = 0 then Default_VALID_DURATION * 60 * 60 * 1000000
                                  else ucast (d * 60 * 60 * 1000000)),
              VALID_NUMBER := (if ret1 \<noteq> 0 \<or> k = 0 then Default_VALID_NUMBER else k)\<rparr>)))"

definition initializeRedis :: "confReader \<Rightarrow> config \<Rightarrow> config result" where
  "initializeRedis conf c =
     bindR (stringOr conf ''redis'' ''host'' (REDIS_HOST c) Size_URL Default_HOST) (\<lambda>host.
     bindR (shortOr conf ''redis'' ''port'' (REDIS_PORT c) Default_PORT) (\<lambda>port.
     bindR (intOr conf ''redis'' ''timeout'' (REDIS_TIMEOUT c) Default_TIMEOUT) (\<lambda>timeout.
     bindR (stringOr conf ''redis'' ''auth'' (REDIS_AUTH c) Size_PASSWORD Default_AUTH) (\<lambda>auth.
     bindR (CConfReader_readByte conf (lit ''redis'') (lit ''db'') (REDIS_DB c)) (\<lambda>(ret, db).
       Inr (c\<lparr>REDIS_HOST := host, REDIS_PORT := port, REDIS_TIMEOUT := timeout, REDIS_AUTH := auth,
              REDIS_DB := (if ret \<noteq> 0 then Default_DB else db)\<rparr>))))))"

text \<open>
  \<open>initialize\<close>: the name is empty for a null pointer; \<open>fs\<close> is the file system, \<open>mem\<close> the
  memory of the reader's buffer, \<open>junk\<close> the uninitialised local of \<open>initializeMsg\<close>.  \<open>confFile\<close> is the
  array \<open>CONF_FILE\<close>.
\<close>

definition confFileOf :: "ub1_ list \<Rightarrow> ub1_ list" where
  "confFileOf name =
     (if 0 < length (cstr name) \<and> length (cstr name) < Size_PATH
      then strncpy (zeros Size_PATH) name Size_PATH
      else strncpy (zeros Size_PATH) Default_CONF_FILE Size_PATH)"

definition initialize ::
  "(ub1_ list \<Rightarrow> ub1_ list option) \<Rightarrow> ub1_ list \<Rightarrow> ub4_ \<Rightarrow> ub1_ list \<Rightarrow> config \<Rightarrow> config result" where
  "initialize fs mem junk name c =
     bindR (CConfReader_new fs mem (confFileOf name)) (\<lambda>conf.
     bindR (initializeApp conf c) (\<lambda>c1.
     bindR (initializeMsg conf junk c1) (\<lambda>c2.
       initializeRedis conf c2)))"

text \<open>The globals before they are set.\<close>

definition config0 :: config where
  "config0 =
     \<lparr>RUN_AS_DAEMON = 0, NAME = zeros Size_NAME, BASE_BUILD = 0, PROTOCOL_VERSION = 0, LISTEN_IP = zeros Size_IP_V4,
      LISTEN_PORT = 0, EPOLL_WAIT_EVENT_NUM = 0, NODE_GROUP_NUM = 0, NODE_GROUP_SIZE = 0, TOTAL_SUPPORT_USER_NUM = 0,
      TOTAL_THREAD_NUM = 0, MESSAGE_MAX_NUM_IN_QUEUE = 0, THREAD_STACK_SIZE = 0, HEARTBEAT_INTERVAL = 0,
      VALID_DURATION = 0, VALID_NUMBER = 0, REDIS_HOST = zeros Size_URL, REDIS_PORT = 0, REDIS_TIMEOUT = 0,
      REDIS_AUTH = zeros Size_PASSWORD, REDIS_DB = 0\<rparr>"

section \<open>What a document means\<close>

text \<open>The number and the string that a document gives for a key.\<close>

definition docNumber :: "confDoc \<Rightarrow> string \<Rightarrow> string \<Rightarrow> b4_" where
  "docNumber doc s key = (case lookupDoc doc (str s) (str key) of None \<Rightarrow> 0 | Some v \<Rightarrow> atoi (take 31 v))"

definition orDefault :: "'a::len word \<Rightarrow> 'a word \<Rightarrow> 'a word" where
  "orDefault v d = (if v = 0 then d else v)"

definition docString :: "confDoc \<Rightarrow> string \<Rightarrow> string \<Rightarrow> nat \<Rightarrow> ub1_ list \<Rightarrow> ub1_ list" where
  "docString doc s key sz d =
     (case lookupDoc doc (str s) (str key) of
        None \<Rightarrow> strncpy (zeros sz) d sz
      | Some v \<Rightarrow> if v = [] then strncpy (zeros sz) d sz else take (sz - 1) v @ zeros (sz - min (sz - 1) (length v)))"

definition config_of :: "confDoc \<Rightarrow> config" where
  "config_of doc =
     (let groups = orDefault (docNumber doc ''app'' ''node_group_num'') 4;
          gsize = orDefault (docNumber doc ''app'' ''node_group_size'') 16;
          hours = docNumber doc ''msg'' ''valid_duration'' in
      \<lparr>RUN_AS_DAEMON = docNumber doc ''app'' ''run_as_daemon'',
       NAME = docString doc ''app'' ''name'' Size_NAME (str ''gMaxLinked''),
       BASE_BUILD = docNumber doc ''app'' ''base_build'',
       PROTOCOL_VERSION = orDefault (ucast (docNumber doc ''app'' ''protocol_version'')) 0x100,
       LISTEN_IP = docString doc ''app'' ''listen_ip'' Size_IP_V4 (str ''0.0.0.0''),
       LISTEN_PORT = orDefault (ucast (docNumber doc ''app'' ''listen_port'')) 10505,
       EPOLL_WAIT_EVENT_NUM = orDefault (docNumber doc ''app'' ''epoll_wait_event_number'') 16,
       NODE_GROUP_NUM = groups, NODE_GROUP_SIZE = gsize, TOTAL_SUPPORT_USER_NUM = groups * gsize,
       TOTAL_THREAD_NUM = groups + 4,
       MESSAGE_MAX_NUM_IN_QUEUE = orDefault (docNumber doc ''app'' ''message_max_num_in_queue'') (gsize * 8),
       THREAD_STACK_SIZE = orDefault (docNumber doc ''app'' ''thread_stack_size'') 4096,
       HEARTBEAT_INTERVAL = orDefault (docNumber doc ''app'' ''heartbeat_interval'') 10,
       VALID_DURATION = (if hours = 0 then 24 * 60 * 60 * 1000000 * 60 * 60 * 1000000 else ucast (hours * 3600000000)),
       VALID_NUMBER = orDefault (ucast (docNumber doc ''msg'' ''valid_number'')) 8,
       REDIS_HOST = docString doc ''redis'' ''host'' Size_URL (str ''localhost''),
       REDIS_PORT = orDefault (ucast (docNumber doc ''redis'' ''port'')) 6379,
       REDIS_TIMEOUT = orDefault (docNumber doc ''redis'' ''timeout'') 1,
       REDIS_AUTH = docString doc ''redis'' ''auth'' Size_PASSWORD (str ''123456''),
       REDIS_DB = ucast (docNumber doc ''redis'' ''db'')\<rparr>)"

definition confKeys :: "(string \<times> string) list" where
  "confKeys =
     [(''app'', ''run_as_daemon''), (''app'', ''name''), (''app'', ''base_build''), (''app'', ''protocol_version''),
      (''app'', ''listen_ip''), (''app'', ''listen_port''), (''app'', ''epoll_wait_event_number''),
      (''app'', ''node_group_num''), (''app'', ''node_group_size''), (''app'', ''message_max_num_in_queue''),
      (''app'', ''thread_stack_size''), (''app'', ''heartbeat_interval''), (''msg'', ''valid_duration''),
      (''msg'', ''valid_number''), (''redis'', ''host''), (''redis'', ''port''), (''redis'', ''timeout''),
      (''redis'', ''auth''), (''redis'', ''db'')]"

text \<open>
  A reader that holds a document.  What follows the end of the file in the buffer is not
  initialised: for a key that is missing, it matters that there are two zero bytes.
\<close>

definition holds_doc :: "confReader \<Rightarrow> confDoc \<Rightarrow> bool" where
  "holds_doc conf doc \<longleftrightarrow>
     doc_ok doc \<and> c_bufferSize conf \<noteq> 0 \<and> length (c_buffer conf) < 2 ^ 31 \<and>
     (\<exists>rest. c_buffer conf = docBytes doc @ 255 # rest \<and>
        ((\<forall>(s, key) \<in> set confKeys. lookupDoc doc (str s) (str key) \<noteq> None) \<or> take 2 rest = [0, 0]))"

lemma firstByte_str: "s \<noteq> [] \<Longrightarrow> firstByte (str s) \<noteq> 0 \<longleftrightarrow> of_char (hd s) \<noteq> (0 :: ub1_)"
  by (cases s) (simp_all add: firstByte_def str_def)

definition named :: "string \<Rightarrow> bool" where
  "named s \<longleftrightarrow> firstByte (str s) \<noteq> 0"

lemma confKeys_named: "(s, key) \<in> set confKeys \<Longrightarrow> named s \<and> named key"
proof -
  have "list_all (\<lambda>(s, key). named s \<and> named key) confKeys" by code_simp
  then show "(s, key) \<in> set confKeys \<Longrightarrow> named s \<and> named key" by (auto simp: list_all_iff)
qed

lemma holds_readString:
  assumes h: "holds_doc conf doc" and k: "(s, key) \<in> set confKeys" and sz: "sz \<noteq> 0" "unat sz \<le> length val"
  shows "CConfReader_readString conf (lit s) (lit key) val sz =
    Inr (case lookupDoc doc (str s) (str key) of
       None \<Rightarrow> (3, val)
     | Some v \<Rightarrow> (0, take (unat sz - 1) v @ 0 # drop (Suc (min (unat sz - 1) (length v))) val))"
proof -
  have nk: "firstByte (str s) \<noteq> 0" "firstByte (str key) \<noteq> 0" using confKeys_named [OF k] by (simp_all add: named_def)
  obtain rest where r: "c_buffer conf = docBytes doc @ 255 # rest" "lookupDoc doc (str s) (str key) \<noteq> None \<or> take 2 rest = [0, 0]"
    using h k by (fastforce simp: holds_doc_def)
  have hd: "doc_ok doc" "c_bufferSize conf \<noteq> 0" "length (c_buffer conf) < 2 ^ 31" using h by (simp_all add: holds_doc_def)
  show ?thesis
  proof (cases "lookupDoc doc (str s) (str key)")
    case None
    then have "rest = 0 # 0 # drop 2 rest" using r(2) append_take_drop_id [of 2 rest] by simp
    moreover have "val \<noteq> []" using sz by (auto simp: word_eq_unat)
    ultimately show ?thesis using readString_absent [OF hd(1) None _ nk hd(2) sz(1)] None r(1) unfolding lit_def by auto
  next
    case (Some v)
    then show ?thesis using readString_found [OF hd(1) Some r(1) hd(3) nk hd(2) sz] unfolding lit_def by simp
  qed
qed

lemma firstByte_Cons: "firstByte (c # cs) = c"
  by (simp add: firstByte_def)

lemma cstr_stops: "cstr (xs @ 0 # ys) = cstr xs"
  by (induction xs) (auto simp: cstr_def)

lemma holds_number:
  assumes h: "holds_doc conf doc" and k: "(s, key) \<in> set confKeys"
  shows "\<exists>ret val. CConfReader_readString conf (lit s) (lit key) (zeros 32) 32 = Inr (ret, val) \<and>
    docNumber doc s key = (if ret \<noteq> 0 then 0 else atoi val)"
proof -
  have u: "(32 :: ub4_) \<noteq> 0" "unat (32 :: ub4_) = 32" by simp_all
  have rs: "CConfReader_readString conf (lit s) (lit key) (zeros 32) 32 =
    Inr (case lookupDoc doc (str s) (str key) of None \<Rightarrow> (3, zeros 32)
      | Some v \<Rightarrow> (0, take 31 v @ 0 # drop (Suc (min 31 (length v))) (zeros 32)))"
    using holds_readString [OF h k u(1), of "zeros 32"] by (simp add: u(2) cong: option.case_cong)
  show ?thesis
  proof (cases "lookupDoc doc (str s) (str key)")
    case None
    then show ?thesis unfolding rs docNumber_def by simp
  next
    case (Some v)
    then show ?thesis unfolding rs docNumber_def atoi_def by (simp add: cstr_stops)
  qed
qed

lemma holds_int: "holds_doc conf doc \<Longrightarrow> (s, key) \<in> set confKeys \<Longrightarrow> intOr conf s key old d = Inr (orDefault (docNumber doc s key) d)"
  using holds_number [of conf doc s key] by (auto simp: intOr_def CConfReader_readInt_def orDefault_def)

lemma holds_short: "holds_doc conf doc \<Longrightarrow> (s, key) \<in> set confKeys \<Longrightarrow> shortOr conf s key old d = Inr (orDefault (ucast (docNumber doc s key)) d)"
  using holds_number [of conf doc s key] by (auto simp: shortOr_def CConfReader_readShort_def orDefault_def)

lemma lookupLines_plain: "list_all line_ok ls \<Longrightarrow> lookupLines ls q = Some v \<Longrightarrow> list_all plain v"
  by (induction ls q rule: lookupLines.induct) (auto split: if_splits)

lemma lookupDoc_plain: "doc_ok doc \<Longrightarrow> lookupDoc doc s q = Some v \<Longrightarrow> list_all plain v"
  by (induction doc s q rule: lookupDoc.induct)
    (auto simp: doc_ok_def split: if_splits option.splits dest: lookupLines_plain)

lemma holds_string:
  assumes h: "holds_doc conf doc" and k: "(s, key) \<in> set confKeys" and sz: "1 < sz" "sz < 2 ^ 32"
  shows "stringOr conf s key (zeros sz) sz d = Inr (docString doc s key sz d)"
proof -
  have u: "unat (of_nat sz :: ub4_) = sz" using sz by (simp add: unat_of_nat_lt)
  then have nz: "(of_nat sz :: ub4_) \<noteq> 0" using sz by (metis not_less_zero unat_0)
  note rs = holds_readString [OF h k nz, of "zeros sz", unfolded u]
  show ?thesis
  proof (cases "lookupDoc doc (str s) (str key)")
    case (Some v)
    have z: "0 # drop (Suc m) (zeros sz) = zeros (sz - m)" if "m < sz" for m
      using that by (simp add: zeros_def Cons_replicate_eq)
    have "plain (hd v)" if "v \<noteq> []" using lookupDoc_plain [OF _ Some] h that by (cases v) (auto simp: holds_doc_def)
    then have "firstByte (take (sz - 1) v @ zeros (sz - min (sz - 1) (length v))) = 0 \<longleftrightarrow> v = []"
      using sz by (cases v; cases "sz - 1") (simp_all add: firstByte_Cons plain_def)
    then show ?thesis using rs Some sz z [of "min (sz - 1) (length v)"]
      by (auto simp: stringOr_def docString_def)
  qed (use rs in \<open>simp add: stringOr_def docString_def\<close>)
qed

lemma holds_byte:
  assumes h: "holds_doc conf doc" and k: "(s, key) \<in> set confKeys"
  shows "\<exists>ret v. CConfReader_readByte conf (lit s) (lit key) old = Inr (ret, v) \<and>
    (if ret \<noteq> 0 then 0 else v) = ucast (docNumber doc s key)"
  using holds_number [OF h k] by (auto simp: CConfReader_readByte_def)

lemma initializeApp_doc:
  assumes h: "holds_doc conf doc"
  shows "initializeApp conf config0 = Inr (config0\<lparr>
     RUN_AS_DAEMON := RUN_AS_DAEMON (config_of doc), NAME := NAME (config_of doc), BASE_BUILD := BASE_BUILD (config_of doc),
     PROTOCOL_VERSION := PROTOCOL_VERSION (config_of doc), LISTEN_IP := LISTEN_IP (config_of doc),
     LISTEN_PORT := LISTEN_PORT (config_of doc), EPOLL_WAIT_EVENT_NUM := EPOLL_WAIT_EVENT_NUM (config_of doc),
     NODE_GROUP_NUM := NODE_GROUP_NUM (config_of doc), NODE_GROUP_SIZE := NODE_GROUP_SIZE (config_of doc),
     TOTAL_SUPPORT_USER_NUM := TOTAL_SUPPORT_USER_NUM (config_of doc), TOTAL_THREAD_NUM := TOTAL_THREAD_NUM (config_of doc),
     MESSAGE_MAX_NUM_IN_QUEUE := MESSAGE_MAX_NUM_IN_QUEUE (config_of doc),
     THREAD_STACK_SIZE := THREAD_STACK_SIZE (config_of doc), HEARTBEAT_INTERVAL := HEARTBEAT_INTERVAL (config_of doc)\<rparr>)"
proof -
  note [simp] = holds_int [OF h] holds_short [OF h] holds_string [OF h]
  have "orDefault x 0 = x" for x :: ub4_ by (simp add: orDefault_def)
  moreover have "docString doc s k n Default_NAME = docString doc s k n (str ''gMaxLinked'')"
    "docString doc s k n Default_LISTEN_IP = docString doc s k n (str ''0.0.0.0'')" for s k n
    by (simp_all add: docString_def strncpy_def Default_NAME_def Default_LISTEN_IP_def lit_def cstr_stops split: option.splits)
  moreover have "NAME config0 = zeros Size_NAME" "LISTEN_IP config0 = zeros Size_IP_V4" by (simp_all add: config0_def)
  ultimately show ?thesis
    by (simp add: initializeApp_def config_of_def Let_def confKeys_def conf_sizes
        Default_RUN_AS_DAEMON_def Default_BASE_BUILD_def Default_PROTOCOL_VERSION_def Default_LISTEN_PORT_def
        Default_EPOLL_WAIT_EVENT_NUM_def Default_NODE_GROUP_NUM_def Default_NODE_GROUP_SIZE_def
        Default_THREAD_STACK_SIZE_def Default_HEARTBEAT_INTERVAL_def)
qed

lemma initializeMsg_doc:
  assumes h: "holds_doc conf doc"
  shows "initializeMsg conf junk c =
    Inr (c\<lparr>VALID_DURATION := VALID_DURATION (config_of doc), VALID_NUMBER := VALID_NUMBER (config_of doc)\<rparr>)"
proof -
  obtain ret v where n: "CConfReader_readByte conf (lit ''msg'') (lit ''valid_number'') (VALID_NUMBER c) = Inr (ret, v)"
      "(if ret \<noteq> 0 then 0 else v) = ucast (docNumber doc ''msg'' ''valid_number'')"
    using holds_byte [OF h, of "''msg''" "''valid_number''" "VALID_NUMBER c"] by (auto simp: confKeys_def)
  obtain ret1 val where d: "CConfReader_readString conf (lit ''msg'') (lit ''valid_duration'') (zeros 32) 32 = Inr (ret1, val)"
      "docNumber doc ''msg'' ''valid_duration'' = (if ret1 \<noteq> 0 then 0 else atoi val)"
    using holds_number [OF h, of "''msg''" "''valid_duration''"] by (auto simp: confKeys_def)
  have "VALID_NUMBER (config_of doc) = (if ret \<noteq> 0 \<or> v = 0 then Default_VALID_NUMBER else v)"
    using n(2) by (auto simp: config_of_def Let_def orDefault_def Default_VALID_NUMBER_def split: if_splits)
  moreover have "VALID_DURATION (config_of doc) = (if ret1 \<noteq> 0 \<or> atoi val = 0 then Default_VALID_DURATION * 60 * 60 * 1000000
      else ucast (atoi val * 60 * 60 * 1000000))"
    using d(2) by (auto simp: config_of_def Let_def Default_VALID_DURATION_def mult.assoc)
  ultimately show ?thesis using n(1) d(1) by (auto simp: initializeMsg_def CConfReader_readInt_def)
qed

lemma initializeRedis_doc:
  assumes h: "holds_doc conf doc" and c: "REDIS_HOST c = zeros Size_URL" "REDIS_AUTH c = zeros Size_PASSWORD"
  shows "initializeRedis conf c = Inr (c\<lparr>REDIS_HOST := REDIS_HOST (config_of doc), REDIS_PORT := REDIS_PORT (config_of doc),
     REDIS_TIMEOUT := REDIS_TIMEOUT (config_of doc), REDIS_AUTH := REDIS_AUTH (config_of doc), REDIS_DB := REDIS_DB (config_of doc)\<rparr>)"
proof -
  note [simp] = holds_int [OF h] holds_short [OF h] holds_string [OF h]
  obtain ret v where n: "CConfReader_readByte conf (lit ''redis'') (lit ''db'') (REDIS_DB c) = Inr (ret, v)"
      "(if ret \<noteq> 0 then 0 else v) = ucast (docNumber doc ''redis'' ''db'')"
    using holds_byte [OF h, of "''redis''" "''db''" "REDIS_DB c"] by (auto simp: confKeys_def)
  have "REDIS_DB (config_of doc) = (if ret \<noteq> 0 then Default_DB else v)"
    using n(2) by (auto simp: config_of_def Let_def Default_DB_def split: if_splits)
  moreover have "docString doc s k m Default_HOST = docString doc s k m (str ''localhost'')"
    "docString doc s k m Default_AUTH = docString doc s k m (str ''123456'')" for s k m
    by (simp_all add: docString_def strncpy_def Default_HOST_def Default_AUTH_def lit_def cstr_stops split: option.splits)
  ultimately show ?thesis using n(1) c
    by (simp add: initializeRedis_def config_of_def Let_def confKeys_def conf_sizes Default_PORT_def Default_TIMEOUT_def)
qed

lemma initialize_doc:
  assumes h: "holds_doc conf doc" and f: "CConfReader_new fs mem (confFileOf name) = Inr conf"
  shows "initialize fs mem junk name config0 = Inr (config_of doc)"
proof -
  show ?thesis
    unfolding initialize_def f bindR_Inr initializeApp_doc [OF h] initializeMsg_doc [OF h]
    by (subst initializeRedis_doc [OF h]) (simp_all add: config0_def)
qed

section \<open>The shipped file\<close>

text \<open>src/gMaxLinked.conf.\<close>

definition conf_shipped :: confDoc where
  "conf_shipped =
     [(str ''app'',
        map (\<lambda>k. Entry (str k) [])
          [''run_as_daemon'', ''name'', ''base_build'', ''protocol_version'', ''listen_ip'', ''listen_port'',
           ''epoll_wait_event_num'', ''node_group_num'', ''node_group_size'', ''message_max_num_in_queue'',
           ''thread_stack_size'', ''heartbeat_interval''] @ [Note []]),
      (str ''msg'', map (\<lambda>k. Entry (str k) []) [''valid_duration'', ''valid_number''] @ [Note []]),
      (str ''redis'', map (\<lambda>k. Entry (str k) []) [''host'', ''port'', ''timeout'', ''auth'', ''db''])]"

definition config_default :: config where
  "config_default =
     \<lparr>RUN_AS_DAEMON = 0, NAME = str ''gMaxLinked'' @ zeros 23, BASE_BUILD = 0, PROTOCOL_VERSION = 0x100,
      LISTEN_IP = str ''0.0.0.0'' @ zeros 9, LISTEN_PORT = 10505, EPOLL_WAIT_EVENT_NUM = 16, NODE_GROUP_NUM = 4,
      NODE_GROUP_SIZE = 16, TOTAL_SUPPORT_USER_NUM = 64, TOTAL_THREAD_NUM = 8, MESSAGE_MAX_NUM_IN_QUEUE = 128,
      THREAD_STACK_SIZE = 4096, HEARTBEAT_INTERVAL = 10, VALID_DURATION = 15892094820647174144, VALID_NUMBER = 8,
      REDIS_HOST = str ''localhost'' @ zeros 248, REDIS_PORT = 6379, REDIS_TIMEOUT = 1,
      REDIS_AUTH = str ''123456'' @ zeros 27, REDIS_DB = 0\<rparr>"

lemma shipped_ok: "doc_ok conf_shipped"
  by (simp add: doc_ok_def conf_shipped_def str_def plain_def char_defs is_space_def)

lemma shipped_keys: "\<forall>(s, key) \<in> set confKeys. lookupDoc conf_shipped (str s) (str key) = Some []"
proof -
  have "list_all (\<lambda>(s, key). lookupDoc conf_shipped (str s) (str key) = Some []) confKeys" by code_simp
  then show ?thesis by (simp add: list_all_iff)
qed

lemma shipped_size: "length (docBytes conf_shipped) = 278" "255 \<notin> set (docBytes conf_shipped)"
  by code_simp+

lemma shipped_default: "config_of conf_shipped = config_default"
  by code_simp

lemma conf_holds:
  assumes "doc_ok doc" and "doc \<noteq> []" and "fs (cstr (confFileOf name)) = Some (docBytes doc)" and "255 \<notin> set (docBytes doc)"
    and "length (docBytes doc) < MAX_CONFIG_FILE_SIZE" and "length mem = MAX_CONFIG_FILE_SIZE"
    and "(\<forall>(s, key) \<in> set confKeys. lookupDoc doc (str s) (str key) \<noteq> None) \<or> take 2 (drop (Suc (length (docBytes doc))) mem) = [0, 0]"
  obtains conf where "CConfReader_new fs mem (confFileOf name) = Inr conf" and "holds_doc conf doc"
proof -
  have "firstByte (confFileOf name) \<noteq> 0"
  proof (cases "0 < length (cstr name) \<and> length (cstr name) < Size_PATH")
    case True
    then obtain c cs where "cstr name = c # cs" by (cases "cstr name") auto
    moreover from this have "c \<noteq> 0" using zero_notin_cstr [of name] by (metis list.set_intros(1))
    ultimately show ?thesis using True by (simp add: confFileOf_def strncpy_def firstByte_def conf_sizes)
  next
    case False
    then have "confFileOf name = strncpy (zeros Size_PATH) Default_CONF_FILE Size_PATH" by (simp only: confFileOf_def if_False)
    then show ?thesis by (simp add: strncpy_def firstByte_def conf_sizes Default_CONF_FILE_def lit_def str_def cstr_def)
  qed
  moreover have "docBytes doc \<noteq> []" using assms(2) by (cases doc) auto
  ultimately show thesis using that new_loads [where fs = fs, OF assms(3) _ assms(4-6)] assms
    by (auto simp: holds_doc_def MAX_CONFIG_FILE_SIZE_def)
qed

lemma shipped_initialize:
  assumes "fs (cstr (confFileOf name)) = Some (docBytes conf_shipped)" and "length mem = MAX_CONFIG_FILE_SIZE"
  shows "initialize fs mem junk name config0 = Inr config_default"
proof -
  have ne: "conf_shipped \<noteq> []" and le: "length (docBytes conf_shipped) < MAX_CONFIG_FILE_SIZE"
    using shipped_size(1) by (auto simp: conf_shipped_def MAX_CONFIG_FILE_SIZE_def)
  have "\<forall>(s, key) \<in> set confKeys. lookupDoc conf_shipped (str s) (str key) \<noteq> None" using shipped_keys by fastforce
  then obtain conf where "CConfReader_new fs mem (confFileOf name) = Inr conf" "holds_doc conf conf_shipped"
    using conf_holds [where fs = fs, OF shipped_ok ne assms(1) shipped_size(2) le assms(2)] by blast
  then show ?thesis using initialize_doc shipped_default by metis
qed

lemma default_boots: "boot_ok config_default addr addr zeros"
  using addr_inj [of 64] addr_inj [of 512] addr_nonnull [of 64] addr_nonnull [of 512]
  by (simp add: boot_ok_def config_default_def zeros_def layout)

section \<open>Numbers\<close>

lemma length_dec: "n < 10 ^ Suc k \<Longrightarrow> length (dec n) \<le> Suc k"
proof (induction k arbitrary: n)
  case 0
  then show ?case by (simp add: dec.simps)
next
  case (Suc k)
  have "n div 10 < 10 ^ Suc k" using Suc.prems by (simp add: less_mult_imp_div_less)
  then show ?case using Suc.IH [of "n div 10"] by (subst dec.simps) simp
qed

lemma cstr_dec: "cstr (dec n) = dec n"
  using dec_digits [of n] by (auto simp: cstr_def takeWhile_eq_all_conv is_digit_def word_le_nat_alt)

lemma atoi_dec: "n < 2 ^ 31 \<Longrightarrow> atoi (take 31 (dec n)) = of_nat n"
proof -
  assume n: "n < 2 ^ 31"
  then have "length (dec n) \<le> Suc 9" by (intro length_dec) simp
  moreover have "strtoll (dec n) = int n" using n by (intro strtoll_dec) simp
  ultimately show ?thesis by (simp add: atoi_def cstr_dec)
qed

lemma docNumber_dec: "lookupDoc doc (str s) (str key) = Some (dec n) \<Longrightarrow> n < 2 ^ 31 \<Longrightarrow> docNumber doc s key = of_nat n"
  by (simp add: docNumber_def atoi_dec)

lemma unat_wider: "unat (ucast (x :: ub4_) :: ub8_) = unat x"
proof -
  have "unat x < 2 ^ 64" using unat_ub4_lt [of x] by simp
  then show ?thesis by (simp add: unsigned_ucast_eq take_bit_nat_eq_self)
qed

section \<open>Properties\<close>

text \<open>C19: Loading the configuration.  Whatever document of sections and lines the file holds,
  \<open>initialize\<close> sets every global to what the document says: the first entry whose key is a prefix of the key, in
  the sections whose name is a prefix of the section, or the default when there is none or it
  is zero or empty.  The memory behind the file does not matter if all keys are present; otherwise
  it matters that its first two bytes are zero.\<close>

theorem config_loaded:
  assumes "doc_ok doc" and "doc \<noteq> []" and "fs (cstr (confFileOf name)) = Some (docBytes doc)" and "255 \<notin> set (docBytes doc)"
    and "length (docBytes doc) < MAX_CONFIG_FILE_SIZE" and "length mem = MAX_CONFIG_FILE_SIZE"
    and "(\<forall>(s, key) \<in> set confKeys. lookupDoc doc (str s) (str key) \<noteq> None) \<or> take 2 (drop (Suc (length (docBytes doc))) mem) = [0, 0]"
  shows "initialize fs mem junk name config0 = Inr (config_of doc)"
  by (rule conf_holds [where fs = fs, OF assms]) (rule initialize_doc)

definition conf_one :: confDoc where
  "conf_one = [(str ''app'', [Note (str ''; groups''), Entry (str ''node_group_num'') (dec 2)])]"

theorem config_loaded_witness:
  "\<exists>c. initialize (\<lambda>_. Some (docBytes conf_one)) (zeros MAX_CONFIG_FILE_SIZE) 0 [] config0 = Inr c \<and>
     NODE_GROUP_NUM c = 2 \<and> NODE_GROUP_SIZE c = 16"
proof -
  have "doc_ok conf_one" by (simp add: doc_ok_def conf_one_def str_def plain_def char_defs is_space_def dec.simps)
  moreover have "255 \<notin> set (docBytes conf_one)" "length (docBytes conf_one) = 32" by code_simp+
  moreover have "NODE_GROUP_NUM (config_of conf_one) = 2" "NODE_GROUP_SIZE (config_of conf_one) = 16" by code_simp+
  moreover have "take 2 (drop 33 (zeros MAX_CONFIG_FILE_SIZE)) = [0, 0]" by (simp add: zeros_def MAX_CONFIG_FILE_SIZE_def numeral_2_eq_2)
  ultimately show ?thesis
    using config_loaded [of conf_one "\<lambda>_. Some (docBytes conf_one)" "[]" "zeros MAX_CONFIG_FILE_SIZE" 0]
    by (simp add: conf_one_def MAX_CONFIG_FILE_SIZE_def)
qed

text \<open>The shipped file has every key and no value: with it all globals get their defaults,
  whatever the memory behind the file holds, and with them the server can be constructed.\<close>

theorem config_shipped:
  assumes "fs (cstr (confFileOf name)) = Some (docBytes conf_shipped)" and "length mem = MAX_CONFIG_FILE_SIZE"
  shows "initialize fs mem junk name config0 = Inr config_default \<and> boot_ok config_default addr addr zeros"
  using shipped_initialize [where fs = fs, OF assms] default_boots by simp

theorem config_shipped_witness:
  "initialize (\<lambda>f. if f = str ''gMaxLinked.conf'' then Some (docBytes conf_shipped) else None)
     (replicate MAX_CONFIG_FILE_SIZE 91) 7 [] config0 = Inr config_default"
proof -
  have "cstr (confFileOf []) = str ''gMaxLinked.conf''" by code_simp
  then show ?thesis
    using config_shipped [of "\<lambda>f. if f = str ''gMaxLinked.conf'' then Some (docBytes conf_shipped) else None" "[]"
        "replicate MAX_CONFIG_FILE_SIZE 91" 7] by simp
qed

text \<open>The duration for which messages are kept is given in hours and stored in microseconds, but
  the product is computed in 32 bits: it is right for one hour only.\<close>

theorem config_duration:
  assumes "lookupDoc doc (str ''msg'') (str ''valid_duration'') = Some (dec h)" and "0 < h" and "h < 2 ^ 31"
  shows "unat (VALID_DURATION (config_of doc)) = h * 3600000000 \<longleftrightarrow> h = 1"
proof -
  have "docNumber doc ''msg'' ''valid_duration'' = of_nat h" using assms by (intro docNumber_dec) auto
  moreover have "(of_nat h :: ub4_) \<noteq> 0" using assms by (simp add: word_eq_unat unat_of_nat_lt)
  ultimately have v: "VALID_DURATION (config_of doc) = ucast (of_nat h * 3600000000 :: ub4_)" by (simp add: config_of_def Let_def)
  have "unat (VALID_DURATION (config_of doc)) < 2 ^ 32"
    unfolding v using unat_ub4_lt [of "of_nat h * 3600000000"] by (simp add: unat_wider)
  then show ?thesis using v assms(2) by (cases "h = 1") auto
qed

definition conf_days :: confDoc where
  "conf_days = [(str ''msg'', [Entry (str ''valid_duration'') (dec 24)])]"

theorem config_duration_witness:
  "unat (VALID_DURATION (config_of conf_days)) \<noteq> 24 * 3600000000"
  using config_duration [of conf_days 24] by (simp add: conf_days_def)

end
