(* ===== verification/Process.thy ===== *)
theory Process
  imports Config_Load
begin

text \<open>
  The start of the process, src/src/gMaxLinked.cpp: the options, the daemon, and \<open>main\<close> up to the start of the threads.  The
  results of system calls are inputs.  Logging, the core dump limit, the file mode mask and the redirection of the standard files
  have no effect on the state of the model.
\<close>

section \<open>Options\<close>

definition DAEMON_NAME :: "ub1_ list" where "DAEMON_NAME = lit ''gMaxLinked''"

text \<open>\<open>argv\<close> with the name of the program first; the number of its elements is \<open>argc\<close>.\<close>

definition checkParameters :: "ub1_ list list \<Rightarrow> b4_" where
  "checkParameters argv =
     (if length argv = 1 then 0
      else if length argv = 2 then (if cstr (argv ! 1) = str ''-version'' then 1 else 2)
      else -1)"

section \<open>The daemon\<close>

datatype signal = SIGALRM | SIGUSR1 | SIGCHLD

definition EXIT_SUCCESS :: b4_ where "EXIT_SUCCESS = 0"
definition EXIT_FAILURE :: b4_ where "EXIT_FAILURE = 1"

definition sigHandler :: "signal \<Rightarrow> b4_" where
  "sigHandler sigNo = (case sigNo of SIGALRM \<Rightarrow> EXIT_FAILURE | SIGUSR1 \<Rightarrow> EXIT_SUCCESS | SIGCHLD \<Rightarrow> EXIT_FAILURE)"

text \<open>The results of the system calls; \<open>d_signal\<close> is the signal that ends \<open>pause\<close> in the parent.\<close>

record daemonCalls =
  d_getppid :: b4_
  d_open :: b4_
  d_fork :: b4_
  d_signal :: signal
  d_setsid :: b4_
  d_chdir :: b4_
  d_openPid :: b4_

text \<open>\<open>runAsDaemon\<close>: the process ends with a code, or goes on.\<close>

definition runAsDaemon :: "daemonCalls \<Rightarrow> b4_ + unit" where
  "runAsDaemon d =
     (if d_getppid d = 1 then Inr ()
      else if d_open d <s 0 then Inl EXIT_FAILURE
      else if d_fork d <s 0 then Inl EXIT_FAILURE
      else if 0 <s d_fork d then Inl (sigHandler (d_signal d))
      else if d_setsid d <s 0 then Inl EXIT_FAILURE
      else if d_chdir d <s 0 then Inl EXIT_FAILURE
      else if d_openPid d <s 0 then Inl EXIT_FAILURE
      else Inr ())"

section \<open>The run\<close>

text \<open>
  \<open>run\<close> up to the start of the worker threads: the configuration, the daemon, the managers, and the
  set-up of the listening socket.  \<open>calls\<close> are the results of its system calls.
\<close>

definition confArg :: "ub1_ list list \<Rightarrow> ub1_ list" where
  "confArg argv = (if length argv = 2 then argv ! 1 else [])"

definition run ::
  "(ub1_ list \<Rightarrow> ub1_ list option) \<Rightarrow> ub1_ list \<Rightarrow> ub4_ \<Rightarrow> daemonCalls \<Rightarrow> (nat \<Rightarrow> ub8_) \<Rightarrow> (nat \<Rightarrow> ub8_) \<Rightarrow>
   (nat \<Rightarrow> ub1_ list) \<Rightarrow> workCalls \<Rightarrow> ub1_ list list \<Rightarrow> 'r world \<Rightarrow> (config \<times> bool \<times> 'r world) result" where
  "run fs mem junk d timerAddr nodeAddr nmem calls argv w0 =
     bindR (initialize fs mem junk (confArg argv) config0) (\<lambda>cfg.
     bindR (if RUN_AS_DAEMON cfg \<noteq> 0 then (case runAsDaemon d of Inl _ \<Rightarrow> Inl ExitCall | Inr _ \<Rightarrow> Inr ()) else Inr ()) (\<lambda>_.
     bindR (server_new cfg timerAddr nodeAddr nmem w0) (\<lambda>w.
     bindR (CTrafficManager_work calls w) (\<lambda>(ok, w1). Inr (cfg, ok, w1)))))"

text \<open>\<open>main\<close>: the code it returns, with what \<open>run\<close> did if it was called.  \<open>ok\<close> is the result of \<open>CBase::initialize\<close>.\<close>

definition main ::
  "bool \<Rightarrow> (ub1_ list list \<Rightarrow> 'a result) \<Rightarrow> ub1_ list list \<Rightarrow> (b4_ \<times> 'a option) result" where
  "main ok runs argv =
     (if \<not> ok then Inr (1, None)
      else if checkParameters argv = 0 \<or> checkParameters argv = 2 then
        bindR (runs argv) (\<lambda>x. Inr (0, Some x))
      else Inr (0, None))"

section \<open>Properties\<close>

definition calls_ok :: "workCalls \<Rightarrow> bool" where
  "calls_ok s \<longleftrightarrow> s_socket s \<noteq> -1 \<and> s_setsockopt s = 0 \<and> s_bind s \<noteq> -1 \<and> s_epoll_create s \<noteq> -1 \<and> s_epoll_ctl s \<noteq> -1 \<and> s_listen s \<noteq> -1"

lemma sys_inv_fds: "sys_inv (w\<lparr>w_listenFd := a, w_epollFd := b\<rparr>) \<longleftrightarrow> sys_inv w"
  by (simp add: sys_inv_def sv_inv_def reg_ok_def ready_def txs_def sessionKey_def framed_def frame_def inj_on_def)

lemma framed_fds: "framed (w\<lparr>w_listenFd := a, w_epollFd := b\<rparr>) ms x \<longleftrightarrow> framed w ms x"
  by (simp add: framed_def frame_def)

lemma work_ok: "calls_ok s \<Longrightarrow> CTrafficManager_work s w = Inr (True, w\<lparr>w_listenFd := s_socket s, w_epollFd := s_epoll_create s\<rparr>)"
  by (simp add: CTrafficManager_work_def calls_ok_def thenM_def bindM_def updM_def exitIf_def retM_def)





end
