(* ===== verification/Worker.thy ===== *)
theory Worker
  imports Prelude
begin

text \<open>
  The thread wrapper of src/src/common/CWorker.cpp: the caller in \<open>work\<close>, the new thread in \<open>_run\<close>, and the
  hand-shake between them over a mutex and a condition variable, as a step relation.  The mutexes and the condition variable
  (CMutex.cpp, CCond.cpp, CAutoLock.cpp) are those of pthreads: \<open>pthread_cond_wait\<close> gives up the mutex and has it again when it
  returns.
\<close>

section \<open>State\<close>

datatype thread = Caller | Runner

datatype callerPc = P_check | P_plain | P_lock | P_create | P_test | P_wait | P_wake | P_join | P_unlock | P_done

datatype runnerPc = R_none | R_begin | R_lock | R_inform | R_unlock | R_loop | R_end | R_clear | R_gone

record worker =
  v_handle :: bool
  v_informed :: bool
  v_mutex :: "thread option"
  v_workerNum :: ub4_
  v_workingCondition :: bool
  v_caller :: callerPc
  v_runner :: runnerPc

text \<open>A new worker, and a call of \<open>work\<close> about to start, while \<open>k\<close> other workers run.\<close>

definition CWorker_new :: "ub4_ \<Rightarrow> worker" where
  "CWorker_new k =
     \<lparr>v_handle = False, v_informed = False, v_mutex = None, v_workerNum = k, v_workingCondition = True,
      v_caller = P_check, v_runner = R_none\<rparr>"

section \<open>Steps\<close>

text \<open>
  One step of the caller in \<open>work(workable, informed, sync)\<close>, of the new thread in \<open>_run\<close>, or of a thread
  that calls \<open>stop\<close>.  \<open>spurious\<close> says whether \<open>pthread_cond_wait\<close> may return without a signal.
\<close>

inductive worker_step :: "bool \<Rightarrow> bool \<Rightarrow> bool \<Rightarrow> worker \<Rightarrow> worker \<Rightarrow> bool" for informed sync spurious where
  check: "v_caller s = P_check \<Longrightarrow>
    worker_step informed sync spurious s (s\<lparr>v_caller := (if v_handle s then P_done else if informed then P_lock else P_plain)\<rparr>)"
| plain: "v_caller s = P_plain \<Longrightarrow>
    worker_step informed sync spurious s (s\<lparr>v_handle := True, v_runner := R_begin, v_caller := P_done\<rparr>)"
| plainFails: "v_caller s = P_plain \<Longrightarrow> worker_step informed sync spurious s (s\<lparr>v_caller := P_done\<rparr>)"
| lock: "v_caller s = P_lock \<Longrightarrow> v_mutex s = None \<Longrightarrow>
    worker_step informed sync spurious s (s\<lparr>v_mutex := Some Caller, v_informed := True, v_caller := P_create\<rparr>)"
| create: "v_caller s = P_create \<Longrightarrow>
    worker_step informed sync spurious s (s\<lparr>v_handle := True, v_runner := R_begin, v_caller := P_test\<rparr>)"
| createFails: "v_caller s = P_create \<Longrightarrow> worker_step informed sync spurious s (s\<lparr>v_caller := P_unlock\<rparr>)"
| test: "v_caller s = P_test \<Longrightarrow>
    worker_step informed sync spurious s
      (if v_informed s then s\<lparr>v_mutex := None, v_caller := P_wait\<rparr>
       else s\<lparr>v_caller := (if sync then P_join else P_unlock)\<rparr>)"
| wakeSpurious: "spurious \<Longrightarrow> v_caller s = P_wait \<Longrightarrow> worker_step informed sync spurious s (s\<lparr>v_caller := P_wake\<rparr>)"
| wake: "v_caller s = P_wake \<Longrightarrow> v_mutex s = None \<Longrightarrow>
    worker_step informed sync spurious s (s\<lparr>v_mutex := Some Caller, v_caller := (if sync then P_join else P_unlock)\<rparr>)"
| join: "v_caller s = P_join \<Longrightarrow> v_runner s = R_gone \<Longrightarrow> worker_step informed sync spurious s (s\<lparr>v_caller := P_unlock\<rparr>)"
| unlock: "v_caller s = P_unlock \<Longrightarrow> worker_step informed sync spurious s (s\<lparr>v_mutex := None, v_caller := P_done\<rparr>)"
| began: "v_runner s = R_begin \<Longrightarrow>
    worker_step informed sync spurious s (s\<lparr>v_workerNum := v_workerNum s + 1, v_runner := R_lock\<rparr>)"
| lockInformed: "v_runner s = R_lock \<Longrightarrow> v_mutex s = None \<Longrightarrow>
    worker_step informed sync spurious s (s\<lparr>v_mutex := Some Runner, v_runner := R_inform\<rparr>)"
| inform: "v_runner s = R_inform \<Longrightarrow>
    worker_step informed sync spurious s
      (s\<lparr>v_informed := False,
         v_caller := (if v_informed s \<and> v_caller s = P_wait then P_wake else v_caller s),
         v_runner := R_unlock\<rparr>)"
| unlockInformed: "v_runner s = R_unlock \<Longrightarrow> worker_step informed sync spurious s (s\<lparr>v_mutex := None, v_runner := R_loop\<rparr>)"
| working: "v_runner s = R_loop \<Longrightarrow> v_workingCondition s \<Longrightarrow> worker_step informed sync spurious s s"
| leave: "v_runner s = R_loop \<Longrightarrow> worker_step informed sync spurious s (s\<lparr>v_runner := R_end\<rparr>)"
| ended: "v_runner s = R_end \<Longrightarrow>
    worker_step informed sync spurious s (s\<lparr>v_workerNum := v_workerNum s - 1, v_runner := R_clear\<rparr>)"
| clear: "v_runner s = R_clear \<Longrightarrow> worker_step informed sync spurious s (s\<lparr>v_handle := False, v_runner := R_gone\<rparr>)"
| stop: "worker_step informed sync spurious s (s\<lparr>v_workingCondition := False\<rparr>)"

inductive worker_reach :: "bool \<Rightarrow> bool \<Rightarrow> bool \<Rightarrow> worker \<Rightarrow> worker \<Rightarrow> bool" for informed sync spurious where
  stay: "worker_reach informed sync spurious s s"
| step: "worker_reach informed sync spurious s t \<Longrightarrow> worker_step informed sync spurious t u \<Longrightarrow> worker_reach informed sync spurious s u"

section \<open>Invariant\<close>

definition counted :: "runnerPc \<Rightarrow> bool" where
  "counted r \<longleftrightarrow> r \<in> {R_lock, R_inform, R_unlock, R_loop, R_end}"

text \<open>The mutex is held by the thread that the control says; the caller waits only for a thread that
  has yet to inform it; the counter counts the thread.\<close>

definition worker_inv :: "bool \<Rightarrow> ub4_ \<Rightarrow> worker \<Rightarrow> bool" where
  "worker_inv sync k s \<longleftrightarrow>
     (v_mutex s = Some Caller \<longleftrightarrow> v_caller s \<in> {P_create, P_test, P_join, P_unlock}) \<and>
     (v_mutex s = Some Runner \<longleftrightarrow> v_runner s \<in> {R_inform, R_unlock}) \<and>
     v_workerNum s = (if counted (v_runner s) then k + 1 else k) \<and>
     (v_caller s \<in> {P_check, P_lock, P_create} \<longrightarrow> v_runner s = R_none) \<and>
     v_caller s \<noteq> P_plain \<and> (v_caller s = P_check \<longrightarrow> \<not> v_handle s) \<and>
     (v_caller s \<in> {P_create, P_test, P_wait} \<longrightarrow> v_informed s) \<and>
     (v_caller s = P_test \<longrightarrow> v_runner s \<in> {R_begin, R_lock}) \<and>
     (v_caller s = P_wait \<longrightarrow> v_runner s \<in> {R_begin, R_lock, R_inform}) \<and>
     (v_caller s = P_wake \<longrightarrow> v_runner s \<in> {R_unlock, R_loop, R_end, R_clear, R_gone}) \<and>
     (v_caller s = P_join \<longrightarrow> v_runner s \<in> {R_loop, R_end, R_clear, R_gone}) \<and>
     (v_caller s \<in> {P_unlock, P_done} \<longrightarrow>
        v_runner s \<in> {R_none, R_gone} \<or> \<not> sync \<and> v_runner s \<in> {R_loop, R_end, R_clear})"

lemma worker_inv_new: "worker_inv sync k (CWorker_new k)"
  by (simp add: worker_inv_def CWorker_new_def counted_def)

lemma worker_inv_step: "worker_step True sync False s t \<Longrightarrow> worker_inv sync k s \<Longrightarrow> worker_inv sync k t"
  by (induction rule: worker_step.induct) (auto simp: worker_inv_def counted_def split: if_splits)

lemma worker_inv_reach: "worker_reach True sync False s t \<Longrightarrow> worker_inv sync k s \<Longrightarrow> worker_inv sync k t"
  by (induction rule: worker_reach.induct) (auto dest: worker_inv_step)

inductive_cases worker_stepE: "worker_step informed sync spurious s t"

section \<open>Progress\<close>

definition callerRank :: "callerPc \<Rightarrow> nat" where
  "callerRank c = (case c of P_check \<Rightarrow> 9 | P_plain \<Rightarrow> 8 | P_lock \<Rightarrow> 7 | P_create \<Rightarrow> 6 | P_test \<Rightarrow> 5 | P_wait \<Rightarrow> 4
     | P_wake \<Rightarrow> 3 | P_join \<Rightarrow> 2 | P_unlock \<Rightarrow> 1 | P_done \<Rightarrow> 0)"

definition runnerRank :: "runnerPc \<Rightarrow> nat" where
  "runnerRank r = (case r of R_none \<Rightarrow> 8 | R_begin \<Rightarrow> 7 | R_lock \<Rightarrow> 6 | R_inform \<Rightarrow> 5 | R_unlock \<Rightarrow> 4 | R_loop \<Rightarrow> 3
     | R_end \<Rightarrow> 2 | R_clear \<Rightarrow> 1 | R_gone \<Rightarrow> 0)"

definition rank :: "worker \<Rightarrow> nat" where
  "rank s = callerRank (v_caller s) + runnerRank (v_runner s)"

lemmas rank_defs = rank_def callerRank_def runnerRank_def

text \<open>As long as the call has not returned, one of the two threads can move on.\<close>

lemma worker_progress:
  assumes inv: "worker_inv sync k s" and nd: "v_caller s \<noteq> P_done"
  shows "\<exists>t. worker_step True sync False s t \<and> rank t < rank s"
proof -
  have run: "\<exists>t. worker_step True sync False s t \<and> rank t < rank s"
    if "v_runner s \<in> {R_begin, R_inform, R_unlock, R_loop, R_end, R_clear} \<or> v_runner s = R_lock \<and> v_mutex s = None"
    using that by (elim disjE conjE insertE emptyE)
      (rule exI, rule conjI, (rule worker_step.began worker_step.inform worker_step.unlockInformed worker_step.leave worker_step.ended
        worker_step.clear worker_step.lockInformed; assumption), simp add: rank_defs split: callerPc.splits)+
  have call: "\<exists>t. worker_step True sync False s t \<and> rank t < rank s"
    if "v_caller s \<in> {P_check, P_create, P_test, P_unlock} \<or> v_caller s \<in> {P_lock, P_wake} \<and> v_mutex s = None \<or> v_caller s = P_join \<and> v_runner s = R_gone"
    using that by (elim disjE conjE insertE emptyE)
      (rule exI, rule conjI, (rule worker_step.check worker_step.createFails worker_step.test worker_step.unlock worker_step.lock
        worker_step.wake worker_step.join; assumption), simp add: rank_defs)+
  show ?thesis
  proof (cases "v_mutex s")
    case None
    then show ?thesis using inv nd run call by (cases "v_caller s"; cases "v_runner s") (auto simp: worker_inv_def)
  next
    case (Some th)
    then show ?thesis using inv nd run call by (cases th; cases "v_caller s"; cases "v_runner s") (auto simp: worker_inv_def)
  qed
qed

lemma worker_reach_trans: "worker_reach i sync sp s t \<Longrightarrow> worker_reach i sync sp t u \<Longrightarrow> worker_reach i sync sp s u"
  by (rotate_tac, induction rule: worker_reach.induct) (auto intro: worker_reach.intros)

lemma worker_finishes:
  "worker_inv sync k s \<Longrightarrow> \<exists>t. worker_reach True sync False s t \<and> v_caller t = P_done"
proof (induction "rank s" arbitrary: s rule: less_induct)
  case less
  show ?case
  proof (cases "v_caller s = P_done")
    case False
    then obtain t where t: "worker_step True sync False s t" "rank t < rank s" using worker_progress [OF less.prems] by blast
    then obtain u where "worker_reach True sync False t u" "v_caller u = P_done"
      using less.hyps [OF t(2)] worker_inv_step [OF t(1) less.prems] by blast
    then show ?thesis using worker_reach_trans worker_reach.step [OF worker_reach.stay t(1)] by blast
  qed (auto intro: worker_reach.stay)
qed

section \<open>Runs\<close>

definition wk :: "ub4_ \<Rightarrow> bool \<Rightarrow> bool \<Rightarrow> thread option \<Rightarrow> callerPc \<Rightarrow> runnerPc \<Rightarrow> worker" where
  "wk k h i m c r = \<lparr>v_handle = h, v_informed = i, v_mutex = m, v_workerNum = k, v_workingCondition = True, v_caller = c, v_runner = r\<rparr>"

lemma run_to_begin:
  "worker_reach True sync sp (CWorker_new k) (wk (k + 1) True True None P_wait R_lock)"
proof -
  have 1: "worker_reach True sync sp (CWorker_new k) (wk k False False None P_lock R_none)"
    using worker_reach.step [OF worker_reach.stay worker_step.check [of "CWorker_new k"], of True sync sp] by (simp add: CWorker_new_def wk_def)
  have 2: "worker_reach True sync sp (CWorker_new k) (wk k False True (Some Caller) P_create R_none)"
    using worker_reach.step [OF 1 worker_step.lock] by (simp add: wk_def)
  have 3: "worker_reach True sync sp (CWorker_new k) (wk k True True (Some Caller) P_test R_begin)"
    using worker_reach.step [OF 2 worker_step.create] by (simp add: wk_def)
  have 4: "worker_reach True sync sp (CWorker_new k) (wk k True True None P_wait R_begin)"
    using worker_reach.step [OF 3 worker_step.test] by (simp add: wk_def)
  show ?thesis using worker_reach.step [OF 4 worker_step.began] by (simp add: wk_def)
qed

lemma run_to_done:
  "worker_reach True False sp (CWorker_new k) (wk (k + 1) True False None P_done R_loop)"
proof -
  have 1: "worker_reach True False sp (CWorker_new k) (wk (k + 1) True True (Some Runner) P_wait R_inform)"
    using worker_reach.step [OF run_to_begin worker_step.lockInformed] by (simp add: wk_def)
  have 2: "worker_reach True False sp (CWorker_new k) (wk (k + 1) True False (Some Runner) P_wake R_unlock)"
    using worker_reach.step [OF 1 worker_step.inform] by (simp add: wk_def)
  have 3: "worker_reach True False sp (CWorker_new k) (wk (k + 1) True False None P_wake R_loop)"
    using worker_reach.step [OF 2 worker_step.unlockInformed] by (simp add: wk_def)
  have 4: "worker_reach True False sp (CWorker_new k) (wk (k + 1) True False (Some Caller) P_unlock R_loop)"
    using worker_reach.step [OF 3 worker_step.wake] by (simp add: wk_def)
  show ?thesis using worker_reach.step [OF 4 worker_step.unlock] by (simp add: wk_def)
qed

definition stuck :: "worker \<Rightarrow> bool" where
  "stuck s \<longleftrightarrow> v_caller s = P_join \<and> v_runner s = R_lock \<and> v_mutex s = Some Caller"

lemma stuck_step: "worker_step i sync sp s t \<Longrightarrow> stuck s \<Longrightarrow> stuck t"
  by (induction rule: worker_step.induct) (auto simp: stuck_def)

lemma stuck_reach: "worker_reach i sync sp s t \<Longrightarrow> stuck s \<Longrightarrow> stuck t"
  by (induction rule: worker_reach.induct) (auto dest: stuck_step)

lemma run_to_stuck: "worker_reach True True True (CWorker_new k) (wk (k + 1) True True (Some Caller) P_join R_lock)"
proof -
  have 1: "worker_reach True True True (CWorker_new k) (wk (k + 1) True True None P_wake R_lock)"
    using worker_reach.step [OF run_to_begin worker_step.wakeSpurious] by (simp add: wk_def)
  show ?thesis using worker_reach.step [OF 1 worker_step.wake] by (simp add: wk_def)
qed

section \<open>Properties\<close>

text \<open>What a caller of \<open>work\<close> with \<open>informed\<close> may rely on: when the call returns, the thread could not be created, or it has
  been counted among the workers, and it is until its loop has ended; so the main thread, which waits until no worker is counted,
  does not leave while one runs.  With \<open>sync\<close> the thread has ended.\<close>

theorem worker_counted:
  assumes "worker_reach True sync False (CWorker_new k) s" and "v_caller s = P_done"
  shows "v_runner s \<in> {R_none, R_loop, R_end, R_clear, R_gone} \<and>
     v_workerNum s = (if v_runner s \<in> {R_loop, R_end} then k + 1 else k) \<and>
     (sync \<longrightarrow> v_runner s \<in> {R_none, R_gone})"
  using worker_inv_reach [OF assms(1) worker_inv_new] assms(2) by (auto simp: worker_inv_def counted_def)

theorem worker_counted_witness:
  "worker_reach True False False (CWorker_new 3) (wk 4 True False None P_done R_loop) \<and>
   v_workerNum (wk 4 True False None P_done R_loop) = (if R_loop \<in> {R_loop, R_end} then 3 + 1 else 3)"
  using run_to_done [of False 3] worker_counted [of False 3 "wk 4 True False None P_done R_loop"] by (simp add: wk_def)



text \<open>This rests on \<open>pthread_cond_wait\<close> returning on a signal only.  If it may return on its own, a caller with \<open>sync\<close> can
  take the mutex before the new thread, and both wait for ever: the caller for the end of the thread, the thread for the
  mutex.\<close>

theorem worker_deadlock:
  "\<exists>s. worker_reach True True True (CWorker_new k) s \<and> v_caller s = P_join \<and> v_runner s = R_lock \<and>
     (\<forall>t. worker_reach True True True s t \<longrightarrow> v_caller t = P_join \<and> v_runner t = R_lock)"
  using run_to_stuck [of k] stuck_reach [of True True True "wk (k + 1) True True (Some Caller) P_join R_lock"]
  by (intro exI [of _ "wk (k + 1) True True (Some Caller) P_join R_lock"]) (auto simp: stuck_def wk_def)

theorem worker_deadlock_witness:
  "\<exists>s. worker_reach True True True (CWorker_new 3) s \<and> v_caller s = P_join \<and> v_runner s = R_lock \<and>
     (\<forall>t. worker_reach True True True s t \<longrightarrow> v_caller t = P_join \<and> v_runner t = R_lock)"
  by (rule worker_deadlock)

end
