(* ===== verification/Shutdown.thy ===== *)
theory Shutdown
  imports Worker
begin

text \<open>
  The end of the process, the last part of \<open>run\<close> in src/src/gMaxLinked.cpp: when the managers return, \<open>CWorker::stop\<close> tells
  every worker to leave its loop, and the main thread waits until none is counted.  All workers share the static members of
  CWorker, the counter and the working condition; every worker of the server is started with \<open>informed\<close>.
\<close>

section \<open>State\<close>

datatype mainPc = M_work | M_wait | M_ended

record fleet =
  f_workerNum :: ub4_
  f_workingCondition :: bool
  f_workers :: "worker list"
  f_main :: mainPc

text \<open>A worker with the static members as they are now.\<close>

definition member :: "fleet \<Rightarrow> nat \<Rightarrow> worker" where
  "member y i = (f_workers y ! i)\<lparr>v_workerNum := f_workerNum y, v_workingCondition := f_workingCondition y\<rparr>"

definition fleet_new :: "nat \<Rightarrow> fleet" where
  "fleet_new n = \<lparr>f_workerNum = 0, f_workingCondition = True, f_workers = replicate n (CWorker_new 0), f_main = M_work\<rparr>"

text \<open>A step of one worker, or of the main thread: the managers return and \<open>stop\<close> is called; the loop of \<open>run\<close> sleeps, or ends.  The
  list \<open>syncs\<close> has the argument \<open>sync\<close> of each call of \<open>work\<close>.\<close>

inductive fleet_step :: "bool list \<Rightarrow> fleet \<Rightarrow> fleet \<Rightarrow> bool" for syncs where
  moves: "i < length (f_workers y) \<Longrightarrow> worker_step True (syncs ! i) False (member y i) w \<Longrightarrow>
    fleet_step syncs y (y\<lparr>f_workerNum := v_workerNum w, f_workingCondition := v_workingCondition w, f_workers := (f_workers y)[i := w]\<rparr>)"
| stops: "f_main y = M_work \<Longrightarrow> fleet_step syncs y (y\<lparr>f_workingCondition := False, f_main := M_wait\<rparr>)"
| sleeps: "f_main y = M_wait \<Longrightarrow> f_workerNum y \<noteq> 0 \<Longrightarrow> fleet_step syncs y y"
| ends: "f_main y = M_wait \<Longrightarrow> f_workerNum y = 0 \<Longrightarrow> fleet_step syncs y (y\<lparr>f_main := M_ended\<rparr>)"

inductive fleet_reach :: "bool list \<Rightarrow> fleet \<Rightarrow> fleet \<Rightarrow> bool" for syncs where
  fleet_stay: "fleet_reach syncs y y"
| fleet_next: "fleet_reach syncs x y \<Longrightarrow> fleet_step syncs y z \<Longrightarrow> fleet_reach syncs x z"

lemma fleet_reach_trans: "fleet_reach syncs y z \<Longrightarrow> fleet_reach syncs x y \<Longrightarrow> fleet_reach syncs x z"
  by (induction rule: fleet_reach.induct) (auto intro: fleet_reach.intros)

section \<open>Invariant\<close>

text \<open>The counter counts the threads between its increment and its decrement; each worker satisfies its own invariant when the others
  are what it takes for the rest of the count.\<close>

definition runs :: "worker \<Rightarrow> nat" where
  "runs w = (if counted (v_runner w) then 1 else 0)"

definition running :: "fleet \<Rightarrow> nat" where
  "running y = sum_list (map runs (f_workers y))"

definition others :: "fleet \<Rightarrow> nat \<Rightarrow> ub4_" where
  "others y i = of_nat (running y - runs (f_workers y ! i))"

definition fleet_inv :: "bool list \<Rightarrow> fleet \<Rightarrow> bool" where
  "fleet_inv syncs y \<longleftrightarrow> f_workerNum y = of_nat (running y) \<and> (f_main y \<noteq> M_work \<longrightarrow> \<not> f_workingCondition y) \<and>
     (\<forall>i < length (f_workers y). worker_inv (syncs ! i) (others y i) (member y i))"

text \<open>Only the counter of the invariant of a worker depends on the others.\<close>

lemma worker_inv_local:
  "worker_inv sync k s \<longleftrightarrow> worker_inv sync 0 (s\<lparr>v_workerNum := of_nat (runs s)\<rparr>) \<and> v_workerNum s = k + of_nat (runs s)"
  by (cases "counted (v_runner s)") (simp_all add: worker_inv_def runs_def conj_ac)

lemma worker_inv_statics [simp]:
  "worker_inv sync k (s\<lparr>v_workingCondition := b\<rparr>) = worker_inv sync k s"
  "worker_inv sync k (s\<lparr>v_workingCondition := b, v_workerNum := n\<rparr>) = worker_inv sync k (s\<lparr>v_workerNum := n\<rparr>)"
  by (simp_all add: worker_inv_def)

lemma runs_statics [simp]: "runs (s\<lparr>v_workingCondition := b\<rparr>) = runs s" "runs (s\<lparr>v_workerNum := n\<rparr>) = runs s" "runs (member y i) = runs (f_workers y ! i)"
  by (simp_all add: runs_def member_def)

lemma runs_le: "i < length (f_workers y) \<Longrightarrow> runs (f_workers y ! i) \<le> running y"
  unfolding running_def using elem_le_sum_list [of i "map runs (f_workers y)"] by simp

definition local_ok :: "bool \<Rightarrow> worker \<Rightarrow> bool" where
  "local_ok sync w \<longleftrightarrow> worker_inv sync 0 (w\<lparr>v_workerNum := of_nat (runs w)\<rparr>)"

lemma fleet_inv_local:
  "fleet_inv syncs y \<longleftrightarrow> f_workerNum y = of_nat (running y) \<and> (f_main y \<noteq> M_work \<longrightarrow> \<not> f_workingCondition y) \<and>
     (\<forall>i < length (f_workers y). local_ok (syncs ! i) (f_workers y ! i))"
proof -
  have "worker_inv (syncs ! i) (others y i) (member y i) \<longleftrightarrow> local_ok (syncs ! i) (f_workers y ! i)"
    if "f_workerNum y = of_nat (running y)" "i < length (f_workers y)" for i
    using runs_le [OF that(2)] that(1)
    by (subst worker_inv_local) (simp add: local_ok_def others_def member_def of_nat_diff)
  then show ?thesis unfolding fleet_inv_def by blast
qed

lemma running_update:
  assumes "i < length (f_workers y)"
  shows "running (y\<lparr>f_workers := (f_workers y)[i := w]\<rparr>) + runs (f_workers y ! i) = running y + runs w"
proof -
  have "sum_list (map runs ((f_workers y)[i := w])) + runs (f_workers y ! i) = sum_list (map runs (f_workers y)) + runs w"
    using runs_le [OF assms] assms by (simp add: map_update sum_list_update running_def)
  then show ?thesis by (simp add: running_def)
qed

lemma fleet_inv_new: "fleet_inv syncs (fleet_new n)"
  by (simp add: fleet_inv_local fleet_new_def running_def runs_def local_ok_def worker_inv_def CWorker_new_def counted_def sum_list_replicate)

lemma fleet_inv_step:
  assumes "fleet_step syncs y z" and "fleet_inv syncs y"
  shows "fleet_inv syncs z"
  using assms
proof (induction rule: fleet_step.induct)
  case (moves i y w)
  let ?z = "y\<lparr>f_workerNum := v_workerNum w, f_workingCondition := v_workingCondition w, f_workers := (f_workers y)[i := w]\<rparr>"
  have inv: "worker_inv (syncs ! i) (others y i) w"
    using worker_inv_step [OF moves.hyps(2)] moves.prems moves.hyps(1) by (simp add: fleet_inv_def)
  then have w: "local_ok (syncs ! i) w" "v_workerNum w = others y i + of_nat (runs w)"
    using worker_inv_local [of "syncs ! i" "others y i" w] by (simp_all add: local_ok_def)
  have "running ?z = running y - runs (f_workers y ! i) + runs w"
    using running_update [OF moves.hyps(1), of w] runs_le [OF moves.hyps(1)] by (simp add: running_def)
  then have "v_workerNum w = of_nat (running ?z)" using w(2) by (simp add: others_def)
  moreover have "\<not> v_workingCondition w" if "\<not> f_workingCondition y"
    using moves.hyps(2) that by (induction "member y i" w rule: worker_step.induct) (simp_all add: member_def)
  ultimately show ?case
    using moves.prems moves.hyps(1) w(1) by (auto simp: fleet_inv_local nth_list_update)
qed (auto simp: fleet_inv_local running_def)

lemma fleet_inv_reach: "fleet_reach syncs x y \<Longrightarrow> fleet_inv syncs x \<Longrightarrow> fleet_inv syncs y"
  by (induction rule: fleet_reach.induct) (auto dest: fleet_inv_step)

section \<open>Progress\<close>

definition mainRank :: "mainPc \<Rightarrow> nat" where
  "mainRank m = (case m of M_work \<Rightarrow> 2 | M_wait \<Rightarrow> 1 | M_ended \<Rightarrow> 0)"

definition fleet_rank :: "fleet \<Rightarrow> nat" where
  "fleet_rank y = mainRank (f_main y) + sum_list (map rank (f_workers y))"

text \<open>Where every thread is.\<close>

definition positions :: "fleet \<Rightarrow> mainPc \<times> (callerPc \<times> runnerPc) list" where
  "positions y = (f_main y, map (\<lambda>w. (v_caller w, v_runner w)) (f_workers y))"

definition busy :: "worker \<Rightarrow> bool" where
  "busy w \<longleftrightarrow> v_caller w \<noteq> P_done \<or> v_runner w \<in> {R_loop, R_end, R_clear}"

lemma worker_moves:
  assumes "worker_inv sync k s" and "busy s"
  shows "\<exists>t. worker_step True sync False s t \<and> rank t < rank s"
proof (cases "v_caller s = P_done")
  case True
  then have "v_runner s \<in> {R_loop, R_end, R_clear}" using assms(2) by (simp add: busy_def)
  then show ?thesis
    by (elim insertE emptyE)
      (rule exI, rule conjI, (rule worker_step.leave worker_step.ended worker_step.clear; assumption), simp add: rank_defs)+
qed (rule worker_progress [OF assms(1)])

lemma idle_runs: "worker_inv sync k s \<Longrightarrow> \<not> busy s \<Longrightarrow> runs s = 0"
  by (auto simp: worker_inv_def busy_def runs_def counted_def)

text \<open>When the working condition is off, a worker that moves comes nearer to its end.\<close>

lemma worker_ends:
  assumes "worker_step True sync False s t" and "worker_inv sync k s" and "\<not> v_workingCondition s"
  shows "v_caller t = v_caller s \<and> v_runner t = v_runner s \<or> rank t < rank s"
  using assms by (induction rule: worker_step.induct) (auto simp: rank_defs worker_inv_def split: callerPc.splits)

lemma rank_member [simp]: "rank (member y i) = rank (f_workers y ! i)"
  by (simp add: rank_def member_def)

lemma fleet_rank_moves:
  assumes "i < length (f_workers y)" and "rank w < rank (f_workers y ! i)"
  shows "fleet_rank (y\<lparr>f_workerNum := a, f_workingCondition := b, f_workers := (f_workers y)[i := w]\<rparr>) < fleet_rank y"
proof -
  have "rank (f_workers y ! i) \<le> sum_list (map rank (f_workers y))" using elem_le_sum_list [of i "map rank (f_workers y)"] assms(1) by simp
  then show ?thesis using assms by (simp add: fleet_rank_def map_update sum_list_update)
qed

lemma fleet_inv_member: "fleet_inv syncs y \<Longrightarrow> i < length (f_workers y) \<Longrightarrow> worker_inv (syncs ! i) (others y i) (member y i)"
  by (simp add: fleet_inv_def)

lemma busy_member [simp]: "busy (member y i) = busy (f_workers y ! i)"
  by (simp add: busy_def member_def)

lemma fleet_moves:
  assumes "fleet_inv syncs y" and "i < length (f_workers y)" and "busy (f_workers y ! i)"
  shows "\<exists>z. fleet_step syncs y z \<and> fleet_rank z < fleet_rank y \<and> f_main z = f_main y"
proof -
  obtain w where "worker_step True (syncs ! i) False (member y i) w" "rank w < rank (f_workers y ! i)"
    using worker_moves [OF fleet_inv_member [OF assms(1,2)]] assms(3) by auto
  then show ?thesis using fleet_step.moves [OF assms(2)] fleet_rank_moves [OF assms(2)] by fastforce
qed

lemma fleet_settles:
  "fleet_inv syncs y \<Longrightarrow> \<exists>z. fleet_reach syncs y z \<and> f_main z = f_main y \<and> running z = 0"
proof (induction "fleet_rank y" arbitrary: y rule: less_induct)
  case less
  show ?case
  proof (cases "\<exists>i < length (f_workers y). busy (f_workers y ! i)")
    case True
    then obtain z where z: "fleet_step syncs y z" "fleet_rank z < fleet_rank y" "f_main z = f_main y"
      using fleet_moves [OF less.prems] by blast
    then obtain x where "fleet_reach syncs z x" "f_main x = f_main z" "running x = 0"
      using less.hyps [OF z(2)] fleet_inv_step [OF z(1) less.prems] by blast
    then show ?thesis using z(3) fleet_reach_trans fleet_next [OF fleet_stay z(1)] by metis
  next
    case False
    have "runs (f_workers y ! i) = 0" if "i < length (f_workers y)" for i
      using idle_runs [OF fleet_inv_member [OF less.prems that]] False that by simp
    then have "running y = 0" by (auto simp: running_def in_set_conv_nth)
    then show ?thesis using fleet_stay by blast
  qed
qed

lemma running_bound: "running y \<le> length (f_workers y)"
proof -
  have "sum_list (map runs ws) \<le> length ws" for ws by (induction ws) (auto simp: runs_def)
  then show ?thesis by (simp add: running_def)
qed

lemma fleet_size: "fleet_reach syncs x y \<Longrightarrow> length (f_workers y) = length (f_workers x)"
  by (induction rule: fleet_reach.induct) (auto elim!: fleet_step.cases)

section \<open>Properties\<close>



end
