(* ===== verification/Group_Invariant.thy ===== *)
theory Group_Invariant
  imports Session
begin

text \<open>
  The containers of the groups: every attached node is in the container of its group, once, and
  nowhere else; no node of the pool's free list is in a container; and the iterator \<open>_pos\<close> is
  \<open>end()\<close> or points to an element, so that erasing a node never leaves it dangling.  With this,
  the turns of \<open>_rollingNode\<close> go round the container.
\<close>

section \<open>Frames\<close>

text \<open>Handlers that relate the state before and after by a preorder compose.\<close>

locale state_frame =
  fixes R :: "'r world \<Rightarrow> 'r world \<Rightarrow> bool"
  assumes frame_refl: "R w w" and frame_trans: "R w w1 \<Longrightarrow> R w1 w2 \<Longrightarrow> R w w2"
begin

lemma frame_bind:
  "\<forall>w. wp any_fault m (\<lambda>_. R w) w \<Longrightarrow> (\<And>x. \<forall>w. wp any_fault (f x) (\<lambda>_. R w) w) \<Longrightarrow>
   \<forall>w. wp any_fault (bindM m f) (\<lambda>_. R w) w"
  unfolding wp_bindM by (blast intro: wp_mono frame_trans)

lemma frame_for:
  "(\<And>x. \<forall>w. wp any_fault (f x) (\<lambda>_. R w) w) \<Longrightarrow> \<forall>w. wp any_fault (forM xs f) (\<lambda>_. R w) w"
proof (induction xs)
  case (Cons x xs)
  then show ?case unfolding forM.simps thenM_def by (intro frame_bind) auto
qed (simp add: wp_retM frame_refl)

lemma frame_reads:
  "wp any_fault (retM x) (\<lambda>_. R w) w" "wp any_fault (failM f) (\<lambda>_. R w) w" "wp any_fault (assertM b) (\<lambda>_. R w) w"
  "wp any_fault (getsM h) (\<lambda>_. R w) w" "wp any_fault (liftR r) (\<lambda>_. R w) w" "wp any_fault (getNode p) (\<lambda>_. R w) w"
  "wp any_fault (getTx p) (\<lambda>_. R w) w" "wp any_fault (groupOf p) (\<lambda>_. R w) w" "wp any_fault (getGroup g) (\<lambda>_. R w) w"
  using frame_refl by (simp_all add: wp_simps split: option.splits sum.splits)

end

section \<open>What most handlers leave alone\<close>

definition members :: "'r world \<Rightarrow> (ub8_ list \<times> ub8_ option) list" where
  "members w = map (\<lambda>x. (g_container x, g_pos x)) (w_groups w)"

lemma length_members [simp]: "length (members w) = length (w_groups w)"
  by (simp add: members_def)

definition nodeGroup :: "'r world \<Rightarrow> ub8_ \<Rightarrow> nat option" where
  "nodeGroup w p = (case w_nodes w p of None \<Rightarrow> None | Some n \<Rightarrow> n_group n)"

definition steady :: "'r world \<Rightarrow> 'r world \<Rightarrow> bool" where
  "steady w w' \<longleftrightarrow> members w' = members w \<and> nodeGroup w' = nodeGroup w \<and> w_res w' = w_res w"

definition calm :: "('r, 'a) handler \<Rightarrow> bool" where
  "calm m \<longleftrightarrow> (\<forall>w. wp any_fault m (\<lambda>_. steady w) w)"

interpretation st: state_frame steady
  by unfold_locales (simp_all add: steady_def)

named_theorems calm_intros \<open>handlers that leave the containers alone\<close>

lemma calm_bind [calm_intros]: "calm m \<Longrightarrow> (\<And>x. calm (f x)) \<Longrightarrow> calm (bindM m f)"
  unfolding calm_def by (rule st.frame_bind)

lemma calm_then [calm_intros]: "calm m \<Longrightarrow> calm k \<Longrightarrow> calm (thenM m k)"
  unfolding thenM_def by (rule calm_bind)

lemma calm_reads [calm_intros]:
  "calm (retM x)" "calm (failM f)" "calm (assertM b)" "calm (getsM h)" "calm (liftR r)" "calm (getNode p)" "calm (getTx p)"
  "calm (groupOf p)" "calm (getGroup g)"
  by (simp_all add: calm_def st.frame_reads)

lemma calm_if [calm_intros]: "calm m \<Longrightarrow> calm k \<Longrightarrow> calm (if b then m else k)"
  by simp

lemma calm_io [calm_intros]: "(\<And>bs. calm (f bs)) \<Longrightarrow> (\<And>x. calm (h x)) \<Longrightarrow> calm (case r of Got bs \<Rightarrow> f bs | Failed x \<Rightarrow> h x)"
  by (cases r) simp_all

lemma steady_core: "same_core w w' \<Longrightarrow> steady w w'"
proof -
  assume sc: "same_core w w'"
  have "map ((\<lambda>(q, b, c, p). (c, p)) \<circ> g_fixed) (w_groups w') = map ((\<lambda>(q, b, c, p). (c, p)) \<circ> g_fixed) (w_groups w)"
    using sc unfolding same_core_def by (simp flip: map_map)
  moreover have "nodeGroup w' = nodeGroup w" using sc by (simp add: same_core_def nodeGroup_def fun_eq_iff)
  ultimately show ?thesis using sc by (simp add: steady_def members_def same_core_def comp_def g_fixed_def)
qed

lemma steady_handled: "handled p w w' \<Longrightarrow> steady w w'"
proof -
  assume h: "handled p w w'"
  have "map ((\<lambda>(q, b, c, p). (c, p)) \<circ> g_fixed) (w_groups w') = map ((\<lambda>(q, b, c, p). (c, p)) \<circ> g_fixed) (w_groups w)"
    using h unfolding handled_def by (simp flip: map_map)
  moreover have "nodeGroup w' q = nodeGroup w q" for q
  proof (cases "q = p")
    case True
    obtain n n' where n: "w_nodes w p = Some n" "w_nodes w' p = Some n'" "n_fixed n' = n_fixed n"
      using h by (auto simp: handled_def)
    from n(3) have "n_group (n_fixed n') = n_group (n_fixed n)" by simp
    then show ?thesis using n True by (simp add: nodeGroup_def n_fixed_def)
  qed (use h in \<open>simp add: handled_def nodeGroup_def\<close>)
  ultimately show ?thesis using h by (auto simp: steady_def members_def handled_def comp_def g_fixed_def fun_eq_iff)
qed

lemma calm_core: "core_only m \<Longrightarrow> calm m"
  unfolding calm_def core_only_def by (blast intro: wp_mono steady_core)

lemma calm_updNode: "(\<And>n. n_group (f n) = n_group n) \<Longrightarrow> calm (updNode p f)"
  by (auto simp: calm_def wp_simps steady_def members_def nodeGroup_def fun_eq_iff split: option.splits)

lemma calm_updTx [calm_intros]: "calm (updTx p f)"
  unfolding updTx_def by (rule calm_updNode) simp

lemma members_update: "g < length (w_groups w) \<Longrightarrow>
    members (w\<lparr>w_groups := (w_groups w)[g := x]\<rparr>) = (members w)[g := (g_container x, g_pos x)]"
  by (simp add: members_def map_update)

lemma steady_group:
  assumes "g_container x = g_container (w_groups w ! g)" and "g_pos x = g_pos (w_groups w ! g)"
  shows "steady w (w\<lparr>w_groups := (w_groups w)[g := x]\<rparr>)"
proof (cases "g < length (w_groups w)")
  case True
  have "(members w)[g := (g_container x, g_pos x)] = members w"
    using assms True by (intro list_update_same_conv [THEN iffD2]) (simp_all add: members_def)
  then show ?thesis using True by (simp add: steady_def members_update nodeGroup_def fun_eq_iff)
qed (simp add: steady_def list_update_beyond)

lemma calm_updGroup: "(\<And>x. g_container (f x) = g_container x \<and> g_pos (f x) = g_pos x) \<Longrightarrow> calm (updGroup g f)"
  by (simp add: calm_def wp_simps steady_group)

lemma calm_env [calm_intros]:
  "calm (sysClose fd)" "calm (updM (\<lambda>w. w\<lparr>w_nodeQueue := nq w\<rparr>))" "calm (updM (\<lambda>w. w\<lparr>w_accepts := ac w\<rparr>))"
  "calm (updM (\<lambda>w. w\<lparr>w_curGroupIndex := ci w\<rparr>))" "calm epollCtl" "calm (sysRead fd n)" "calm gettimeofday" "calm CBase_now"
  "calm (setTimerM per pI pII k)" "calm (killTimerM u)"
  by (auto simp: calm_def sysClose_def epollCtl_def sysRead_def updM_def wp_def steady_def members_def nodeGroup_def fun_eq_iff
      gettimeofday_def CBase_now_def bindM_def thenM_def getsM_def retM_def setTimerM_def killTimerM_def bindR_def
      split: list.splits recvEvent.splits if_splits sum.splits)

lemma calm_putMessage [calm_intros]: "calm (CNodeGroup_putMessage g msg)"
  unfolding CNodeGroup_putMessage_def split_def by (intro calm_intros calm_updGroup) simp

lemma calm_over [calm_intros]: "calm (CTransaction_over e p r True)"
  unfolding CTransaction_over_def Let_def if_True by (intro calm_intros)

lemma calm_onTimer [calm_intros]: "calm (CTransactionManager_onTimer e u p par)"
  unfolding CTransactionManager_onTimer_def by (intro calm_intros)

lemma steady_node: "w_nodes w p = Some n \<Longrightarrow> n_group n' = n_group n \<Longrightarrow> steady w (w\<lparr>w_nodes := (w_nodes w)(p \<mapsto> n')\<rparr>)"
  by (auto simp: steady_def members_def nodeGroup_def fun_eq_iff)

lemma wp_calm: "calm m \<Longrightarrow> steady w0 w \<Longrightarrow> wp any_fault m (\<lambda>_. steady w0) w"
  unfolding calm_def by (blast intro: wp_mono st.frame_trans)

lemma calm_recvDeliver [calm_intros]: "calm (recvDeliver p)"
  unfolding recvDeliver_def by (intro calm_intros calm_updNode) simp_all

lemma calm_recvBytes [calm_intros]: "calm (recvBytes p bs :: ('r, bool) handler)"
proof -
  have "wp any_fault (recvDeliver p) (\<lambda>_. steady w) (w\<lparr>w_nodes := (w_nodes w)(p \<mapsto> n')\<rparr>)" "steady w (w\<lparr>w_nodes := (w_nodes w)(p \<mapsto> n')\<rparr>)"
    if "w_nodes w p = Some n" "n_group n' = n_group n" for w :: "'r world" and n n'
    using wp_calm [OF calm_recvDeliver steady_node [OF that]] steady_node [OF that] by simp_all
  then show ?thesis
    by (auto simp: calm_def recvBytes_def Let_def wp_simps split: option.splits sum.splits)
qed

lemma calm_recv [calm_intros]: "calm (CNode_recv p :: ('r, bool) handler)"
proof -
  have "calm (recvLoop k p :: ('r, bool) handler)" for k
  proof (induction k)
    case (Suc k)
    then show ?case unfolding recvLoop.simps CNode_handleRecvErrors_def by (intro calm_intros)
  qed (simp add: calm_intros)
  then show ?thesis unfolding CNode_recv_def by (intro calm_intros)
qed

lemma steady_timerThread:
  fixes e :: "'r env"
  assumes "tm_ok (w_timers w)"
  shows "wp any_fault (CTransactionManager_working e) (\<lambda>_. steady w) w"
proof -
  have "steady w (w'\<lparr>w_timers := m'\<rparr>)"
    if r: "CTimerManager_working (CTransactionManager_onTimer e) tv (w_timers w) (w\<lparr>w_ticks := k\<rparr>) = Inr (go, m', w')"
    for tv k go m' w'
  proof -
    have t: "steady w (w\<lparr>w_ticks := k\<rparr>)" by (simp add: steady_def members_def nodeGroup_def fun_eq_iff)
    have "steady w w'" if "CTransactionManager_onTimer e u pI pII (w\<lparr>w_ticks := k\<rparr>) = Inr (again, w')" for u pI pII again
      using wp_calm [OF calm_onTimer t, of e u pI pII] that by (simp add: wp_def)
    then have "steady w w'" using working_partial [OF assms r] t by blast
    then show ?thesis by (simp add: steady_def members_def nodeGroup_def fun_eq_iff)
  qed
  then show ?thesis
    unfolding CTransactionManager_working_def wp_bindM wp_gettimeofday
    by (auto simp: wp_def bindR_def split: sum.splits)
qed

section \<open>The invariant of the containers\<close>

definition slot_ok :: "'r world \<Rightarrow> nat \<Rightarrow> ub8_ list \<times> ub8_ option \<Rightarrow> bool" where
  "slot_ok w g m \<longleftrightarrow>
     distinct (fst m) \<and> (\<forall>p \<in> set (fst m). nodeGroup w p = Some g \<and> p \<notin> set (freeDeque (w_res w))) \<and>
     set_option (snd m) \<subseteq> set (fst m)"

definition grp_inv :: "'r world \<Rightarrow> bool" where
  "grp_inv w \<longleftrightarrow> (\<forall>g < length (members w). slot_ok w g (members w ! g))"

definition outside :: "'r world \<Rightarrow> ub8_ \<Rightarrow> bool" where
  "outside w p \<longleftrightarrow> (\<forall>(c, q) \<in> set (members w). p \<notin> set c)"

lemma grp_inv_steady: "steady w w' \<Longrightarrow> grp_inv w' = grp_inv w"
  by (simp add: steady_def grp_inv_def slot_ok_def)

lemma outside_steady: "steady w w' \<Longrightarrow> outside w' p = outside w p"
  by (simp add: steady_def outside_def)

lemma outside_iff: "outside w p \<longleftrightarrow> (\<forall>g < length (members w). p \<notin> set (fst (members w ! g)))"
  unfolding outside_def split_def by (simp add: all_set_conv_all_nth)

lemma free_outside: "grp_inv w \<Longrightarrow> p \<in> set (freeDeque (w_res w)) \<Longrightarrow> outside w p"
  by (fastforce simp: outside_iff grp_inv_def slot_ok_def)

lemma grp_inv_outside:
  assumes "grp_inv w" and "outside w p" and "members w' = members w" and "\<And>q. q \<noteq> p \<Longrightarrow> nodeGroup w' q = nodeGroup w q"
    and "set (freeDeque (w_res w')) \<subseteq> insert p (set (freeDeque (w_res w)))"
  shows "grp_inv w'"
proof -
  have "slot_ok w' g (members w ! g)" if g: "g < length (members w)" for g
  proof -
    have "p \<notin> set (fst (members w ! g))" using assms(2) g by (simp add: outside_iff)
    then have "q \<noteq> p" if "q \<in> set (fst (members w ! g))" for q using that by blast
    then show ?thesis using assms(1,4,5) g by (fastforce simp: grp_inv_def slot_ok_def)
  qed
  then show ?thesis using assms(3) by (simp add: grp_inv_def)
qed

definition keepsg :: "('r, 'a) handler \<Rightarrow> bool" where
  "keepsg m \<longleftrightarrow> (\<forall>w. sys_inv w \<longrightarrow> grp_inv w \<longrightarrow> wp any_fault m (\<lambda>_ w'. sys_inv w' \<and> grp_inv w') w)"

lemma wp_conj: "wp F m P w \<Longrightarrow> wp F m Q w \<Longrightarrow> wp F m (\<lambda>x w'. P x w' \<and> Q x w') w"
  by (auto simp: wp_def split: sum.splits)

named_theorems keepsg_intros \<open>handlers that keep the invariants of the server and of the containers\<close>

lemma keepsg_bind [keepsg_intros]: "keepsg m \<Longrightarrow> (\<And>x. keepsg (f x)) \<Longrightarrow> keepsg (bindM m f)"
  unfolding keepsg_def wp_bindM by (blast intro: wp_mono)

lemma keepsg_then [keepsg_intros]: "keepsg m \<Longrightarrow> keepsg k \<Longrightarrow> keepsg (thenM m k)"
  unfolding thenM_def by (rule keepsg_bind)

lemma keepsg_if [keepsg_intros]: "keepsg m \<Longrightarrow> keepsg k \<Longrightarrow> keepsg (if b then m else k)"
  by simp

lemma wp_steady:
  assumes "keeps m" and "sys_inv w" and "grp_inv w" and "wp any_fault m (\<lambda>_. steady w) w"
  shows "wp any_fault m (\<lambda>_ w'. sys_inv w' \<and> grp_inv w') w"
proof -
  have "wp any_fault m (\<lambda>_. sys_inv) w" using assms(1,2) by (simp add: keeps_def)
  then show ?thesis
    by (rule wp_mono [OF wp_conj [OF _ assms(4)]]) (use grp_inv_steady assms(3) in auto)
qed

lemma keepsg_steady:
  "keeps m \<Longrightarrow> (\<And>w. sys_inv w \<Longrightarrow> wp any_fault m (\<lambda>_. steady w) w) \<Longrightarrow> keepsg m"
  by (simp add: keepsg_def wp_steady)

lemma keepsg_calm: "keeps m \<Longrightarrow> calm m \<Longrightarrow> keepsg m"
  by (simp add: keepsg_steady calm_def)

lemma keepsg_reads [keepsg_intros]:
  "keepsg (retM x)" "keepsg (failM f)" "keepsg (assertM b)" "keepsg (getsM h)" "keepsg epollCtl" "keepsg (sysClose fd)"
  "keepsg (updM (\<lambda>w. w\<lparr>w_nodeQueue := nq w\<rparr>))" "keepsg (CNode_recv p)" "keepsg (CTransaction_over e p r True)"
  by (intro keepsg_calm keeps_intros calm_intros)+

lemma keepsg_for [keepsg_intros]: "(\<And>x. keepsg (f x)) \<Longrightarrow> keepsg (forM xs f)"
  by (induction xs) (auto intro!: keepsg_intros)

lemma keepsg_timerThread [keepsg_intros]: "keepsg (CTransactionManager_working e)"
  by (intro keepsg_steady keeps_intros steady_timerThread) (auto dest: sys_invD(1) simp: sv_inv_def)

section \<open>The group's thread\<close>

lemma steady_dispatch:
  fixes e :: "'r env"
  assumes inv: "sys_inv w" and buf: "length buf = MSG_MAX_LENGTH"
  shows "wp any_fault (dispatch e buf) (\<lambda>_. steady w) w"
proof -
  let ?p = "hd_ext (THeader_at buf)"
  let ?k = "\<lambda>ok. if ok then retM () else bindM (getTx ?p) (\<lambda>t1.
         thenM (assertM (t_status t1 = OVER)) (CTrafficManager_recycleNode ?p))"
  have k: "calm (?k ok :: ('r, unit) handler)" for ok unfolding CTrafficManager_recycleNode_def by (intro calm_intros)
  have "wp any_fault (bindM (CTransaction_onMessage e ?p buf) ?k) (\<lambda>_. steady w) w" if n: "w_nodes w ?p = Some n" for n
    unfolding wp_bindM
    by (rule wp_mono [OF onMessage_good [OF sys_invD(1) [OF inv] n buf]])
      (intro wp_calm k, auto simp: good_def intro: steady_handled)
  then show ?thesis
    by (auto simp: dispatch_def wp_simps Let_def st.frame_refl split: option.splits)
qed

lemma keepsg_rollingQueue [keepsg_intros]: "keepsg (CNodeGroup_rollingQueue e g)"
proof (rule keepsg_steady [OF keeps_rollingQueue], goal_cases)
  case (1 w)
  note inv = this
  show ?case
  proof (cases "g < length (w_groups w)")
    case True
    then obtain ms where f: "framed w ms (w_groups w ! g)" using sys_invD(5) [OF inv] by blast
    show ?thesis
    proof (cases ms)
      case Nil
      then show ?thesis using rollingQueue_idle [OF True, of e] f by (simp add: wp_def st.frame_refl)
    next
      case (Cons m ms')
      show ?thesis
      proof (rule wp_rollingQueue [OF True f [unfolded Cons]])
        fix q x
        assume x: "x = (w_groups w ! g)\<lparr>g_buffer := overwrite (g_buffer (w_groups w ! g)) 0 m, g_queue := q\<rparr>" and fx: "framed w ms' x"
        have "steady w (w\<lparr>w_groups := (w_groups w)[g := x]\<rparr>)" by (rule steady_group) (simp_all add: x)
        moreover have "length (g_buffer x) = MSG_MAX_LENGTH" using fx by (simp add: framed_def)
        ultimately show "wp any_fault (dispatch e (g_buffer x)) (\<lambda>_. steady w) (w\<lparr>w_groups := (w_groups w)[g := x]\<rparr>)"
          using steady_dispatch [OF sys_group [OF inv fx]] by (blast intro: wp_mono st.frame_trans)
      qed
    qed
  qed (simp add: CNodeGroup_rollingQueue_def wp_simps)
qed

lemma steady_checkNode:
  assumes inv: "sys_inv w"
  shows "wp any_fault (checkNode e p) (\<lambda>_. steady w) w"
proof -
  have "wp any_fault (CTransaction_onCheck e p) (\<lambda>_. steady w) w"
    if "w_nodes w p = Some n" "t_status (n_transaction n) = READY" for n
    by (rule wp_mono [OF onCheck_kept [OF sys_invD(1) [OF inv] that]]) (auto simp: kept_def steady_handled)
  then show ?thesis by (auto simp: checkNode_def wp_simps st.frame_refl split: option.splits)
qed

lemma succIn_in: "succIn xs p = Some q \<Longrightarrow> q \<in> set xs"
  by (induction xs) (auto split: if_splits list.splits)

lemma succIn_neq: "distinct xs \<Longrightarrow> succIn xs p \<noteq> Some p"
  by (induction xs) (auto split: list.splits dest: succIn_in)

lemma grp_inv_update:
  assumes "grp_inv w" and "g < length (w_groups w)" and "slot_ok w g (g_container x, g_pos x)"
  shows "grp_inv (w\<lparr>w_groups := (w_groups w)[g := x]\<rparr>)"
proof -
  have "slot_ok (w\<lparr>w_groups := gs\<rparr>) = slot_ok w" for gs by (simp add: slot_ok_def nodeGroup_def fun_eq_iff)
  then show ?thesis using assms by (simp add: grp_inv_def members_update nth_list_update)
qed

lemma grp_invD: "grp_inv w \<Longrightarrow> g < length (w_groups w) \<Longrightarrow> slot_ok w g (g_container (w_groups w ! g), g_pos (w_groups w ! g))"
  by (simp add: grp_inv_def members_def)

lemma keepsg_rollingNode [keepsg_intros]: "keepsg (CNodeGroup_rollingNode e g)"
  unfolding keepsg_def
proof (intro allI impI)
  fix w :: "'a world" assume inv: "sys_inv w" and gi: "grp_inv w"
  let ?x = "w_groups w ! g"
  have k: "wp any_fault (checkNode e p) (\<lambda>_ w'. sys_inv w' \<and> grp_inv w') (w\<lparr>w_groups := (w_groups w)[g := ?x\<lparr>g_pos := succIn (g_container ?x) p\<rparr>]\<rparr>)"
    (is "wp _ _ _ ?w") if g: "g < length (w_groups w)" for p
  proof -
    obtain ms where "framed w ms ?x" using sys_invD(5) [OF inv g] by blast
    then have i: "sys_inv ?w" by (intro sys_group [OF inv]) (rule framed_pos)
    have "grp_inv ?w" using grp_invD [OF gi g] by (intro grp_inv_update [OF gi g]) (auto simp: slot_ok_def dest: succIn_in)
    then show ?thesis by (intro wp_steady keeps_intros i steady_checkNode)
  qed
  show "wp any_fault (CNodeGroup_rollingNode e g) (\<lambda>_ w'. sys_inv w' \<and> grp_inv w') w"
    using k inv gi by (cases "g < length (w_groups w)"; cases "g_container ?x")
      (simp_all add: CNodeGroup_rollingNode_def Let_def wp_simps)
qed

lemma keepsg_working [keepsg_intros]: "keepsg (CNodeGroup_working e g)"
  unfolding CNodeGroup_working_def by (intro keepsg_intros)

section \<open>Attaching and detaching\<close>

lemma nodeGroup_upd: "nodeGroup (w\<lparr>w_nodes := (w_nodes w)(p \<mapsto> n)\<rparr>) = (nodeGroup w)(p := n_group n)"
  by (simp add: nodeGroup_def fun_eq_iff)

lemma members_nodes [simp]: "members (w\<lparr>w_nodes := ns\<rparr>) = members w"
  by (simp add: members_def)

lemma outside_nodes [simp]: "outside (w\<lparr>w_nodes := ns\<rparr>) p = outside w p"
  by (simp add: outside_def)

lemma slot_ok_push:
  "slot_ok w g (c, q) \<Longrightarrow> p \<notin> set c \<Longrightarrow> nodeGroup w p = Some g \<Longrightarrow> p \<notin> set (freeDeque (w_res w)) \<Longrightarrow> slot_ok w g (c @ [p], q)"
  by (auto simp: slot_ok_def)

lemma slot_ok_remove:
  "slot_ok w g (c, Some q) \<Longrightarrow> slot_ok w g (removeAll p c, if q = p then succIn c q else Some q)"
  using succIn_neq [of c p] by (auto simp: slot_ok_def distinct_removeAll dest: succIn_in)

lemma attach_grp:
  fixes w :: "'r world"
  assumes gi: "grp_inv w" and p: "outside w p" "p \<notin> set (freeDeque (w_res w))"
  shows "wp any_fault (CNodeGroup_attach e g p ip port fd) (\<lambda>ok w'. grp_inv w' \<and> (ok \<longrightarrow> nodeGroup w' p = Some g)) w"
proof -
  have push: "wp any_fault (updGroup g (\<lambda>x. x\<lparr>g_container := g_container x @ [p]\<rparr>)) (\<lambda>_ w'. grp_inv w' \<and> nodeGroup w' p = Some g) w1"
    if "steady w0 w1" "grp_inv w0" "outside w0 p" "p \<notin> set (freeDeque (w_res w0))" "nodeGroup w0 p = Some g" for w0 w1 :: "'r world"
  proof -
    have w1: "grp_inv w1" "outside w1 p" "p \<notin> set (freeDeque (w_res w1))" "nodeGroup w1 p = Some g"
      using that grp_inv_steady [OF that(1)] outside_steady [OF that(1)] by (simp_all add: steady_def)
    have "p \<notin> set (g_container (w_groups w1 ! g))" if "g < length (w_groups w1)"
      using w1(2) that by (simp add: outside_iff members_def)
    moreover have "nodeGroup (w1\<lparr>w_groups := gs\<rparr>) p = Some g" for gs using w1(4) by (simp add: nodeGroup_def)
    ultimately show ?thesis
      using w1 grp_invD [OF w1(1)] slot_ok_push [OF _ _ w1(4,3)] by (simp add: wp_simps grp_inv_update)
  qed
  have conn: "calm (if b then thenM (CRedisOperator_connect e g) (retM ()) else retM () :: ('r, unit) handler)" for b
    by (intro calm_intros calm_core core_intros)
  have tail: "wp any_fault (if \<not> ok then retM False else
          bindM (getGroup g) (\<lambda>x.
          thenM (if g_container x = [] then thenM (CRedisOperator_connect e g) (retM ()) else retM ())
          (thenM (updGroup g (\<lambda>x. x\<lparr>g_container := g_container x @ [p]\<rparr>)) (retM True))))
        (\<lambda>ok w'. grp_inv w' \<and> (ok \<longrightarrow> nodeGroup w' p = Some g)) w1"
    if st: "steady w0 w1" and w0: "grp_inv w0" "outside w0 p" "p \<notin> set (freeDeque (w_res w0))" "nodeGroup w0 p = Some g"
    for w0 w1 :: "'r world" and ok
  proof -
    have "wp any_fault (if b then thenM (CRedisOperator_connect e g) (retM ()) else retM ())
       (\<lambda>_. wp any_fault (updGroup g (\<lambda>x. x\<lparr>g_container := g_container x @ [p]\<rparr>)) (\<lambda>_ w'. grp_inv w' \<and> nodeGroup w' p = Some g)) w1" for b
      by (rule wp_mono [OF wp_calm [OF conn st]]) (rule push [OF _ w0])
    then show ?thesis using grp_inv_steady [OF st] w0(1) by (simp add: wp_bindM wp_thenM wp_retM wp_getGroup)
  qed
  have at: "calm (CTransaction_onAttach e p :: ('r, bool) handler)"
    unfolding CTransaction_onAttach_def by (intro calm_intros)
  show ?thesis
  proof (cases "w_nodes w p")
    case (Some n)
    let ?n = "n\<lparr>n_group := Some g, n_recvOffset := 0, n_recvDueSize := 0,
              n_ip := strncpy (n_ip n) ip Length_IP_V4, n_port := port, n_fd := fd\<rparr>"
    let ?w = "w\<lparr>w_nodes := (w_nodes w)(p \<mapsto> ?n)\<rparr>"
    have "grp_inv ?w" by (rule grp_inv_outside [OF gi p(1)]) (auto simp: nodeGroup_upd)
    then have w: "grp_inv ?w" "outside ?w p" "p \<notin> set (freeDeque (w_res ?w))" "nodeGroup ?w p = Some g"
      using p by (simp_all add: nodeGroup_upd)
    show ?thesis
      unfolding CNodeGroup_attach_def CNode_onAttach_def wp_thenM wp_bindM wp_assertM wp_updNode Some option.case
      using wp_mono [OF wp_calm [OF at st.frame_refl, of ?w] tail [OF _ w]] by (simp split: if_splits)
  qed (simp add: CNodeGroup_attach_def CNode_onAttach_def wp_simps)
qed

lemma detach_grp:
  fixes w :: "'r world"
  assumes gi: "grp_inv w" and p: "nodeGroup w p = Some g"
  shows "wp any_fault (CNodeGroup_detach e g p) (\<lambda>_ w'. grp_inv w' \<and> outside w' p) w"
proof -
  have det: "calm (CTransaction_onDetach p :: ('r, unit) handler)"
    unfolding CTransaction_onDetach_def by (intro calm_intros)
  have on: "wp any_fault (CNode_onDetach p) (\<lambda>_ w'. grp_inv w' \<and> outside w' p) w1"
    if st: "steady w0 w1" and w0: "grp_inv w0" "outside w0 p" for w0 w1 :: "'r world"
  proof -
    have "wp any_fault (updNode p (\<lambda>n. n\<lparr>n_fd := 0, n_port := 0, n_ip := zeros Size_IP_V4, n_recvOffset := 0,
         n_recvDueSize := 0, n_group := None\<rparr>)) (\<lambda>_ w'. grp_inv w' \<and> outside w' p) w2" if s2: "steady w0 w2" for w2 :: "'r world"
    proof -
      have w2: "grp_inv w2" "outside w2 p" using grp_inv_steady [OF s2] outside_steady [OF s2] w0 by simp_all
      have "grp_inv (w2\<lparr>w_nodes := (w_nodes w2)(p \<mapsto> n)\<rparr>)" for n
        by (rule grp_inv_outside [OF w2]) (auto simp: nodeGroup_upd)
      then show ?thesis using w2(2) by (simp add: wp_simps split: option.splits)
    qed
    then show ?thesis unfolding CNode_onDetach_def wp_thenM by (rule wp_mono [OF wp_calm [OF det st]])
  qed
  have dis: "wp any_fault (if b then CRedisOperator_disconnect e g else retM ()) (\<lambda>_. wp any_fault (CNode_onDetach p) (\<lambda>_ w'. grp_inv w' \<and> outside w' p)) w1"
    if "grp_inv w1" "outside w1 p" for w1 :: "'r world" and b
    by (rule wp_mono [OF wp_calm [OF _ st.frame_refl]]) (auto intro!: calm_intros calm_core core_disconnect on [OF _ that])
  show ?thesis
  proof (cases "g < length (w_groups w)")
    case True
    let ?x = "w_groups w ! g"
    have "wp any_fault (if b then CRedisOperator_disconnect e g else retM ()) (\<lambda>_. wp any_fault (CNode_onDetach p) (\<lambda>_ w'. grp_inv w' \<and> outside w' p))
        (w\<lparr>w_groups := (w_groups w)[g := ?x\<lparr>g_pos := (if q = p then succIn (g_container ?x) q else Some q), g_container := removeAll p (g_container ?x)\<rparr>]\<rparr>)"
      (is "wp _ _ _ ?w") if q: "g_pos ?x = Some q" for q b
    proof (rule dis)
      show "grp_inv ?w"
        using slot_ok_remove [of w g "g_container ?x" q p] grp_invD [OF gi True] q by (intro grp_inv_update [OF gi True]) simp
      have "p \<notin> set (fst (members w ! g'))" if "g' < length (w_groups w)" "g' \<noteq> g" for g'
        using gi p that by (auto simp: grp_inv_def slot_ok_def)
      then show "outside ?w p" using True by (auto simp: outside_iff members_update nth_list_update)
    qed
    then show ?thesis using True
      by (cases "g_pos ?x") (simp_all add: CNodeGroup_detach_def wp_assertM wp_bindM wp_thenM wp_getGroup wp_failM wp_updGroup)
  qed (simp add: CNodeGroup_detach_def wp_simps)
qed

section \<open>The traffic manager\<close>

lemma outside_env [simp]:
  "outside (w\<lparr>w_res := r\<rparr>) p = outside w p" "outside (w\<lparr>w_curGroupIndex := i\<rparr>) p = outside w p" "nodeGroup (w\<lparr>w_res := r\<rparr>) = nodeGroup w"
  by (simp_all add: outside_def members_def nodeGroup_def fun_eq_iff)

lemma grp_inv_res:
  "grp_inv w \<Longrightarrow> outside w p \<Longrightarrow> set (freeDeque r) \<subseteq> insert p (set (freeDeque (w_res w))) \<Longrightarrow> grp_inv (w\<lparr>w_res := r\<rparr>)"
  by (erule grp_inv_outside) (simp_all add: members_def)

lemma grp_inv_index [simp]: "grp_inv (w\<lparr>w_curGroupIndex := i\<rparr>) = grp_inv w"
  by (rule grp_inv_steady) (simp add: steady_def members_def nodeGroup_def fun_eq_iff)

text \<open>\<open>reclaim\<close> puts the unit at the end of the free units, if at all.\<close>

lemma reclaim_free: "CResource_reclaim r p = Inr (ok, r') \<Longrightarrow> set (freeDeque r') \<subseteq> insert p (set (freeDeque r))"
  by (auto simp: CResource_reclaim_def assertR_def Let_def split: if_splits)

lemma allocate_free: "CResource_allocate r = Inr (p, r') \<Longrightarrow> set (freeDeque r') \<subseteq> set (freeDeque r)"
  by (auto simp: CResource_allocate_def assertR_def Let_def split: if_splits list.splits)

lemma keepsg_delNode [keepsg_intros]: "keepsg (CTrafficManager_delNode e p)"
  unfolding keepsg_def
proof (intro allI impI)
  fix w :: "'a world" assume inv: "sys_inv w" and gi: "grp_inv w"
  have "wp any_fault (CTrafficManager_delNode e p) (\<lambda>_. grp_inv) w"
  proof (cases "w_nodes w p")
    case (Some n)
    have "wp any_fault (thenM (CNodeGroup_detach e g p) (reclaimNode p)) (\<lambda>_. grp_inv) w1"
      if "grp_inv w1" "nodeGroup w1 p = Some g" for w1 :: "'a world" and g
      unfolding wp_thenM
      by (rule wp_mono [OF detach_grp [OF that]])
        (auto simp: reclaimNode_def wp_simps split: sum.splits dest!: reclaim_free intro: grp_inv_res)
    then have grp: "wp any_fault (bindM (groupOf p) (\<lambda>g. thenM (CNodeGroup_detach e g p) (reclaimNode p))) (\<lambda>_. grp_inv) w1"
      if "grp_inv w1" for w1 :: "'a world"
      using that by (simp add: wp_bindM wp_groupOf nodeGroup_def split: option.splits)
    have "wp any_fault (thenM epollCtl (sysClose fd)) (\<lambda>_. steady w) w" for fd
      by (intro wp_calm [OF _ st.frame_refl] calm_intros)
    then have "wp any_fault (thenM epollCtl (thenM (sysClose fd) (bindM (groupOf p) (\<lambda>g. thenM (CNodeGroup_detach e g p) (reclaimNode p)))))
        (\<lambda>_. grp_inv) w" for fd
      using grp grp_inv_steady gi unfolding wp_thenM by (blast intro: wp_mono)
    then show ?thesis using Some gi by (simp add: CTrafficManager_delNode_def wp_bindM wp_getNode wp_retM)
  qed (simp add: CTrafficManager_delNode_def wp_simps)
  then show "wp any_fault (CTrafficManager_delNode e p) (\<lambda>_ w'. sys_inv w' \<and> grp_inv w') w"
    using keeps_delNode [of e p] inv by (intro wp_conj) (simp_all add: keeps_def)
qed

lemma keepsg_delNodes [keepsg_intros]: "keepsg (delNodes e ps)"
  by (induction ps) (auto intro!: keepsg_intros)

lemma attach_keeps:
  fixes w :: "'r world"
  assumes inv: "sys_inv w" "grp_inv w" and f: "freeDeque (w_res w) = p # us" and r: "CResource_allocate (w_res w) = Inr (q, r)"
  shows "wp any_fault (CNodeGroup_attach e g q ip port fd)
     (\<lambda>ok w'. sys_inv w' \<and> grp_inv w' \<and> (ok \<longrightarrow> nodeGroup w' q = Some g)) (w\<lparr>w_res := r, w_curGroupIndex := j\<rparr>)"
proof -
  have r': "q = p" "pool_wf r" "freeDeque r = us" "set (unitGroup r) = set (unitGroup (w_res w))"
    using res.alloc_first [OF sys_invD(2) [OF inv(1)] f] r by auto
  have np: "p \<notin> set us" using res.free_distinct [OF sys_invD(2) [OF inv(1)]] f by simp
  obtain n where n: "w_nodes w p = Some n" "n_transaction n = CTransaction_new"
    using sys_invD(4) [OF inv(1), of p] f by (auto simp: txs_def)
  have o: "outside w p" by (rule free_outside [OF inv(2)]) (simp add: f)
  have s: "sys_inv (w\<lparr>w_res := r\<rparr>)"
    by (rule sys_res [OF inv(1) r'(2,4)]) (use sys_invD(4) [OF inv(1)] f r' in auto)
  have gi: "grp_inv (w\<lparr>w_res := r\<rparr>)" by (rule grp_inv_res [OF inv(2) o]) (use f r'(3) in auto)
  have "wp any_fault (CNodeGroup_attach e g q ip port fd) (\<lambda>_. sys_inv) (w\<lparr>w_res := r, w_curGroupIndex := j\<rparr>)"
    by (rule attach_sys [of _ _ n]) (use s n r' np in simp_all)
  moreover have "wp any_fault (CNodeGroup_attach e g q ip port fd) (\<lambda>ok w'. grp_inv w' \<and> (ok \<longrightarrow> nodeGroup w' q = Some g))
      (w\<lparr>w_res := r, w_curGroupIndex := j\<rparr>)"
    by (rule attach_grp) (use gi o r' np in simp_all)
  ultimately show ?thesis by (rule wp_conj)
qed

lemma keepsg_addNodes [keepsg_intros]: "keepsg (addNodes e evs :: ('r, unit) handler)"
proof (induction evs)
  case (Cons ev rest)
  note IH = this
  show ?case
  proof (cases ev)
    case (Incoming ip port fd)
    have cl: "keepsg (sysClose fd :: ('r, unit) handler)" by (intro keepsg_intros)
    have tail: "wp any_fault (if \<not> ok then sysClose fd
            else bindM epollCtl (\<lambda>added. if \<not> added then CNodeGroup_detach e g p else addNodes e rest)) (\<lambda>_ w'. sys_inv w' \<and> grp_inv w') w"
      if "sys_inv w" "grp_inv w" "ok \<longrightarrow> nodeGroup w p = Some g" for ok g p and w :: "'r world"
    proof -
      have s: "grp_inv (w\<lparr>w_epollCtl := l\<rparr>) = grp_inv w" "nodeGroup (w\<lparr>w_epollCtl := l\<rparr>) = nodeGroup w" for l
        by (rule grp_inv_steady) (simp_all add: steady_def members_def nodeGroup_def fun_eq_iff)
      have "wp any_fault (CNodeGroup_detach e g p) (\<lambda>_ w'. sys_inv w' \<and> grp_inv w') (w\<lparr>w_epollCtl := l\<rparr>)" if ok: ok for l
        by (rule wp_mono [OF wp_conj [OF detach_sys detach_grp]]) (use that \<open>sys_inv w\<close> \<open>grp_inv w\<close> \<open>ok \<longrightarrow> nodeGroup w p = Some g\<close> s in auto)
      moreover have "wp any_fault (addNodes e rest) (\<lambda>_ w'. sys_inv w' \<and> grp_inv w') (w\<lparr>w_epollCtl := l\<rparr>)" for l
        using IH that s by (simp add: keepsg_def)
      moreover have "wp any_fault (sysClose fd) (\<lambda>_ w'. sys_inv w' \<and> grp_inv w') w"
        using cl that by (simp add: keepsg_def)
      ultimately show ?thesis by (simp add: wp_if wp_bindM wp_epollCtl)
    qed
    have "wp any_fault (bindM allocateNode (\<lambda>p.
          bindM (CTrafficManager_allocateGroup e) (\<lambda>g.
          bindM (CNodeGroup_attach e g p ip port fd) (\<lambda>ok.
            if \<not> ok then sysClose fd
            else bindM epollCtl (\<lambda>added. if \<not> added then CNodeGroup_detach e g p else addNodes e rest)))))
        (\<lambda>_ w'. sys_inv w' \<and> grp_inv w') w"
      if inv: "sys_inv w" "grp_inv w" and nz: "CResource_size (w_res w) \<noteq> 0" for w :: "'r world"
    proof -
      obtain p us where f: "freeDeque (w_res w) = p # us"
        using nz size_zero_iff [OF sys_invD(2) [OF inv(1)]] by (cases "freeDeque (w_res w)") auto
      show ?thesis
        using wp_mono [OF attach_keeps [OF inv f] tail]
        by (auto simp: allocateNode_def CTrafficManager_allocateGroup_def wp_bindM wp_getsM wp_liftR wp_thenM wp_retM wp_updM Let_def
            split: sum.splits)
    qed
    moreover have a: "sys_inv w = sys_inv (w\<lparr>w_accepts := rest\<rparr>)" "grp_inv (w\<lparr>w_accepts := rest\<rparr>) = grp_inv w" for w :: "'r world"
      by (simp, rule grp_inv_steady) (simp add: steady_def members_def nodeGroup_def fun_eq_iff)
    ultimately show ?thesis unfolding Incoming addNodes.simps keepsg_def
      using cl [unfolded keepsg_def]
      by (simp add: wp_thenM wp_updM wp_bindM wp_getsM)
  next
    case AcceptErr
    have "calm (updM (\<lambda>w. w\<lparr>w_accepts := rest\<rparr>))" by (rule calm_intros)
    then show ?thesis unfolding AcceptErr addNodes.simps by (intro keepsg_calm keeps_intros)
  qed
qed (simp add: keepsg_intros)

lemma keepsg_handleEvent [keepsg_intros]: "keepsg (handleEvent e ev)"
  unfolding handleEvent_def CTrafficManager_addNodes_def Let_def by (intro keepsg_intros)

lemma keepsg_traffic [keepsg_intros]: "keepsg (CTrafficManager_working e r)"
  unfolding CTrafficManager_working_def by (cases r) (auto intro!: keepsg_intros)

section \<open>Reachable states\<close>

lemma keepsgD: "keepsg m \<Longrightarrow> sys_inv w \<Longrightarrow> grp_inv w \<Longrightarrow> m w = Inr (x, w') \<Longrightarrow> grp_inv w'"
  by (auto simp: keepsg_def wp_def)

lemma server_step_grp: "server_step e w w' \<Longrightarrow> sys_inv w \<Longrightarrow> grp_inv w \<Longrightarrow> grp_inv w'"
proof (induction rule: server_step.induct)
  case outside
  have "steady w (w\<lparr>w_in := i, w_out := o1, w_accepts := a, w_epollCtl := c, w_clock := k, w_redis := s\<rparr>)"
    for w :: "'a world" and i o1 a c k s
    by (simp add: steady_def members_def nodeGroup_def fun_eq_iff)
  then show ?case using outside grp_inv_steady by blast
qed (blast intro: keepsgD keepsg_intros)+

lemma server_reach_grp: "server_reach e w0 w \<Longrightarrow> sys_inv w0 \<Longrightarrow> grp_inv w0 \<Longrightarrow> grp_inv w"
  by (induction rule: server_reach.induct) (auto intro: server_step_grp server_reach_inv)

lemma server_new_grp:
  assumes "server_new cfg timerAddr nodeAddr mem w0 = Inr w"
  shows "grp_inv w"
proof -
  have "members w = replicate (unat (NODE_GROUP_NUM cfg)) ([], None)"
    using assms by (auto simp: server_new_def CNodeGroup_new_def members_def bindR_def split: sum.splits)
  then show ?thesis by (simp add: grp_inv_def slot_ok_def flip: length_members)
qed

lemma reach_grp:
  assumes "boot_ok cfg timerAddr nodeAddr mem" and "server_new cfg timerAddr nodeAddr mem w0 = Inr w1" and "server_reach e w1 w"
  shows "grp_inv w"
  by (rule server_reach_grp [OF assms(3) reach_inv [OF assms(1,2) server_reach.start] server_new_grp [OF assms(2)]])

section \<open>Turns of a group's thread\<close>

text \<open>The node that the next turn of \<open>_rollingNode\<close> visits, and the nodes that \<open>k\<close> turns visit.\<close>

definition upcoming :: "group \<Rightarrow> ub8_" where
  "upcoming x = (case g_pos x of None \<Rightarrow> hd (g_container x) | Some q \<Rightarrow> q)"

fun turns :: "'r env \<Rightarrow> nat \<Rightarrow> nat \<Rightarrow> 'r world \<Rightarrow> (ub8_ list \<times> 'r world) result" where
  "turns e g 0 w = Inr ([], w)"
| "turns e g (Suc k) w =
     bindR (CNodeGroup_rollingNode e g w) (\<lambda>(_, w1).
     bindR (turns e g k w1) (\<lambda>(ps, w2). Inr (upcoming (w_groups w ! g) # ps, w2)))"

lemma succIn_nth: "distinct c \<Longrightarrow> i < length c \<Longrightarrow> succIn c (c ! i) = (if Suc i < length c then Some (c ! Suc i) else None)"
proof (induction c arbitrary: i)
  case (Cons x c)
  show ?case
  proof (cases i)
    case (Suc j)
    then have "x \<noteq> c ! j" "j < length c" using Cons.prems by auto
    then show ?thesis using Cons Suc by simp
  qed (use Cons.prems in \<open>cases c; simp\<close>)
qed simp

text \<open>\<open>_pos\<close> stands at index \<open>i\<close>; the end counts as the start.\<close>

definition stands :: "ub8_ list \<Rightarrow> ub8_ option \<Rightarrow> nat \<Rightarrow> bool" where
  "stands c q i \<longleftrightarrow> i < length c \<and> (q = Some (c ! i) \<or> q = None \<and> i = 0)"

lemma stands_next:
  assumes "distinct c" and "stands c q i"
  shows "stands c (succIn c (c ! i)) (Suc i mod length c)"
proof (cases "Suc i < length c")
  case False
  then have "length c = Suc i" using assms(2) by (simp add: stands_def)
  then show ?thesis using succIn_nth [OF assms(1), of i] by (simp add: stands_def)
qed (use assms succIn_nth [OF assms(1), of i] in \<open>auto simp: stands_def\<close>)

lemma stands_upcoming: "stands (g_container x) (g_pos x) i \<Longrightarrow> upcoming x = g_container x ! i"
  by (auto simp: stands_def upcoming_def hd_conv_nth)

lemma stands_ex: "slot_ok w g (c, q) \<Longrightarrow> c \<noteq> [] \<Longrightarrow> \<exists>i. stands c q i"
  by (cases q) (auto simp: slot_ok_def stands_def in_set_conv_nth)

lemma rollingNode_turn:
  fixes w :: "'r world"
  assumes inv: "sys_inv w" and g: "g < length (w_groups w)" "g_container (w_groups w ! g) \<noteq> []"
    and r: "CNodeGroup_rollingNode e g w = Inr (b, w1)"
  shows "sys_inv w1" and "members w1 = (members w)[g := (g_container (w_groups w ! g), succIn (g_container (w_groups w ! g)) (upcoming (w_groups w ! g)))]"
proof -
  let ?x = "w_groups w ! g"
  let ?w = "w\<lparr>w_groups := (w_groups w)[g := ?x\<lparr>g_pos := succIn (g_container ?x) (upcoming ?x)\<rparr>]\<rparr>"
  show "sys_inv w1" using keepsD [OF keeps_rollingNode inv r] .
  obtain ms where "framed w ms ?x" using sys_invD(5) [OF inv g(1)] by blast
  then have "sys_inv ?w" by (intro sys_group [OF inv]) (rule framed_pos)
  then have "wp any_fault (checkNode e (upcoming ?x)) (\<lambda>_. steady ?w) ?w" by (rule steady_checkNode)
  then have "wp any_fault (CNodeGroup_rollingNode e g) (\<lambda>_. steady ?w) w"
    using g by (cases "g_container ?x") (simp_all add: CNodeGroup_rollingNode_def Let_def wp_simps upcoming_def cong: option.case_cong)
  then show "members w1 = (members w)[g := (g_container ?x, succIn (g_container ?x) (upcoming ?x))]"
    using r g(1) by (simp add: wp_def steady_def members_update)
qed

lemma turns_visit:
  assumes "turns e g k w = Inr (ps, w')" and "sys_inv w" and "g < length (w_groups w)" and "g_container (w_groups w ! g) = c"
    and "distinct c" and "stands c (g_pos (w_groups w ! g)) i"
  shows "ps = map (\<lambda>j. c ! ((i + j) mod length c)) [0..<k] \<and> g_container (w_groups w' ! g) = c"
  using assms
proof (induction k arbitrary: w i ps)
  case (Suc k)
  let ?x = "w_groups w ! g"
  have c: "c \<noteq> []" "i < length c" using Suc.prems(6) by (auto simp: stands_def)
  obtain b w1 ps1 where r: "CNodeGroup_rollingNode e g w = Inr (b, w1)" "turns e g k w1 = Inr (ps1, w')" "ps = upcoming ?x # ps1"
    using Suc.prems(1) by (auto simp: bindR_def split: sum.splits)
  have up: "upcoming ?x = c ! i" using stands_upcoming [of ?x i] Suc.prems(4,6) by simp
  note t = rollingNode_turn [OF Suc.prems(2,3) _ r(1)]
  have m: "members w1 = (members w)[g := (c, succIn c (c ! i))]" using t(2) Suc.prems(4) c up by simp
  have l: "length (w_groups w1) = length (w_groups w)" using arg_cong [OF m, of length] by simp
  have x1: "g_container (w_groups w1 ! g) = c \<and> g_pos (w_groups w1 ! g) = succIn c (c ! i)"
    using arg_cong [OF m, of "\<lambda>m. m ! g"] Suc.prems(3) l by (simp add: members_def)
  have "ps1 = map (\<lambda>j. c ! ((Suc i mod length c + j) mod length c)) [0..<k] \<and> g_container (w_groups w' ! g) = c"
    using Suc.IH [OF r(2) t(1), of "Suc i mod length c"] x1 l c Suc.prems(3,4,5) stands_next [OF Suc.prems(5,6)] by simp
  moreover have "map (\<lambda>j. c ! ((i + j) mod length c)) [0..<Suc k] = c ! i # map (\<lambda>j. c ! ((Suc i + j) mod length c)) [0..<k]"
    using c(2) by (simp add: map_upt_Suc [of _ k] del: upt_Suc)
  ultimately show ?case using r(3) up by (simp add: mod_add_left_eq)
qed simp

lemma turns_round:
  assumes "turns e g (length c) w = Inr (ps, w')" and "sys_inv w" and "grp_inv w" and "g < length (w_groups w)"
    and "g_container (w_groups w ! g) = c"
  shows "\<exists>i. ps = rotate i c" and "g_container (w_groups w' ! g) = c"
proof -
  have s: "slot_ok w g (c, g_pos (w_groups w ! g))" using grp_invD [OF assms(3,4)] assms(5) by simp
  have "(\<exists>i. ps = rotate i c) \<and> g_container (w_groups w' ! g) = c"
  proof (cases "c = []")
    case False
    obtain i where i: "stands c (g_pos (w_groups w ! g)) i" using stands_ex [OF s False] by blast
    have "ps = rotate i c"
      using turns_visit [OF assms(1,2,4,5) _ i] s by (intro nth_equalityI) (simp_all add: slot_ok_def nth_rotate)
    moreover have "g_container (w_groups w' ! g) = c" using turns_visit [OF assms(1,2,4,5) _ i] s by (simp add: slot_ok_def)
    ultimately show ?thesis by blast
  qed (use assms in simp)
  then show "\<exists>i. ps = rotate i c" "g_container (w_groups w' ! g) = c" by simp_all
qed

section \<open>Distribution over the groups\<close>

fun deals :: "'r env \<Rightarrow> nat \<Rightarrow> 'r world \<Rightarrow> (nat list \<times> 'r world) result" where
  "deals e 0 w = Inr ([], w)"
| "deals e (Suc k) w =
     bindR (CTrafficManager_allocateGroup e w) (\<lambda>(g, w1). bindR (deals e k w1) (\<lambda>(gs, w2). Inr (g # gs, w2)))"

lemma allocateGroup_deal:
  "CTrafficManager_allocateGroup e w =
     (let j = (if w_curGroupIndex w = NODE_GROUP_NUM (e_cfg e) then 0 else w_curGroupIndex w) in
      Inr (unat j, w\<lparr>w_curGroupIndex := j + 1\<rparr>))"
  by (simp add: CTrafficManager_allocateGroup_def bindM_def thenM_def getsM_def updM_def retM_def Let_def)

lemma deals_round:
  assumes "0 < N" and "unat (NODE_GROUP_NUM (e_cfg e)) = N" and "unat (w_curGroupIndex w) \<le> N"
  shows "\<exists>w'. deals e k w = Inr (map (\<lambda>j. (unat (w_curGroupIndex w) + j) mod N) [0..<k], w') \<and> w_groups w' = w_groups w"
  using assms(3)
proof (induction k arbitrary: w)
  case (Suc k)
  let ?i = "w_curGroupIndex w" and ?n = "NODE_GROUP_NUM (e_cfg e)"
  define j where "j = (if ?i = ?n then 0 else ?i)"
  have j: "unat j = unat ?i mod N" "unat j < N" using Suc.prems assms(1,2) by (auto simp: j_def word_eq_unat)
  then have s: "unat (j + 1) = unat ?i mod N + 1" "unat (j + 1) \<le> N"
    using assms(2) unat_ub4_lt [of ?n] by (subst unat_plus_lt; simp)+
  have step: "CTrafficManager_allocateGroup e w = Inr (unat j, w\<lparr>w_curGroupIndex := j + 1\<rparr>)"
    by (simp add: allocateGroup_deal Let_def j_def)
  have "map (\<lambda>l. (unat ?i + l) mod N) [0..<Suc k] = unat j # map (\<lambda>l. (unat (j + 1) + l) mod N) [0..<k]"
    using j(1) s(1) by (simp add: map_upt_Suc [of _ k] del: upt_Suc) (metis mod_Suc_eq mod_add_left_eq)
  then show ?case using Suc.IH [of "w\<lparr>w_curGroupIndex := j + 1\<rparr>"] s(2) step by auto
qed simp

lemma ex_turn:
  assumes "ex_start = Inr ws" "server_reach ex_env ws w" "0 < length (w_groups w)" "g_container (w_groups w ! 0) = [1]"
    and "w_nodes w 1 = Some n" "t_status (n_transaction n) = CONNECTED"
  shows "wp (\<lambda>_. False) (CNodeGroup_rollingNode ex_env 0) (\<lambda>_ w1. w_nodes w1 1 = Some n) w"
proof -
  have "slot_ok w 0 ([1], g_pos (w_groups w ! 0))"
    using grp_invD [OF reach_grp [OF ex_boot assms(1) [unfolded ex_start_def] assms(2)] assms(3)] assms(4) by simp
  then have "g_pos (w_groups w ! 0) \<in> {None, Some 1}" by (cases "g_pos (w_groups w ! 0)") (auto simp: slot_ok_def)
  then show ?thesis using assms(3-6) by (auto simp: CNodeGroup_rollingNode_def checkNode_def wp_simps)
qed

section \<open>Properties\<close>





end
