(* ===== verification/Faults.thy ===== *)
theory Faults
  imports Group_Invariant
begin

text \<open>
  Error paths that end the process: what a client, or a Redis server, can do to reach a failed assertion, an
  access outside a block, or the end of the stack.
\<close>

section \<open>Faults as weakest preconditions\<close>

lemma wp_faults: "wp (\<lambda>f. f = x) m (\<lambda>_ _. False) w \<longleftrightarrow> m w = Inl x"
  by (auto simp: wp_def split: sum.splits)

lemma wp_sysRead_all:
  "w_in w fd = Arrived bs # rest \<Longrightarrow> bs \<noteq> [] \<Longrightarrow> length bs \<le> count \<Longrightarrow>
   wp F (sysRead fd count) Q w = Q (Got bs) (w\<lparr>w_in := (w_in w)(fd := rest)\<rparr>)"
  by (auto simp: wp_def sysRead_def)

lemma over_unknown_aborts: "w_nodes w p = Some n \<Longrightarrow> r \<notin> stopReasons \<Longrightarrow> CTransaction_over e p r False w = Inl AssertFail"
proof -
  assume n: "w_nodes w p = Some n" and r: "r \<notin> stopReasons"
  have "\<not> knownReason (reason_code r)" using r by (auto simp: knownReason_def stopReasons_def reason_code_def split: ETransactionExitReason.splits)
  then have "wp (\<lambda>f. f = AssertFail) (CTransaction_over e p r False) (\<lambda>_ _. False) w"
    using n by (simp add: CTransaction_over_def CTransaction_onStop_def overMsg_def Let_def wp_simps)
  then show ?thesis by (simp only: wp_faults)
qed

section \<open>A server without timers\<close>

definition ex_idle :: bool where
  "ex_idle = (case ex_start of Inl _ \<Rightarrow> False | Inr w \<Rightarrow> freeDeque (w_res w) = [1, 2] \<and> unitGroup (w_res w) = [1, 2])"

lemma ex_idle_evaluates: ex_idle
  by code_simp

lemma sys_inv_idle:
  assumes "sys_inv w" and "set (unitGroup (w_res w)) \<subseteq> set (freeDeque (w_res w))" and "tm_ok m"
  shows "sys_inv (w\<lparr>w_timers := m\<rparr>)"
proof -
  have t: "t = CTransaction_new" if "txs w p = Some t" for p t
  proof -
    have "p \<in> dom (w_nodes w)" using that by (auto simp: txs_def)
    then have "p \<in> set (freeDeque (w_res w))" using sys_invD(3) [OF assms(1)] assms(2) by blast
    then show ?thesis using sys_invD(4) [OF assms(1)] that by auto
  qed
  have tx: "txs (w\<lparr>w_timers := m\<rparr>) = txs w" by (simp add: txs_def fun_eq_iff)
  have "reg_ok (w\<lparr>w_timers := m\<rparr>)"
    using sys_invD(1) [OF assms(1)] by (simp add: sv_inv_def reg_ok_def ready_def txs_def sessionKey_def inj_on_def)
  moreover have "tx_ok (issued m) CTransaction_new" by (simp add: tx_ok_def CTransaction_new_def)
  ultimately have "sv_inv (w\<lparr>w_timers := m\<rparr>)" using assms(3) by (auto simp: sv_inv_def tx dest: t)
  moreover have "framed (w\<lparr>w_timers := m\<rparr>) ms x = framed w ms x" for ms x by (rule framed_cong) simp_all
  ultimately show ?thesis using assms(1) by (simp add: sys_inv_def tx)
qed

section \<open>Properties\<close>

text \<open>C40: Running out of timers aborts the server.  When no timer is free, a client whose handshake was accepted, and a
  session to which a message is pushed, make the server call \<open>over(NO_MORE_TIMER)\<close>, a reason that \<open>__onStop\<close> does not know.\<close>

theorem no_timer_aborts:
  assumes "w_nodes w p = Some n" and "tm_ok (w_timers w)" and "freeDeque (timerRes (w_timers w)) = []"
  shows "startHeartBeat e p w = Inl AssertFail \<and> armAckTimer e p seq w = Inl AssertFail"
proof -
  obtain xs where "tm_inv (w_timers w) xs" using assms(2) by (auto simp: tm_ok_def)
  then have t: "CTimerManager_setTimer now (w_timers w) per pI pII k = Inr (0, w_timers w)" for now per pI pII k
    using setTimer_none assms(3) by auto
  have o: "CTransaction_over e p NO_MORE_TIMER False w1 = Inl AssertFail" if "w_nodes w1 p = Some n1" for w1 n1
    by (rule over_unknown_aborts [OF that]) (simp add: stopReasons_def)
  show ?thesis using assms(1) t o
    by (simp add: startHeartBeat_def armAckTimer_def thenM_def bindM_def updTx_def updNode_def getNode_def updM_def setTimerM_def)
qed

theorem no_timer_aborts_witness:
  "startHeartBeat ex_env 1 (ex_ready\<lparr>w_timers := two_timers\<rparr>) = Inl AssertFail"
proof -
  have "tm_ok two_timers" using two_timers_inv by (auto simp: tm_ok_def)
  then show ?thesis using no_timer_aborts [where w = "ex_ready\<lparr>w_timers := two_timers\<rparr>" and p = 1 and n = ex_session and e = ex_env]
    by (simp add: ex_ready_def two_timers_def)
qed

text \<open>A client can stop the server with one message: a message of the internal kind \<open>MC_ON_OVER\<close> is not told apart from one that
  came over the network, and a reason that \<open>__onStop\<close> does not know fails its assertion.\<close>

theorem network_over_aborts:
  assumes "w_nodes w p = Some n" and "hd_cmd (THeader_at buf) = MC_ON_OVER" and "\<not> knownReason (oo_reason (TPDUOnOver_at buf))"
  shows "CTransaction_onMessage e p buf w = Inl AssertFail"
proof -
  have "wp (\<lambda>f. f = AssertFail) (CTransaction_onMessage e p buf) (\<lambda>_ _. False) w"
    using assms by (simp add: CTransaction_onMessage_def CTransaction_onStop_def Let_def wp_simps message_codes)
  then show ?thesis by (simp only: wp_faults)
qed

definition ex_over :: "ub1_ list" where
  "ex_over = TPDUOnOver_bytes \<lparr>oo_header = \<lparr>hd_size = of_nat sizeof_TPDUOnOver, hd_type = MT_CONTROL, hd_cmd = MC_ON_OVER, hd_ver = 1,
     hd_lang = 1, hd_seq = 0, hd_stmp = 0, hd_ext = 1\<rparr>, oo_reason = 0\<rparr>"

theorem network_over_aborts_witness: "CTransaction_onMessage ex_env 1 ex_over ex_ready = Inl AssertFail"
proof (rule network_over_aborts)
  show "w_nodes ex_ready 1 = Some ex_session" by (simp add: ex_ready_def)
  show "hd_cmd (THeader_at ex_over) = MC_ON_OVER" by (simp add: ex_over_def TPDUOnOver_bytes_def THeader_at_bytes)
  show "\<not> knownReason (oo_reason (TPDUOnOver_at ex_over))"
    unfolding ex_over_def using TPDUOnOver_at_bytes [of _ "[]"] by (simp add: knownReason_def stopReasons_def reason_code_def)
qed

text \<open>C39: A client can make \<open>recv\<close> write behind its buffer: the size in the header is not checked against the size of the buffer.  A
  node that holds nothing receives a header that announces more than 512 bytes, and then as many bytes.\<close>

theorem recv_overflows:
  assumes n: "w_nodes w p = Some n" "n_recvOffset n = 0" "n_recvDueSize n = 0" "length (n_recvBuffer n) = MSG_MAX_LENGTH"
    and h: "length hdr = sizeof_THeader" "MSG_MAX_LENGTH < unat (hd_size (THeader_at hdr))"
    and b: "length body + sizeof_THeader = unat (hd_size (THeader_at hdr))"
    and i: "w_in w (n_fd n) = [Arrived hdr, Arrived body]"
  shows "CNode_recv p w = Inl OutOfBounds"
proof -
  let ?buf = "hdr @ drop 29 (n_recvBuffer n)" and ?sz = "hd_size (THeader_at hdr)"
  let ?n1 = "n\<lparr>n_recvBuffer := ?buf, n_recvOffset := 29, n_recvDueSize := ?sz\<rparr>"
  let ?w1 = "w\<lparr>w_in := (w_in w)(n_fd n := [Arrived body]), w_nodes := (w_nodes w)(p \<mapsto> ?n1)\<rparr>"
  have l: "length hdr = 29" "length body + 29 = unat ?sz" "512 < unat ?sz" "hdr \<noteq> []" "body \<noteq> []"
    using h b by (auto simp: layout)
  have sz: "le_word (segment 0 2 ?buf) = ?sz" using l(1) by (simp add: THeader_at_def segment_def)
  have ne: "?sz \<noteq> 29" using l(3) by (auto simp: word_eq_unat)
  have c0: "recvCount n = 29" using n by (simp add: recvCount_def layout)
  have u: "unat (ucast ?sz :: ub8_) = unat ?sz" using unsigned_less [of ?sz, where ?'a = nat]
    by (simp add: unsigned_ucast_eq take_bit_nat_eq_self)
  have "?sz \<noteq> 0" using l(3) by auto
  then have cnt: "recvCount ?n1 = length body"
    using l(2) unat_minus_le [of "29 :: ub8_" "ucast ?sz"] by (simp add: recvCount_def u)
  have second: "wp (\<lambda>f. f = OutOfBounds) (recvLoop (Suc k) p) (\<lambda>_ _. False) ?w1" for k
    using cnt l n(4) by (simp add: wp_simps wp_sysRead_all recvBytes_def memcpy_def layout)
  then have "wp (\<lambda>f. f = OutOfBounds) (recvLoop (Suc (Suc k)) p) (\<lambda>_ _. False) w" for k
    unfolding recvLoop.simps(2) [of "Suc k" p] using n i l sz ne c0 second [of k]
    by (simp add: wp_simps wp_sysRead_all recvBytes_def memcpy_def layout Let_def del: recvLoop.simps)
  moreover have "arrivedBytes (w_in w (n_fd n)) = Suc (arrivedBytes (w_in w (n_fd n)) - 1)" using i l by simp
  ultimately have "wp (\<lambda>f. f = OutOfBounds) (CNode_recv p) (\<lambda>_ _. False) w"
    using n(1) by (simp add: CNode_recv_def wp_simps del: recvLoop.simps) metis
  then show ?thesis by (simp only: wp_faults)
qed

theorem recv_overflows_witness:
  "CNode_recv 1 (ex_world [] [THeader_bytes ((THeader_at (ex_ping 0))\<lparr>hd_size := 600\<rparr>), zeros 571]) = Inl OutOfBounds"
proof -
  have "THeader_at (THeader_bytes h) = h" for h using THeader_at_bytes [of h "[]"] by simp
  then show ?thesis
    by (intro recv_overflows [where n = ex_node]) (simp_all add: ex_world_def ex_node_def CNode_new_def layout)
qed

text \<open>A client can make the server abort its own session check: a handshake may carry any time of the last update, and a time that
  is not in the past fails the assertion of \<open>checkMessages\<close> at the next turn of the group's thread.\<close>

theorem future_update_aborts:
  assumes "g < length (w_groups w)" and "g_context (w_groups w ! g)" and "w_nodes w p = Some n"
    and "word_of_int (tv_sec (w_clock w (w_ticks w)) * 1000000 + tv_usec (w_clock w (w_ticks w))) \<le> t_lastUpdate (n_transaction n)"
  shows "CRedisOperator_checkMessages e g push p w = Inl AssertFail"
proof -
  have "wp (\<lambda>f. f = AssertFail) (CRedisOperator_checkMessages e g push p) (\<lambda>_ _. False) w"
    using assms(1-3) leD [OF assms(4)] by (simp add: CRedisOperator_checkMessages_def contextM_def wp_simps)
  then show ?thesis by (simp only: wp_faults)
qed

theorem future_update_aborts_witness:
  "CRedisOperator_checkMessages ex_env 0 (\<lambda>_ _ _ _ _ _ _. retM True) 1 (ex_ready\<lparr>w_groups := [(ex_group [])\<lparr>g_context := True\<rparr>],
     w_nodes := [1 \<mapsto> ex_session\<lparr>n_transaction := (n_transaction ex_session)\<lparr>t_lastUpdate := 2000000000\<rparr>\<rparr>]\<rparr>) = Inl AssertFail"
  by (rule future_update_aborts [where n = "ex_session\<lparr>n_transaction := (n_transaction ex_session)\<lparr>t_lastUpdate := 2000000000\<rparr>\<rparr>"])
    (simp_all add: ex_ready_def ex_world_def ex_outside_def)

text \<open>A Redis server that takes connections but answers nothing.\<close>

definition mute :: "'r hiredis \<Rightarrow> bool" where
  "mute api \<longleftrightarrow> (\<forall>g s. fst (h_connect api g s) = ContextOk) \<and> (\<forall>g args s. fst (h_command api g args s) = None)"

text \<open>A Redis server that takes connections but answers nothing exhausts the stack of a group's thread: \<open>connect\<close> and
  \<open>_errorHandler\<close> call each other without end, however deep the stack is.\<close>

theorem mute_redis_overflows:
  assumes "mute (e_api e)" and "g < length (w_groups w)"
  shows "CRedisOperator_connect e g w = Inl StackOverflow"
proof -
  have "wp (\<lambda>f. f = StackOverflow) (CRedisOperator_connect_d e d g) (\<lambda>_ _. False) w" for d
    using assms(2)
  proof (induction d arbitrary: w)
    case (Suc d)
    have c: "fst (h_connect (e_api e) g s) = ContextOk" "fst (h_command (e_api e) g args s) = None" for args s
      using assms(1) by (simp_all add: mute_def)
    show ?case using Suc by (simp add: wp_simps errorHandler_def c setContext_def)
  qed (simp add: wp_simps)
  then show ?thesis by (simp only: CRedisOperator_connect_def wp_faults)
qed

definition mute_redis :: "nat hiredis" where
  "mute_redis = \<lparr>h_connect = (\<lambda>g s. (ContextOk, s)), h_free = (\<lambda>g s. s), h_command = (\<lambda>g args s. (None, Suc s))\<rparr>"

theorem mute_redis_overflows_witness:
  "CRedisOperator_connect (ex_env\<lparr>e_api := mute_redis, e_depth := 1000\<rparr>) 0 ex_ready = Inl StackOverflow"
  by (rule mute_redis_overflows) (simp_all add: mute_def mute_redis_def ex_ready_def ex_world_def)

text \<open>The end of a client that is alone in its group.  A turn of the group's thread leaves \<open>_pos\<close> at the end of a container of one node, and
  \<open>detach\<close> dereferences it when the node is recycled.\<close>

theorem lone_node_detach:
  assumes "boot_ok cfg timerAddr nodeAddr mem" and "server_new cfg timerAddr nodeAddr mem w0 = Inr ws" and "server_reach e ws w"
    and "g < length (w_groups w)" and "g_container (w_groups w ! g) = [p]" and "p \<noteq> null_v"
    and "CNodeGroup_rollingNode e g w = Inr (b, w1)" and "w_nodes w1 p = Some n" and "n_fd n \<noteq> 0" and "t_status (n_transaction n) \<noteq> FREE"
  shows "CTrafficManager_delNode e p w1 = Inl EndDeref"
proof -
  have inv: "sys_inv w" "grp_inv w" using reach_inv [OF assms(1-3)] reach_grp [OF assms(1-3)] by simp_all
  have "upcoming (w_groups w ! g) = p"
    using grp_invD [OF inv(2) assms(4)] assms(5) by (cases "g_pos (w_groups w ! g)") (auto simp: upcoming_def slot_ok_def)
  then have m: "members w1 = (members w)[g := ([p], None)]"
    using rollingNode_turn(2) [OF inv(1) assms(4) _ assms(7)] assms(5) by simp
  have l: "length (w_groups w1) = length (w_groups w)" using arg_cong [OF m, of length] by simp
  have x: "g_container (w_groups w1 ! g) = [p] \<and> g_pos (w_groups w1 ! g) = None"
    using arg_cong [OF m, of "\<lambda>m. m ! g"] assms(4) l by (simp add: members_def)
  have "grp_inv w1" using keepsgD [OF keepsg_rollingNode inv assms(7)] .
  then have "n_group n = Some g" using grp_invD [of w1 g] l assms(4,8) x by (simp add: slot_ok_def nodeGroup_def)
  moreover have d: "wp F (CNodeGroup_detach e g p) Q w2 = F EndDeref" if "w_groups w2 = w_groups w1" for F Q w2
    using that x l assms(4,6) by (simp add: CNodeGroup_detach_def wp_simps)
  ultimately have "wp (\<lambda>f. f = EndDeref) (CTrafficManager_delNode e p) (\<lambda>_ _. False) w1"
    using assms(8-10) d unfolding CTrafficManager_delNode_def wp_bindM wp_getNode
    by (simp add: wp_if wp_thenM sysClose_def wp_bindM) (rule wp_epollCtl, simp add: wp_updM wp_groupOf)
  then show ?thesis by (simp only: wp_faults)
qed

theorem lone_node_detach_witness:
  "\<exists>ws w b w1. server_new ex_config addr addr zeros ex_outside = Inr ws \<and> server_reach ex_env ws w \<and>
     CNodeGroup_rollingNode ex_env 0 w = Inr (b, w1) \<and> CTrafficManager_delNode ex_env 1 w1 = Inl EndDeref"
proof (rule ex_run_reaches)
  fix ws w assume w: "ex_start = Inr ws" "server_reach ex_env ws w" "ex_status w 1 = Some CONNECTED" "ex_waits w"
  then have g: "0 < length (w_groups w)" "g_container (w_groups w ! 0) = [1]" by (auto simp: ex_waits_def)
  obtain n where n: "w_nodes w 1 = Some n" "n_fd n = 7" "t_status (n_transaction n) = CONNECTED"
    using w(3,4) by (auto simp: ex_waits_def ex_status_def split: option.splits)
  have t: "wp (\<lambda>_. False) (CNodeGroup_rollingNode ex_env 0) (\<lambda>_ w1. w_nodes w1 1 = Some n) w"
    using ex_turn [OF w(1,2) g] n by simp
  then obtain b w1 where "CNodeGroup_rollingNode ex_env 0 w = Inr (b, w1)" "w_nodes w1 1 = Some n" by (auto simp: wp_total_iff)
  then show ?thesis
    using lone_node_detach [OF ex_boot w(1) [unfolded ex_start_def] w(2) g _ _ \<open>w_nodes w1 1 = Some n\<close>] w n by (auto simp: ex_start_def)
qed

text \<open>A connection that finds no timer is lost.  The client is closed, but its node, taken from the pool and connected, is
  neither given back nor in a container nor queued for recycling.\<close>

theorem attach_leaks_node:
  assumes "sys_inv w" and "grp_inv w" and "freeDeque (w_res w) = p # us" and "freeDeque (timerRes (w_timers w)) = []"
  shows "\<exists>w'. addNodes e (Incoming ip port fd # rest) w = Inr ((), w') \<and> freeDeque (w_res w') = us \<and> p \<notin> set us \<and> outside w' p \<and>
     w_nodeQueue w' = w_nodeQueue w \<and> (\<exists>n. w_nodes w' p = Some n \<and> t_status (n_transaction n) = CONNECTED) \<and> fd \<in> set (w_closed w')"
proof -
  obtain xs where "tm_inv (w_timers w) xs" using sys_invD(1) [OF assms(1)] by (auto simp: sv_inv_def tm_ok_def)
  then have t: "CTimerManager_setTimer now (w_timers w) per pI pII k = Inr (0, w_timers w)" for now per pI pII k
    using setTimer_none assms(4) by auto
  obtain n where n: "w_nodes w p = Some n" "n_transaction n = CTransaction_new"
    using sys_invD(4) [OF assms(1), of p] assms(3) by (auto simp: txs_def)
  obtain r where r: "CResource_allocate (w_res w) = Inr (p, r)" "freeDeque r = us"
    using res.alloc_first [OF sys_invD(2) [OF assms(1)] assms(3)] by blast
  have np: "p \<notin> set us" "p \<noteq> null_v" using res.free_distinct [OF sys_invD(2) [OF assms(1)]] assms(3) r(1)
    by (auto simp: CResource_allocate_def assertR_def split: if_splits)
  have nz: "CResource_size (w_res w) \<noteq> 0" using size_zero_iff [OF sys_invD(2) [OF assms(1)]] assms(3) by simp
  have o: "outside w p" by (rule free_outside [OF assms(2)]) (simp add: assms(3))
  have tm: "wp F (setTimerM per pI pII k) Q w1 = Q 0 w1" if "w_timers w1 = w_timers w" for F per pI pII k Q and w1
  proof -
    have e: "w1\<lparr>w_timers := w_timers w\<rparr> = w1" using that [symmetric] by simp
    show ?thesis using t that by (simp add: wp_def setTimerM_def) (simp only: e)
  qed
  have "wp (\<lambda>_. False) (addNodes e (Incoming ip port fd # rest)) (\<lambda>_ w'. freeDeque (w_res w') = us \<and> outside w' p \<and>
     w_nodeQueue w' = w_nodeQueue w \<and> (\<exists>n. w_nodes w' p = Some n \<and> t_status (n_transaction n) = CONNECTED) \<and> fd \<in> set (w_closed w')) w"
    using n r nz np o
    by (simp add: wp_simps allocateNode_def CTrafficManager_allocateGroup_def Let_def CNodeGroup_attach_def CNode_onAttach_def CTransaction_onAttach_def
        tm CTransaction_new_def sysClose_def outside_def members_def firstByte_zeros)
  then show ?thesis using np(1) by (auto simp: wp_total_iff)
qed

theorem attach_leaks_node_witness:
  "\<exists>w w'. freeDeque (w_res w) = [1, 2] \<and> addNodes ex_env [Incoming (str ''::1'') 4 7] w = Inr ((), w') \<and> freeDeque (w_res w') = [2] \<and> outside w' 1"
proof -
  obtain w1 where w1: "ex_start = Inr w1" "freeDeque (w_res w1) = [1, 2]" "unitGroup (w_res w1) = [1, 2]"
    using ex_idle_evaluates by (auto simp: ex_idle_def split: sum.splits)
  let ?w = "w1\<lparr>w_timers := two_timers\<rparr>"
  have "tm_ok two_timers" using two_timers_inv by (auto simp: tm_ok_def)
  then have "sys_inv ?w" using reach_inv [OF ex_boot w1(1) [unfolded ex_start_def] server_reach.start] w1 by (intro sys_inv_idle) auto
  moreover have "grp_inv w1" using server_new_grp w1(1) by (auto simp: ex_start_def)
  then have "grp_inv ?w" using grp_inv_steady [of w1 ?w] by (simp add: steady_def members_def nodeGroup_def fun_eq_iff)
  moreover have f: "freeDeque (w_res ?w) = [1, 2]" "freeDeque (timerRes (w_timers ?w)) = []" using w1(2) by (simp_all add: two_timers_def)
  ultimately show ?thesis using attach_leaks_node [OF _ _ f, of ex_env "str ''::1''" 4 7 "[]"] f(1) by blast
qed

text \<open>A new connection that \<open>epoll_ctl\<close> refuses stops the server: the node is detached while its transaction is connected.\<close>

theorem epoll_add_aborts:
  fixes w :: "'r world"
  assumes "sys_inv w" and "grp_inv w" and "freeDeque (w_res w) = p # us" and "freeDeque (timerRes (w_timers w)) \<noteq> []" and "w_epollCtl w = False # l"
  shows "\<exists>f. addNodes e (Incoming ip port fd # rest) w = Inl f"
proof -
  obtain n where n: "w_nodes w p = Some n" "n_transaction n = CTransaction_new"
    using sys_invD(4) [OF assms(1), of p] assms(3) by (auto simp: txs_def)
  obtain r where r: "CResource_allocate (w_res w) = Inr (p, r)" "freeDeque r = us" "pool_wf r" "set (unitGroup r) = set (unitGroup (w_res w))"
    using res.alloc_first [OF sys_invD(2) [OF assms(1)] assms(3)] by blast
  have nz: "CResource_size (w_res w) \<noteq> 0" using size_zero_iff [OF sys_invD(2) [OF assms(1)]] assms(3) by simp
  define P where "P w' \<longleftrightarrow> w_epollCtl w' = False # l \<and> (\<exists>n. w_nodes w' p = Some n \<and> t_status (n_transaction n) = CONNECTED)" for w' :: "'r world"
  have core: "P w2" if "P w1" "same_core w1 w2" for w1 w2 using that by (simp add: P_def same_core_def)
  have det: "wp any_fault (CNodeGroup_detach e g p) (\<lambda>_ _. False) w1" if w1: "\<exists>n. w_nodes w1 p = Some n \<and> t_status (n_transaction n) = CONNECTED" for g w1
  proof -
    have on: "wp any_fault (CNode_onDetach p) (\<lambda>_ _. False) w2" if "w_nodes w2 = w_nodes w1" for w2 :: "'r world"
      using w1 that by (auto simp: CNode_onDetach_def CTransaction_onDetach_def wp_simps)
    have "wp any_fault (CRedisOperator_disconnect e g) (\<lambda>_. wp any_fault (CNode_onDetach p) (\<lambda>_ _. False)) w2"
      if "w_nodes w2 = w_nodes w1" for w2 :: "'r world"
      by (rule wp_core [OF core_disconnect]) (use on that in \<open>simp add: same_core_def\<close>)
    then show ?thesis using on by (auto simp: CNodeGroup_detach_def wp_simps split: option.splits)
  qed
  have tail: "wp any_fault (bindM epollCtl (\<lambda>added. if \<not> added then CNodeGroup_detach e g p else addNodes e rest)) (\<lambda>_ _. False) w1"
    if "P w1" for g w1
    using that det by (simp add: P_def wp_bindM epollCtl_def) (simp add: wp_def)
  have conn: "wp any_fault (bindM (getGroup g) (\<lambda>x.
          thenM (if g_container x = [] then thenM (CRedisOperator_connect e g) (retM ()) else retM ())
          (thenM (updGroup g (\<lambda>x. x\<lparr>g_container := g_container x @ [p]\<rparr>)) (retM True))))
       (\<lambda>ok w1. ok \<and> P w1) w1" if "P w1" for g w1
  proof -
    have up: "wp any_fault (updGroup g (\<lambda>x. x\<lparr>g_container := g_container x @ [p]\<rparr>)) (\<lambda>_. P) w2" if "P w2" for w2
      using that by (simp add: wp_simps P_def)
    have "wp any_fault (CRedisOperator_connect e g) (\<lambda>_. wp any_fault (updGroup g (\<lambda>x. x\<lparr>g_container := g_container x @ [p]\<rparr>)) (\<lambda>_. P)) w1"
      by (rule wp_core [OF core_connect]) (use up core that in blast)
    then show ?thesis using up that by (simp add: wp_bindM wp_thenM wp_retM wp_getGroup)
  qed
  have ok: "tm_ok (w_timers w)" using sys_invD(1) [OF assms(1)] by (simp add: sv_inv_def)
  have on: "wp any_fault (CNode_onAttach e p g ip port fd) (\<lambda>ok w1. ok \<and> P w1) w1"
    if "w_timers w1 = w_timers w" "w_nodes w1 = w_nodes w" "w_epollCtl w1 = w_epollCtl w" for g and w1 :: "'r world"
    using n that ok assms(4,5)
    by (auto simp: CNode_onAttach_def CTransaction_onAttach_def wp_simps CTransaction_new_def firstByte_zeros P_def intro!: wp_setTimer_free)
  have att: "wp any_fault (CNodeGroup_attach e g p ip port fd) (\<lambda>ok w1. ok \<and> P w1) w1"
    if "w_timers w1 = w_timers w" "w_nodes w1 = w_nodes w" "w_epollCtl w1 = w_epollCtl w" for g and w1 :: "'r world"
    unfolding CNodeGroup_attach_def wp_thenM wp_assertM wp_bindM
    using wp_mono [OF on [OF that]] conn by (simp add: wp_bindM wp_thenM)
  have fin: "wp any_fault (CNodeGroup_attach e g p ip port fd) (\<lambda>ok. wp any_fault (if \<not> ok then sysClose fd
        else bindM epollCtl (\<lambda>added. if \<not> added then CNodeGroup_detach e g' p else addNodes e rest)) (\<lambda>_ _. False)) w1"
    if "w_timers w1 = w_timers w" "w_nodes w1 = w_nodes w" "w_epollCtl w1 = w_epollCtl w" for g g' and w1 :: "'r world"
    by (rule wp_mono [OF att [OF that]]) (simp add: tail)
  have "wp any_fault (addNodes e (Incoming ip port fd # rest)) (\<lambda>_ _. False) w"
    using nz r(1) fin by (simp add: wp_thenM wp_updM wp_bindM wp_getsM allocateNode_def CTrafficManager_allocateGroup_def wp_liftR wp_retM Let_def)
  then show ?thesis by (auto simp: wp_def split: sum.splits)
qed

end
