(* ===== verification/Locks.thy ===== *)
theory Locks
  imports Prelude
begin

text \<open>
  The locks of src/src/common: CMutex.cpp, CSem.cpp, CCond.cpp and CAutoLock.cpp over the mutexes, semaphores and
  condition variables of pthreads, and what the rest of the development relies on when it takes a
  critical section for one step: threads whose sections are guarded by a CAutoLock on one CMutex refine a system
  in which every section runs at once, and they never block each other for good.  A call that
  blocks is \<open>None\<close>.  Threads are numbered.
\<close>

section \<open>Mutexes\<close>

datatype lockCode = L_OK | L_EBUSY | L_EAGAIN | L_EPERM

record mutex =
  m_recursive :: bool
  m_owner :: "nat option"
  m_depth :: nat

text \<open>
  pthreads: a mutex is free or has an owner; the owner may lock a recursive mutex again, and waits for itself on
  any other.  A recursive mutex is unlocked by its owner only; a normal one does not check.
\<close>

definition pthread_mutex_trylock :: "nat \<Rightarrow> mutex \<Rightarrow> lockCode \<times> mutex" where
  "pthread_mutex_trylock t m =
     (case m_owner m of
        None \<Rightarrow> (L_OK, m\<lparr>m_owner := Some t, m_depth := 1\<rparr>)
      | Some u \<Rightarrow> if u = t \<and> m_recursive m then (L_OK, m\<lparr>m_depth := Suc (m_depth m)\<rparr>) else (L_EBUSY, m))"

definition pthread_mutex_lock :: "nat \<Rightarrow> mutex \<Rightarrow> (lockCode \<times> mutex) option" where
  "pthread_mutex_lock t m = (case pthread_mutex_trylock t m of (L_EBUSY, _) \<Rightarrow> None | r \<Rightarrow> Some r)"

definition pthread_mutex_unlock :: "nat \<Rightarrow> mutex \<Rightarrow> lockCode \<times> mutex" where
  "pthread_mutex_unlock t m =
     (if m_recursive m \<and> m_owner m \<noteq> Some t then (L_EPERM, m)
      else if m_recursive m \<and> 1 < m_depth m then (L_OK, m\<lparr>m_depth := m_depth m - 1\<rparr>)
      else (L_OK, m\<lparr>m_owner := None, m_depth := 0\<rparr>))"

definition CMutex_new :: "bool \<Rightarrow> mutex" where
  "CMutex_new recursive = \<lparr>m_recursive = recursive, m_owner = None, m_depth = 0\<rparr>"

definition CMutex_lock :: "bool \<Rightarrow> nat \<Rightarrow> mutex \<Rightarrow> (bool \<times> mutex) option" where
  "CMutex_lock check t m =
     (case (if check then Some (pthread_mutex_trylock t m) else pthread_mutex_lock t m) of
        None \<Rightarrow> None
      | Some (ret, m1) \<Rightarrow>
          if ret = L_EBUSY \<and> check then Some (False, m1)
          else if ret \<noteq> L_OK then Some (False, m1)
          else Some (True, m1))"

definition CMutex_unlock :: "nat \<Rightarrow> mutex \<Rightarrow> mutex" where
  "CMutex_unlock t m = snd (pthread_mutex_unlock t m)"

section \<open>The guard\<close>

text \<open>A null lock is not locked.\<close>

definition CAutoLock_new :: "nat \<Rightarrow> mutex option \<Rightarrow> mutex option option" where
  "CAutoLock_new t l =
     (case l of None \<Rightarrow> Some None
      | Some m \<Rightarrow> (case CMutex_lock False t m of None \<Rightarrow> None | Some (_, m1) \<Rightarrow> Some (Some m1)))"

definition CAutoLock_delete :: "nat \<Rightarrow> mutex option \<Rightarrow> mutex option" where
  "CAutoLock_delete t l = (case l of None \<Rightarrow> None | Some m \<Rightarrow> Some (CMutex_unlock t m))"

definition mutex_ok :: "mutex \<Rightarrow> bool" where
  "mutex_ok m \<longleftrightarrow> (m_owner m = None \<longleftrightarrow> m_depth m = 0) \<and> (\<not> m_recursive m \<longrightarrow> m_depth m \<le> 1)"

lemma guard_balanced:
  assumes "mutex_ok m" and "CAutoLock_new t (Some m) = Some l"
  shows "CAutoLock_delete t l = Some m \<and> (\<exists>m1. l = Some m1 \<and> mutex_ok m1 \<and> m_owner m1 = Some t \<and> m_owner m \<in> {None, Some t})"
  using assms
  by (auto simp: CAutoLock_new_def CAutoLock_delete_def CMutex_lock_def CMutex_unlock_def pthread_mutex_lock_def
      pthread_mutex_trylock_def pthread_mutex_unlock_def mutex_ok_def split: option.splits prod.splits if_splits lockCode.splits)

lemma lock_blocks: "CMutex_lock False t m = None \<longleftrightarrow> (\<exists>u. m_owner m = Some u \<and> (u \<noteq> t \<or> \<not> m_recursive m))"
  by (auto simp: CMutex_lock_def pthread_mutex_lock_def pthread_mutex_trylock_def split: option.splits)

lemma trylock_returns: "CMutex_lock True t m = Some (ok, m1) \<Longrightarrow> ok \<longleftrightarrow> CMutex_lock False t m = Some (True, m1)"
  by (auto simp: CMutex_lock_def pthread_mutex_lock_def pthread_mutex_trylock_def split: option.splits if_splits)

section \<open>Semaphores\<close>

text \<open>
  A semaphore is its value, at most \<open>SEM_VALUE_MAX\<close>, which is the greatest int.  \<open>sem_trywait\<close> on a semaphore of value zero fails with \<open>EAGAIN\<close>.  The second
  component of a result says whether a fatal error was logged.
\<close>

type_synonym sem = ub4_

definition CSem_new :: "ub4_ \<Rightarrow> sem" where
  "CSem_new value = value"

definition CSem_lock :: "bool \<Rightarrow> sem \<Rightarrow> (bool \<times> bool \<times> sem) option" where
  "CSem_lock check s =
     (if s \<noteq> 0 then Some (True, False, s - 1)
      else if check then
        (let err = L_EAGAIN in if err = L_EBUSY then Some (False, False, s) else Some (False, True, s))
      else None)"

definition CSem_unlock :: "sem \<Rightarrow> bool \<times> sem" where
  "CSem_unlock s = (if s = 2 ^ 31 - 1 then (True, s) else (False, s + 1))"

definition CSem_getValue :: "sem \<Rightarrow> ub4_" where
  "CSem_getValue s = s"

lemma sem_roundtrip: "s \<noteq> 0 \<Longrightarrow> s \<noteq> 2 ^ 31 \<Longrightarrow> \<exists>s1. CSem_lock check s = Some (True, False, s1) \<and> CSem_unlock s1 = (False, s)"
  by (intro exI [of _ "s - 1"]) (auto simp: CSem_lock_def CSem_unlock_def diff_eq_eq)

text \<open>A semaphore that is taken is reported as a fatal error: \<open>CSem::lock\<close> expects \<open>EBUSY\<close>.\<close>

lemma sem_busy_logged: "CSem_lock True 0 = Some (False, True, 0)"
  by (simp add: CSem_lock_def)

section \<open>Condition variables\<close>

text \<open>
  \<open>lock\<close> of a condition variable gives up the mutex and sleeps, and has the mutex again when it returns; \<open>unlock\<close>
  wakes one sleeper.  The two halves of the wait are \<open>CCond_sleep\<close> and \<open>CCond_resume\<close>.
\<close>

record cond =
  c_sleeping :: "nat list"
  c_awake :: "nat list"

definition CCond_new :: cond where
  "CCond_new = \<lparr>c_sleeping = [], c_awake = []\<rparr>"

definition CCond_sleep :: "nat \<Rightarrow> cond \<times> mutex \<Rightarrow> cond \<times> mutex" where
  "CCond_sleep t = (\<lambda>(c, m). (c\<lparr>c_sleeping := c_sleeping c @ [t]\<rparr>, CMutex_unlock t m))"

definition CCond_resume :: "nat \<Rightarrow> cond \<times> mutex \<Rightarrow> (bool \<times> cond \<times> mutex) option" where
  "CCond_resume t = (\<lambda>(c, m).
     if t \<in> set (c_awake c) then
       (case CMutex_lock False t m of None \<Rightarrow> None
        | Some (_, m1) \<Rightarrow> Some (True, c\<lparr>c_awake := remove1 t (c_awake c)\<rparr>, m1))
     else None)"

definition CCond_unlock :: "cond \<Rightarrow> cond" where
  "CCond_unlock c =
     (case c_sleeping c of [] \<Rightarrow> c | t # ts \<Rightarrow> c\<lparr>c_sleeping := ts, c_awake := c_awake c @ [t]\<rparr>)"

text \<open>A signal while the waiter sleeps lets it go on as soon as the mutex is free; a signal before it sleeps is lost.\<close>

lemma cond_handover:
  assumes "mutex_ok m" and "\<not> m_recursive m" and "m_owner m = Some t" and "c = CCond_new"
  shows "CCond_resume t (map_prod CCond_unlock id (CCond_sleep t (c, m))) = Some (True, CCond_new, m)"
    and "CCond_resume t (CCond_sleep t (CCond_unlock c, m)) = None"
  using assms
  by (auto simp: CCond_resume_def CCond_sleep_def CCond_unlock_def CCond_new_def CMutex_unlock_def CMutex_lock_def
      pthread_mutex_unlock_def pthread_mutex_lock_def pthread_mutex_trylock_def mutex_ok_def le_Suc_eq)

section \<open>Critical sections\<close>

text \<open>
  Threads that share a state and one mutex.  A thread has sections to run; a section is a sequence of
  elementary steps on the shared state, inside a CAutoLock.  \<open>Inside fs secs\<close> is in a section, with the steps \<open>fs\<close> of it left.
\<close>

datatype 's control = Outside "('s \<Rightarrow> 's) list list" | Inside "('s \<Rightarrow> 's) list" "('s \<Rightarrow> 's) list list"

record 's threads =
  y_state :: 's
  y_lock :: "mutex option"
  y_threads :: "'s control list"

definition threads_new :: "'s \<Rightarrow> ('s \<Rightarrow> 's) list list list \<Rightarrow> 's threads" where
  "threads_new s tss = \<lparr>y_state = s, y_lock = Some (CMutex_new False), y_threads = map Outside tss\<rparr>"

inductive threads_step :: "'s threads \<Rightarrow> 's threads \<Rightarrow> bool" where
  enter: "i < length (y_threads y) \<Longrightarrow> y_threads y ! i = Outside (sec # secs) \<Longrightarrow> CAutoLock_new i (y_lock y) = Some l \<Longrightarrow>
    threads_step y (y\<lparr>y_lock := l, y_threads := (y_threads y)[i := Inside sec secs]\<rparr>)"
| inner: "i < length (y_threads y) \<Longrightarrow> y_threads y ! i = Inside (f # fs) secs \<Longrightarrow>
    threads_step y (y\<lparr>y_state := f (y_state y), y_threads := (y_threads y)[i := Inside fs secs]\<rparr>)"
| exit: "i < length (y_threads y) \<Longrightarrow> y_threads y ! i = Inside [] secs \<Longrightarrow>
    threads_step y (y\<lparr>y_lock := CAutoLock_delete i (y_lock y), y_threads := (y_threads y)[i := Outside secs]\<rparr>)"

inductive threads_reach :: "'s threads \<Rightarrow> 's threads \<Rightarrow> bool" for y0 where
  none: "threads_reach y0 y0"
| some: "threads_reach y0 y \<Longrightarrow> threads_step y y' \<Longrightarrow> threads_reach y0 y'"

text \<open>The specification: a section is one step.\<close>

definition perform :: "('s \<Rightarrow> 's) list \<Rightarrow> 's \<Rightarrow> 's" where
  "perform fs s = foldl (\<lambda>s f. f s) s fs"

inductive atomic_step :: "'s \<times> ('s \<Rightarrow> 's) list list list \<Rightarrow> 's \<times> ('s \<Rightarrow> 's) list list list \<Rightarrow> bool" where
  atomic: "i < length tss \<Longrightarrow> tss ! i = sec # secs \<Longrightarrow> atomic_step (s, tss) (perform sec s, tss[i := secs])"

inductive atomic_reach :: "'s \<times> ('s \<Rightarrow> 's) list list list \<Rightarrow> 's \<times> ('s \<Rightarrow> 's) list list list \<Rightarrow> bool" for a0 where
  zero: "atomic_reach a0 a0"
| succ: "atomic_reach a0 a \<Longrightarrow> atomic_step a a' \<Longrightarrow> atomic_reach a0 a'"

text \<open>What the specification has in a state of the threads: a section that has begun has been performed.\<close>

fun sectionsLeft :: "'s control \<Rightarrow> ('s \<Rightarrow> 's) list list" where
  "sectionsLeft (Outside secs) = secs"
| "sectionsLeft (Inside fs secs) = secs"

fun stepsLeft :: "'s control \<Rightarrow> ('s \<Rightarrow> 's) list" where
  "stepsLeft (Outside secs) = []"
| "stepsLeft (Inside fs secs) = fs"

definition spec_of :: "'s threads \<Rightarrow> 's \<times> ('s \<Rightarrow> 's) list list list" where
  "spec_of y = (perform (concat (map stepsLeft (y_threads y))) (y_state y), map sectionsLeft (y_threads y))"

fun insideSection :: "'s control \<Rightarrow> bool" where
  "insideSection (Outside secs) = False"
| "insideSection (Inside fs secs) = True"

text \<open>The mutex has the owner that is inside a section.\<close>

definition threads_inv :: "'s threads \<Rightarrow> bool" where
  "threads_inv y \<longleftrightarrow>
     (\<exists>m. y_lock y = Some m \<and> mutex_ok m \<and> \<not> m_recursive m \<and>
       (\<forall>i < length (y_threads y). insideSection (y_threads y ! i) \<longleftrightarrow> m_owner m = Some i) \<and>
       (\<forall>i. m_owner m = Some i \<longrightarrow> i < length (y_threads y)))"

lemma threads_inv_new: "threads_inv (threads_new s tss)"
  by (simp add: threads_inv_def threads_new_def CMutex_new_def mutex_ok_def)

lemma guard_normal:
  assumes "mutex_ok m" and "\<not> m_recursive m"
  shows "CAutoLock_new i (Some m) = (if m_owner m = None then Some (Some (m\<lparr>m_owner := Some i, m_depth := 1\<rparr>)) else None)"
    and "CAutoLock_delete i (Some m) = Some (m\<lparr>m_owner := None, m_depth := 0\<rparr>)"
  using assms by (auto simp: CAutoLock_new_def CAutoLock_delete_def CMutex_lock_def CMutex_unlock_def pthread_mutex_lock_def
      pthread_mutex_trylock_def pthread_mutex_unlock_def split: option.splits)

lemma threads_inv_step: "threads_step y y' \<Longrightarrow> threads_inv y \<Longrightarrow> threads_inv y'"
proof (induction rule: threads_step.induct)
  case (enter i y sec secs l)
  then obtain m where m: "y_lock y = Some m" "mutex_ok m" "\<not> m_recursive m"
    "\<forall>i < length (y_threads y). insideSection (y_threads y ! i) \<longleftrightarrow> m_owner m = Some i"
    by (auto simp: threads_inv_def)
  then show ?case using enter guard_normal(1) [OF m(2,3), of i]
    by (auto simp: threads_inv_def mutex_ok_def nth_list_update split: if_splits)
next
  case (inner i y f fs secs)
  then have "insideSection (y_threads y ! i)" by simp
  then show ?case using inner by (fastforce simp: threads_inv_def nth_list_update)
next
  case (exit i y secs)
  then obtain m where m: "y_lock y = Some m" "mutex_ok m" "\<not> m_recursive m"
    "\<forall>i < length (y_threads y). insideSection (y_threads y ! i) \<longleftrightarrow> m_owner m = Some i"
    by (auto simp: threads_inv_def)
  then have "m_owner m = Some i" using exit by (metis insideSection.simps(2))
  then show ?case using m exit guard_normal(2) [OF m(2,3), of i]
    by (auto simp: threads_inv_def mutex_ok_def nth_list_update)
qed

lemma threads_inv_reach: "threads_reach y0 y \<Longrightarrow> threads_inv y0 \<Longrightarrow> threads_inv y"
  by (induction rule: threads_reach.induct) (auto intro: threads_inv_step)

lemma inside_unique:
  "threads_inv y \<Longrightarrow> i < length (y_threads y) \<Longrightarrow> j < length (y_threads y) \<Longrightarrow> insideSection (y_threads y ! i) \<Longrightarrow> insideSection (y_threads y ! j) \<Longrightarrow> i = j"
  unfolding threads_inv_def by (metis option.inject)

text \<open>At most one thread has steps left.\<close>

lemma rest_only:
  assumes "i < length ts" and "\<And>j. j < length ts \<Longrightarrow> j \<noteq> i \<Longrightarrow> stepsLeft (ts ! j) = []"
  shows "concat (map stepsLeft ts) = stepsLeft (ts ! i)"
proof -
  have "ts = take i ts @ ts ! i # drop (Suc i) ts" using assms(1) by (rule id_take_nth_drop)
  moreover have "concat (map stepsLeft (take i ts)) = []" "concat (map stepsLeft (drop (Suc i) ts)) = []"
    using assms by (auto simp: in_set_conv_nth)
  ultimately show ?thesis by (metis append.right_neutral append_Nil concat.simps(2) concat_append list.map(2) map_append)
qed

lemma inside_rest: "\<not> insideSection c \<Longrightarrow> stepsLeft c = []"
  by (cases c) simp_all

lemma perform_simps [simp]: "perform [] s = s" "perform (f # fs) s = perform fs (f s)"
  by (simp_all add: perform_def)

lemma threads_sim: "threads_step y y' \<Longrightarrow> threads_inv y \<Longrightarrow> spec_of y' = spec_of y \<or> atomic_step (spec_of y) (spec_of y')"
proof (induction rule: threads_step.induct)
  case (enter i y sec secs l)
  let ?ts = "y_threads y"
  obtain m where m: "y_lock y = Some m" "mutex_ok m" "\<not> m_recursive m"
    "\<forall>i < length ?ts. insideSection (?ts ! i) \<longleftrightarrow> m_owner m = Some i"
    using enter.prems by (auto simp: threads_inv_def)
  have "m_owner m = None" using enter.hyps(3) guard_normal(1) [OF m(2,3), of i] m(1) by (auto split: if_splits)
  then have r: "stepsLeft (?ts ! j) = []" if "j < length ?ts" for j using m(4) that inside_rest by auto
  have "concat (map stepsLeft (?ts[i := Inside sec secs])) = sec"
    using rest_only [of i "?ts[i := Inside sec secs]"] enter.hyps(1) r by simp
  moreover have "concat (map stepsLeft ?ts) = []" using r by (auto simp: in_set_conv_nth simp del: concat_eq_Nil_conv intro!: concat_eq_Nil_conv [THEN iffD2])
  then have "spec_of y = (y_state y, map sectionsLeft ?ts)" by (simp add: spec_of_def del: concat_eq_Nil_conv)
  moreover have "map sectionsLeft ?ts ! i = sec # secs" using enter.hyps(1,2) by simp
  ultimately show ?case
    using atomic_step.atomic [of i "map sectionsLeft ?ts" sec secs "y_state y"] enter.hyps(1) by (simp add: spec_of_def [of "y\<lparr>y_lock := l, y_threads := ?ts[i := Inside sec secs]\<rparr>"] map_update)
next
  case (inner i y f fs secs)
  let ?ts = "y_threads y"
  have r: "stepsLeft (?ts ! j) = []" if "j < length ?ts" "j \<noteq> i" for j
    using inside_unique [OF inner.prems, of i j] inner.hyps that inside_rest [of "?ts ! j"] by auto
  have "concat (map stepsLeft ?ts) = f # fs" using rest_only [of i ?ts] inner.hyps r by simp
  moreover have "concat (map stepsLeft (?ts[i := Inside fs secs])) = fs"
    using rest_only [of i "?ts[i := Inside fs secs]"] inner.hyps(1) r by simp
  moreover have "map sectionsLeft (?ts[i := Inside fs secs]) = map sectionsLeft ?ts"
    using inner.hyps by (simp add: map_update list_update_same_conv)
  ultimately show ?case by (simp add: spec_of_def)
next
  case (exit i y secs)
  let ?ts = "y_threads y"
  have "map stepsLeft (?ts[i := Outside secs]) = map stepsLeft ?ts" "map sectionsLeft (?ts[i := Outside secs]) = map sectionsLeft ?ts"
    using exit.hyps by (simp_all add: map_update list_update_same_conv)
  then show ?case by (simp add: spec_of_def)
qed

lemma threads_refine:
  assumes "threads_reach y0 y" and "threads_inv y0"
  shows "atomic_reach (spec_of y0) (spec_of y)"
  using assms
proof (induction rule: threads_reach.induct)
  case (some y y')
  then show ?case using threads_sim [OF some.hyps(2) threads_inv_reach [OF some.hyps(1) some.prems]] by (metis atomic_reach.succ)
qed (rule atomic_reach.zero)

text \<open>Progress: some thread can go on until every thread is through.\<close>

lemma threads_progress:
  assumes inv: "threads_inv y" and c: "i < length (y_threads y)" "y_threads y ! i \<noteq> Outside []"
  shows "\<exists>y'. threads_step y y'"
proof -
  obtain m where m: "y_lock y = Some m" "mutex_ok m" "\<not> m_recursive m"
    "\<forall>i < length (y_threads y). insideSection (y_threads y ! i) \<longleftrightarrow> m_owner m = Some i"
    "\<forall>i. m_owner m = Some i \<longrightarrow> i < length (y_threads y)"
    using inv by (auto simp: threads_inv_def)
  show ?thesis
  proof (cases "m_owner m")
    case None
    then have "\<not> insideSection (y_threads y ! i)" using m(4) c(1) by auto
    then obtain sec secs where "y_threads y ! i = Outside (sec # secs)"
      using c(2) by (cases "y_threads y ! i") (auto simp: neq_Nil_conv)
    then show ?thesis using threads_step.enter [OF c(1)] guard_normal(1) [OF m(2,3), of i] m(1) None by auto
  next
    case (Some j)
    then have j: "j < length (y_threads y)" "insideSection (y_threads y ! j)" using m(4,5) by auto
    then obtain fs secs where "y_threads y ! j = Inside fs secs" by (cases "y_threads y ! j") auto
    then show ?thesis using threads_step.inner [OF j(1)] threads_step.exit [OF j(1)] by (cases fs) blast+
  qed
qed

text \<open>Every step brings the threads closer to their end.\<close>

fun workLeft :: "'s control \<Rightarrow> nat" where
  "workLeft (Outside secs) = sum_list (map (\<lambda>sec. Suc (Suc (length sec))) secs)"
| "workLeft (Inside fs secs) = Suc (length fs) + sum_list (map (\<lambda>sec. Suc (Suc (length sec))) secs)"

lemma left_update:
  assumes "i < length ts" and "workLeft c < workLeft (ts ! i)"
  shows "sum_list (map workLeft (ts[i := c])) < sum_list (map workLeft ts)"
proof -
  have "workLeft (ts ! i) \<le> sum_list (map workLeft ts)" using elem_le_sum_list [of i "map workLeft ts"] assms(1) by simp
  then show ?thesis using assms by (simp add: map_update sum_list_update)
qed

lemma threads_left: "threads_step y y' \<Longrightarrow> sum_list (map workLeft (y_threads y')) < sum_list (map workLeft (y_threads y))"
  by (induction rule: threads_step.induct) (simp_all add: left_update)

section \<open>Properties\<close>

text \<open>C12: Critical sections are atomic.  Threads start with sections to run, each guarded by a \<open>CAutoLock\<close> on the same \<open>CMutex\<close>.  However their steps
  interleave, at most one of them is inside a section; the shared state is one that is reached by running whole sections, one
  at a time and in the order of each thread, and the rest of the current section; and some thread can go on unless all are through.\<close>

theorem locks_serialise:
  assumes "threads_reach (threads_new s tss) y"
  shows "length (filter insideSection (y_threads y)) \<le> 1 \<and> atomic_reach (s, tss) (spec_of y) \<and>
     ((\<exists>y'. threads_step y y') \<or> spec_of y = (y_state y, replicate (length (y_threads y)) []))"
proof (intro conjI)
  have inv: "threads_inv y" by (rule threads_inv_reach [OF assms threads_inv_new])
  have "i = j" if "i \<in> {i. i < length (y_threads y) \<and> insideSection (y_threads y ! i)}" "j \<in> {i. i < length (y_threads y) \<and> insideSection (y_threads y ! i)}" for i j
    using that inside_unique [OF inv] by blast
  then show "length (filter insideSection (y_threads y)) \<le> 1" by (simp add: length_filter_conv_card card_le_Suc0_iff_eq)
  have "concat (map stepsLeft (map Outside tss)) = []" "map sectionsLeft (map Outside tss) = tss" by (simp_all add: comp_def)
  then have "spec_of (threads_new s tss) = (s, tss)" unfolding spec_of_def threads_new_def by (simp del: map_map concat_eq_Nil_conv)
  then show "atomic_reach (s, tss) (spec_of y)" using threads_refine [OF assms threads_inv_new] by simp
  show "(\<exists>y'. threads_step y y') \<or> spec_of y = (y_state y, replicate (length (y_threads y)) [])"
  proof (cases "\<exists>i < length (y_threads y). y_threads y ! i \<noteq> Outside []")
    case False
    then have "y_threads y = replicate (length (y_threads y)) (Outside [])" by (intro nth_equalityI) simp_all
    then have "map stepsLeft (y_threads y) = replicate (length (y_threads y)) []" "map sectionsLeft (y_threads y) = replicate (length (y_threads y)) []"
      by (metis map_replicate stepsLeft.simps(1), metis map_replicate sectionsLeft.simps(1))
    then show ?thesis by (simp add: spec_of_def)
  qed (use threads_progress [OF inv] in blast)
qed

theorem locks_serialise_witness:
  "\<exists>y. threads_reach (threads_new (5 :: nat) [[[Suc, Suc]], [[\<lambda>n. 2 * n]]]) y \<and> y_state y = 6 \<and>
     length (filter insideSection (y_threads y)) \<le> 1 \<and> atomic_reach (5, [[[Suc, Suc]], [[\<lambda>n. 2 * n]]]) (7, [[], [[\<lambda>n. 2 * n]]])"
proof -
  let ?y0 = "threads_new (5 :: nat) [[[Suc, Suc]], [[\<lambda>n. 2 * n]]]"
  let ?l = "Some \<lparr>m_recursive = False, m_owner = Some 0, m_depth = 1\<rparr>"
  let ?y1 = "\<lparr>y_state = 5, y_lock = ?l, y_threads = [Inside [Suc, Suc] [], Outside [[\<lambda>n. 2 * n]]]\<rparr>"
  let ?y2 = "\<lparr>y_state = 6, y_lock = ?l, y_threads = [Inside [Suc] [], Outside [[\<lambda>n. 2 * n]]]\<rparr>"
  have "threads_step ?y0 ?y1"
    using threads_step.enter [of 0 ?y0 "[Suc, Suc]" "[]" ?l] guard_normal(1) [of "CMutex_new False" 0]
    by (simp add: threads_new_def CMutex_new_def mutex_ok_def)
  moreover have "threads_step ?y1 ?y2" using threads_step.inner [of 0 ?y1 Suc "[Suc]" "[]"] by simp
  ultimately have r: "threads_reach ?y0 ?y2" by (meson threads_reach.intros)
  then show ?thesis using locks_serialise [OF r] by (auto simp: spec_of_def intro!: exI [of _ ?y2])
qed

end
