(* ===== verification/Lock_Order.thy ===== *)
theory Lock_Order
  imports Locks
begin

text \<open>
  The order in which the threads of the server take their mutexes.  The control of a method is reduced to its \<open>outline\<close>: the sections that it guards by
  a mutex, in sequence, in branches and in loops.  An outline is \<open>disciplined\<close> if a mutex is only taken while the ones that are held have a lower level,
  or again if it is recursive.  Threads with disciplined outlines exclude each other and never block one another for good, which is proved once
  in the locale \<open>lock_order\<close> and holds of the network thread, the timer thread and the threads of the groups by the interpretation \<open>server\<close>.
\<close>

section \<open>Outlines\<close>

datatype 'l outline = Nothing | Locked 'l "'l outline" | Then "'l outline" "'l outline" | Either "'l outline" "'l outline" | Repeat "'l outline"

text \<open>What a thread has left to do: outlines to run, and mutexes to unlock where a section ends.\<close>

datatype 'l todo = Run "'l outline" | Unlock 'l

fun held :: "'l todo list \<Rightarrow> 'l list" where
  "held [] = []"
| "held (Run p # s) = held s"
| "held (Unlock l # s) = l # held s"

record 'l lockState =
  k_mutex :: "'l \<Rightarrow> mutex"
  k_stacks :: "'l todo list list"

definition lockState_new :: "('l \<Rightarrow> bool) \<Rightarrow> 'l outline list \<Rightarrow> 'l lockState" where
  "lockState_new recursive ps = \<lparr>k_mutex = \<lambda>l. CMutex_new (recursive l), k_stacks = map (\<lambda>p. [Run p]) ps\<rparr>"

text \<open>\<open>moves i k k'\<close> is a step of the thread \<open>i\<close>.\<close>

inductive moves :: "nat \<Rightarrow> 'l lockState \<Rightarrow> 'l lockState \<Rightarrow> bool" for i k where
  nothing: "i < length (k_stacks k) \<Longrightarrow> k_stacks k ! i = Run Nothing # s \<Longrightarrow> moves i k (k\<lparr>k_stacks := (k_stacks k)[i := s]\<rparr>)"
| acquire: "i < length (k_stacks k) \<Longrightarrow> k_stacks k ! i = Run (Locked l p) # s \<Longrightarrow> CMutex_lock False i (k_mutex k l) = Some (ok, m) \<Longrightarrow>
    moves i k (k\<lparr>k_mutex := (k_mutex k)(l := m), k_stacks := (k_stacks k)[i := Run p # Unlock l # s]\<rparr>)"
| release: "i < length (k_stacks k) \<Longrightarrow> k_stacks k ! i = Unlock l # s \<Longrightarrow>
    moves i k (k\<lparr>k_mutex := (k_mutex k)(l := CMutex_unlock i (k_mutex k l)), k_stacks := (k_stacks k)[i := s]\<rparr>)"
| sequence: "i < length (k_stacks k) \<Longrightarrow> k_stacks k ! i = Run (Then p q) # s \<Longrightarrow> moves i k (k\<lparr>k_stacks := (k_stacks k)[i := Run p # Run q # s]\<rparr>)"
| first: "i < length (k_stacks k) \<Longrightarrow> k_stacks k ! i = Run (Either p q) # s \<Longrightarrow> moves i k (k\<lparr>k_stacks := (k_stacks k)[i := Run p # s]\<rparr>)"
| second: "i < length (k_stacks k) \<Longrightarrow> k_stacks k ! i = Run (Either p q) # s \<Longrightarrow> moves i k (k\<lparr>k_stacks := (k_stacks k)[i := Run q # s]\<rparr>)"
| again: "i < length (k_stacks k) \<Longrightarrow> k_stacks k ! i = Run (Repeat p) # s \<Longrightarrow> moves i k (k\<lparr>k_stacks := (k_stacks k)[i := Run p # Run (Repeat p) # s]\<rparr>)"
| over: "i < length (k_stacks k) \<Longrightarrow> k_stacks k ! i = Run (Repeat p) # s \<Longrightarrow> moves i k (k\<lparr>k_stacks := (k_stacks k)[i := s]\<rparr>)"

text \<open>Runs in which the threads of \<open>F\<close> stand still.\<close>

inductive runs :: "nat set \<Rightarrow> 'l lockState \<Rightarrow> 'l lockState \<Rightarrow> bool" for F where
  halt: "runs F k k"
| move: "runs F k k1 \<Longrightarrow> i \<notin> F \<Longrightarrow> moves i k1 k2 \<Longrightarrow> runs F k k2"

lemma runs_trans: "runs F k1 k2 \<Longrightarrow> runs F k k1 \<Longrightarrow> runs F k k2"
  by (induction rule: runs.induct) (auto intro: runs.move)

lemma runs_mono: "runs F k k' \<Longrightarrow> G \<subseteq> F \<Longrightarrow> runs G k k'"
  by (induction rule: runs.induct) (auto intro: runs.intros)

lemma moves_length: "moves i k k' \<Longrightarrow> length (k_stacks k') = length (k_stacks k)"
  by (induction rule: moves.induct) simp_all

lemma moves_others: "moves i k k' \<Longrightarrow> j \<noteq> i \<Longrightarrow> k_stacks k' ! j = k_stacks k ! j"
  by (induction rule: moves.induct) simp_all

lemma runs_length: "runs F k k' \<Longrightarrow> length (k_stacks k') = length (k_stacks k)"
  by (induction rule: runs.induct) (auto simp: moves_length)

lemma runs_still: "runs F k k' \<Longrightarrow> j \<in> F \<Longrightarrow> k_stacks k' ! j = k_stacks k ! j"
  by (induction rule: runs.induct) (simp, metis moves_others)

text \<open>A thread waits for a mutex where \<open>CMutex::lock\<close> blocks.\<close>

definition waits :: "'l lockState \<Rightarrow> nat \<Rightarrow> 'l \<Rightarrow> bool" where
  "waits k i l \<longleftrightarrow> i < length (k_stacks k) \<and> (\<exists>p s. k_stacks k ! i = Run (Locked l p) # s) \<and> CMutex_lock False i (k_mutex k l) = None"

text \<open>The weight of what is left, with every loop left at its next test.\<close>

primrec outline_weight :: "'l outline \<Rightarrow> nat" where
  "outline_weight Nothing = 1"
| "outline_weight (Locked l p) = Suc (Suc (outline_weight p))"
| "outline_weight (Then p q) = Suc (outline_weight p + outline_weight q)"
| "outline_weight (Either p q) = Suc (outline_weight p + outline_weight q)"
| "outline_weight (Repeat p) = 1"

fun todo_weight :: "'l todo \<Rightarrow> nat" where
  "todo_weight (Run p) = outline_weight p"
| "todo_weight (Unlock l) = 1"

definition stack_weight :: "'l todo list \<Rightarrow> nat" where
  "stack_weight s = sum_list (map todo_weight s)"

lemma stack_weight_simps [simp]: "stack_weight [] = 0" "stack_weight (t # s) = todo_weight t + stack_weight s"
  by (simp_all add: stack_weight_def)

text \<open>A thread that has something left and does not wait can go on towards its end.\<close>

lemma moves_on:
  assumes "i < length (k_stacks k)" and "k_stacks k ! i \<noteq> []" and "\<And>l. \<not> waits k i l"
  shows "\<exists>k'. moves i k k' \<and> stack_weight (k_stacks k' ! i) < stack_weight (k_stacks k ! i)"
proof -
  obtain t s where ts: "k_stacks k ! i = t # s" using assms(2) by (auto simp: neq_Nil_conv)
  show ?thesis
  proof (cases t)
    case (Unlock l)
    then show ?thesis using moves.release [OF assms(1), of l s] ts assms(1) by (intro exI conjI) (assumption | simp)+
  next
    case (Run p)
    show ?thesis
    proof (cases p)
      case Nothing
      then show ?thesis using moves.nothing [OF assms(1), of s] ts Run assms(1) by (intro exI conjI) (assumption | simp)+
    next
      case (Locked l q)
      then have "CMutex_lock False i (k_mutex k l) \<noteq> None" using assms(1) assms(3) [of l] ts Run by (auto simp: waits_def)
      then obtain ok m where "CMutex_lock False i (k_mutex k l) = Some (ok, m)" by auto
      then show ?thesis using moves.acquire [OF assms(1), of l q s ok m] ts Run Locked assms(1) by (intro exI conjI) (assumption | simp)+
    next
      case (Then q r)
      then show ?thesis using moves.sequence [OF assms(1), of q r s] ts Run assms(1) by (intro exI conjI) (assumption | simp)+
    next
      case (Either q r)
      then show ?thesis using moves.first [OF assms(1), of q r s] ts Run assms(1) by (intro exI conjI) (assumption | simp)+
    next
      case (Repeat q)
      then show ?thesis using moves.over [OF assms(1), of q s] ts Run assms(1) by (intro exI conjI) (assumption | simp)+
    qed
  qed
qed

section \<open>The discipline\<close>

primrec disciplined :: "('l \<Rightarrow> nat) \<Rightarrow> ('l \<Rightarrow> bool) \<Rightarrow> 'l outline \<Rightarrow> 'l list \<Rightarrow> bool" where
  "disciplined level recursive Nothing hs = True"
| "disciplined level recursive (Locked l p) hs =
     ((if l \<in> set hs then recursive l else list_all (\<lambda>h. level h < level l) hs) \<and> disciplined level recursive p (l # hs))"
| "disciplined level recursive (Then p q) hs = (disciplined level recursive p hs \<and> disciplined level recursive q hs)"
| "disciplined level recursive (Either p q) hs = (disciplined level recursive p hs \<and> disciplined level recursive q hs)"
| "disciplined level recursive (Repeat p) hs = disciplined level recursive p hs"

fun stack_ok :: "('l \<Rightarrow> nat) \<Rightarrow> ('l \<Rightarrow> bool) \<Rightarrow> 'l todo list \<Rightarrow> bool" where
  "stack_ok level recursive [] = True"
| "stack_ok level recursive (Run p # s) = (disciplined level recursive p (held s) \<and> stack_ok level recursive s)"
| "stack_ok level recursive (Unlock l # s) = stack_ok level recursive s"

text \<open>The owner of a mutex is the thread that has yet to unlock it, and as often as its depth says.\<close>

definition mutexes_ok :: "('l \<Rightarrow> bool) \<Rightarrow> 'l lockState \<Rightarrow> bool" where
  "mutexes_ok recursive k \<longleftrightarrow>
     (\<forall>l. mutex_ok (k_mutex k l) \<and> m_recursive (k_mutex k l) = recursive l \<and>
       (\<forall>i. m_owner (k_mutex k l) = Some i \<longrightarrow> i < length (k_stacks k)) \<and>
       (\<forall>i < length (k_stacks k). count_list (held (k_stacks k ! i)) l = (if m_owner (k_mutex k l) = Some i then m_depth (k_mutex k l) else 0)))"

lemma mutexes_okD:
  assumes "mutexes_ok recursive k"
  shows "mutex_ok (k_mutex k l)" and "m_recursive (k_mutex k l) = recursive l"
    and "m_owner (k_mutex k l) = Some i \<Longrightarrow> i < length (k_stacks k)"
    and "i < length (k_stacks k) \<Longrightarrow> count_list (held (k_stacks k ! i)) l = (if m_owner (k_mutex k l) = Some i then m_depth (k_mutex k l) else 0)"
  using assms unfolding mutexes_ok_def by blast+

lemma owner_iff:
  assumes "mutexes_ok recursive k" and "i < length (k_stacks k)"
  shows "m_owner (k_mutex k l) = Some i \<longleftrightarrow> l \<in> set (held (k_stacks k ! i))"
  using mutexes_okD(4) [OF assms, of l] mutexes_okD(1) [OF assms(1), of l] count_list_0_iff [of "held (k_stacks k ! i)" l]
  by (auto simp: mutex_ok_def split: if_splits)

text \<open>A step that neither locks nor unlocks.\<close>

lemma mutexes_ok_quiet:
  assumes "mutexes_ok recursive k" and "i < length (k_stacks k)" and "held s = held (k_stacks k ! i)"
  shows "mutexes_ok recursive (k\<lparr>k_stacks := (k_stacks k)[i := s]\<rparr>)"
  using assms unfolding mutexes_ok_def by (auto simp: nth_list_update)

lemma mutexes_ok_acquire:
  assumes ok: "mutexes_ok recursive k" and i: "i < length (k_stacks k)" and h: "held s = l # held (k_stacks k ! i)"
    and lock: "CMutex_lock False i (k_mutex k l) = Some (r, m)"
  shows "mutexes_ok recursive (k\<lparr>k_mutex := (k_mutex k)(l := m), k_stacks := (k_stacks k)[i := s]\<rparr>)"
proof -
  let ?m = "k_mutex k l"
  have m: "m = ?m\<lparr>m_owner := Some i, m_depth := Suc (m_depth ?m)\<rparr> \<and> (m_owner ?m = None \<or> m_owner ?m = Some i \<and> m_recursive ?m)"
    using lock mutexes_okD(1) [OF ok, of l]
    by (auto simp: CMutex_lock_def pthread_mutex_lock_def pthread_mutex_trylock_def mutex_ok_def split: option.splits if_splits)
  then have "mutex_ok m" using mutexes_okD(1) [OF ok, of l] by (auto simp: mutex_ok_def)
  moreover have "count_list (held (k_stacks k ! j)) l = (if m_owner ?m = Some j then m_depth ?m else 0)" if "j < length (k_stacks k)" for j
    using mutexes_okD(4) [OF ok that] .
  ultimately show ?thesis using ok m i h mutexes_okD(1) [OF ok, of l] unfolding mutexes_ok_def
    by (auto simp: nth_list_update mutex_ok_def)
qed

lemma mutexes_ok_release:
  assumes ok: "mutexes_ok recursive k" and i: "i < length (k_stacks k)" and h: "held (k_stacks k ! i) = l # held s"
  shows "mutexes_ok recursive (k\<lparr>k_mutex := (k_mutex k)(l := CMutex_unlock i (k_mutex k l)), k_stacks := (k_stacks k)[i := s]\<rparr>)"
proof -
  let ?m = "k_mutex k l"
  have o: "m_owner ?m = Some i" using owner_iff [OF ok i] h by simp
  have d: "m_depth ?m = Suc (count_list (held s) l)" using mutexes_okD(4) [OF ok i, of l] o h by simp
  have "CMutex_unlock i ?m = ?m\<lparr>m_owner := (if count_list (held s) l = 0 then None else Some i), m_depth := count_list (held s) l\<rparr>"
    using o d mutexes_okD(1) [OF ok, of l] by (auto simp: CMutex_unlock_def pthread_mutex_unlock_def mutex_ok_def)
  moreover have "count_list (held s) l' = (if m_owner (k_mutex k l') = Some i then m_depth (k_mutex k l') else 0)" if "l' \<noteq> l" for l'
    using mutexes_okD(4) [OF ok i, of l'] h that by simp
  ultimately show ?thesis using ok o d i unfolding mutexes_ok_def by (auto simp: nth_list_update mutex_ok_def)
qed

lemma mutexes_ok_moves: "moves i k k' \<Longrightarrow> mutexes_ok recursive k \<Longrightarrow> mutexes_ok recursive k'"
  by (induction rule: moves.induct) (auto intro!: mutexes_ok_quiet mutexes_ok_acquire mutexes_ok_release)

lemma stack_ok_moves:
  assumes "moves i k k'" and "\<forall>j < length (k_stacks k). stack_ok level recursive (k_stacks k ! j)"
  shows "\<forall>j < length (k_stacks k'). stack_ok level recursive (k_stacks k' ! j)"
  using assms
proof (induction rule: moves.induct)
  case (acquire l p s ok m)
  then have "stack_ok level recursive (Run (Locked l p) # s)" by metis
  then show ?case using acquire by (simp add: nth_list_update)
qed (fastforce simp: nth_list_update)+


section \<open>Threads under the discipline\<close>

text \<open>
  What the provider of the threads promises: every outline is disciplined.
\<close>

locale lock_order =
  fixes level :: "'l \<Rightarrow> nat" and recursive :: "'l \<Rightarrow> bool" and task :: "'t \<Rightarrow> 'l outline"
  assumes task_disciplined: "disciplined level recursive (task t) []"
begin

definition order_inv :: "'l lockState \<Rightarrow> bool" where
  "order_inv k \<longleftrightarrow> mutexes_ok recursive k \<and> (\<forall>i < length (k_stacks k). stack_ok level recursive (k_stacks k ! i))"

lemma inv_start: "order_inv (lockState_new recursive (map task ts))"
  by (auto simp: order_inv_def lockState_new_def mutexes_ok_def mutex_ok_def CMutex_new_def task_disciplined)

lemma inv_moves: "moves i k k' \<Longrightarrow> order_inv k \<Longrightarrow> order_inv k'"
  using stack_ok_moves [of i k k' level recursive] mutexes_ok_moves [of i k k' recursive] by (auto simp: order_inv_def)

lemma inv_runs: "runs F k k' \<Longrightarrow> order_inv k \<Longrightarrow> order_inv k'"
  by (induction rule: runs.induct) (auto intro: inv_moves)

text \<open>A thread waits for a mutex of another thread, and above the level of those that it holds.\<close>

lemma waits_above:
  assumes inv: "order_inv k" and w: "waits k i l"
  shows "\<forall>h \<in> set (held (k_stacks k ! i)). level h < level l"
    and "\<exists>j. m_owner (k_mutex k l) = Some j \<and> j \<noteq> i"
proof -
  obtain p s where i: "i < length (k_stacks k)" "k_stacks k ! i = Run (Locked l p) # s"
    and o: "\<exists>u. m_owner (k_mutex k l) = Some u \<and> (u \<noteq> i \<or> \<not> recursive l)"
    using w mutexes_okD(2) [of recursive k l] inv by (auto simp: waits_def lock_blocks order_inv_def)
  have d: "if l \<in> set (held s) then recursive l else list_all (\<lambda>h. level h < level l) (held s)"
    using inv i by (force simp: order_inv_def)
  moreover have "m_owner (k_mutex k l) = Some i \<longleftrightarrow> l \<in> set (held s)"
    using owner_iff [of recursive k i l] inv i by (simp add: order_inv_def)
  ultimately show "\<forall>h \<in> set (held (k_stacks k ! i)). level h < level l" "\<exists>j. m_owner (k_mutex k l) = Some j \<and> j \<noteq> i"
    using o i(2) by (auto simp: list_all_iff split: if_splits)
qed

text \<open>
  A mutex that is held is given up in some run.  The threads of \<open>F\<close> need not move for it, if what they hold
  is below the mutex.
\<close>

lemma owner_after:
  assumes "order_inv k" and "moves j k k'" and "m_owner (k_mutex k l) = Some j"
  shows "m_owner (k_mutex k' l) \<in> {None, Some j}"
proof (rule ccontr)
  assume "\<not> ?thesis"
  then obtain u where u: "m_owner (k_mutex k' l) = Some u" "u \<noteq> j" by auto
  have i': "mutexes_ok recursive k'" "mutexes_ok recursive k" using assms inv_moves by (auto simp: order_inv_def)
  have "u < length (k_stacks k')" using mutexes_okD(3) [OF i'(1) u(1)] .
  then have "m_owner (k_mutex k l) = Some u"
    using owner_iff [OF i'(1), of u l] owner_iff [OF i'(2), of u l] moves_others [OF assms(2) u(2)] moves_length [OF assms(2)] u(1) by simp
  then show False using assms(3) u(2) by simp
qed

lemma given_up:
  assumes "order_inv k" and "m_owner (k_mutex k l) = Some j" and "card ({..<length (k_stacks k)} - F) = n"
    and "\<forall>f \<in> F. f < length (k_stacks k) \<longrightarrow> (\<forall>h \<in> set (held (k_stacks k ! f)). level h < level l)"
  shows "\<exists>k'. runs F k k' \<and> m_owner (k_mutex k' l) = None"
  using assms
proof (induction n arbitrary: k l j F rule: less_induct)
  case outer: (less n)
  show ?case using outer.prems
  proof (induction "stack_weight (k_stacks k ! j)" arbitrary: k rule: less_induct)
    case inner: (less k)
    have mok: "mutexes_ok recursive k" using inner.prems(1) by (simp add: order_inv_def)
    have j: "j < length (k_stacks k)" using mutexes_okD(3) [OF mok inner.prems(2)] .
    then have l: "l \<in> set (held (k_stacks k ! j))" using owner_iff [OF mok] inner.prems(2) by blast
    then have jF: "j \<notin> F" using inner.prems(4) j by blast
    have onward: ?case
      if r: "runs F k k1" and m: "moves j k1 k2" and o: "m_owner (k_mutex k1 l) = Some j"
        and w: "stack_weight (k_stacks k2 ! j) < stack_weight (k_stacks k ! j)" for k1 k2
    proof -
      have r2: "runs F k k2" using runs.move [OF r jF m] .
      have inv2: "order_inv k2" "order_inv k1" using inv_runs r r2 inner.prems(1) by blast+
      show ?thesis
      proof (cases "m_owner (k_mutex k2 l)")
        case (Some u)
        then have "m_owner (k_mutex k2 l) = Some j" using owner_after [OF inv2(2) m o] by auto
        then obtain k3 where "runs F k2 k3" "m_owner (k_mutex k3 l) = None"
          using inner.hyps [OF w inv2(1)] runs_length [OF r2] runs_still [OF r2] inner.prems(3,4) by auto
        then show ?thesis using runs_trans r2 by blast
      qed (use r2 in blast)
    qed
    show ?case
    proof (cases "\<exists>l'. waits k j l'")
      case False
      then obtain k2 where "moves j k k2" "stack_weight (k_stacks k2 ! j) < stack_weight (k_stacks k ! j)"
        using moves_on [OF j] l by fastforce
      then show ?thesis using onward [OF runs.halt] inner.prems(2) by blast
    next
      case True
      then obtain l' where w: "waits k j l'" by blast
      obtain j' where j': "m_owner (k_mutex k l') = Some j'" using waits_above(2) [OF inner.prems(1) w] by blast
      have lv: "\<forall>h \<in> set (held (k_stacks k ! j)). level h < level l'" using waits_above(1) [OF inner.prems(1) w] .
      then have "\<forall>f \<in> insert j F. f < length (k_stacks k) \<longrightarrow> (\<forall>h \<in> set (held (k_stacks k ! f)). level h < level l')"
        using inner.prems(4) l by (metis insertE less_trans)
      moreover have "card ({..<length (k_stacks k)} - insert j F) < n"
        using inner.prems(3) j jF by (metis DiffI Diff_insert card_Diff1_less finite_Diff finite_lessThan lessThan_iff)
      ultimately obtain k1 where r: "runs (insert j F) k k1" and free: "m_owner (k_mutex k1 l') = None"
        using outer.IH [OF _ inner.prems(1) j' refl] by blast
      have inv1: "order_inv k1" using inv_runs r inner.prems(1) by blast
      have s1: "k_stacks k1 ! j = k_stacks k ! j" using runs_still [OF r] by simp
      then have "\<not> waits k1 j l''" for l''
        using free w by (auto simp: waits_def lock_blocks)
      then obtain k2 where "moves j k1 k2" "stack_weight (k_stacks k2 ! j) < stack_weight (k_stacks k ! j)"
        using moves_on [of j k1] l s1 j runs_length [OF r] by fastforce
      moreover have "m_owner (k_mutex k1 l) = Some j"
        using owner_iff [of recursive k1 j l] inv1 l s1 j runs_length [OF r] by (simp add: order_inv_def)
      ultimately show ?thesis using onward runs_mono [OF r] by blast
    qed
  qed
qed

text \<open>
  A thread with something left can make its next step after a run of the others: none is blocked for good.
\<close>

lemma never_stuck:
  assumes inv: "order_inv k" and i: "i < length (k_stacks k)" "k_stacks k ! i \<noteq> []"
  shows "\<exists>k1 k2. runs {i} k k1 \<and> moves i k1 k2"
proof (cases "\<exists>l. waits k i l")
  case False
  then show ?thesis using moves_on [OF i] runs.halt by blast
next
  case True
  then obtain l where w: "waits k i l" by blast
  obtain j where "m_owner (k_mutex k l) = Some j" using waits_above(2) [OF inv w] by blast
  then obtain k1 where r: "runs {i} k k1" "m_owner (k_mutex k1 l) = None"
    using given_up [OF inv _ refl, of l j "{i}"] waits_above(1) [OF inv w] by auto
  have s: "k_stacks k1 ! i = k_stacks k ! i" "length (k_stacks k1) = length (k_stacks k)" using runs_still [OF r(1)] runs_length [OF r(1)] by simp_all
  then have "\<not> waits k1 i l'" for l' using r(2) w by (auto simp: waits_def lock_blocks)
  then show ?thesis using moves_on [of i k1] s i r(1) by auto
qed

lemma exclusive:
  assumes "order_inv k" and "i < length (k_stacks k)" and "j < length (k_stacks k)"
    and "l \<in> set (held (k_stacks k ! i))" and "l \<in> set (held (k_stacks k ! j))"
  shows "i = j"
  using assms owner_iff [of recursive k i l] owner_iff [of recursive k j l] by (auto simp: order_inv_def)

end

section \<open>The outlines of the server\<close>

text \<open>
  The mutexes: \<open>_mutex\<close> of CTrafficManager, of each CNodeGroup (its ring has the same), of CTimerManager (which is recursive and is that of the pool of timers too), of
  CTransactionManager, and the two of CWorker.  The pool of nodes has none.
\<close>

datatype lockId = TrafficMutex | GroupMutex nat | TimerMutex | RegistryMutex | WorkerMutex | InformedMutex nat

definition serverRecursive :: "lockId \<Rightarrow> bool" where
  "serverRecursive l \<longleftrightarrow> l = TimerMutex"

fun serverLevel :: "lockId \<Rightarrow> nat" where
  "serverLevel TrafficMutex = 0"
| "serverLevel (GroupMutex g) = 1"
| "serverLevel TimerMutex = 2"
| "serverLevel RegistryMutex = 3"
| "serverLevel WorkerMutex = 4"
| "serverLevel (InformedMutex w) = 5"

text \<open>A branch that may be left out, and the choice of a group.\<close>

definition Maybe :: "'l outline \<Rightarrow> 'l outline" where
  "Maybe p = Either p Nothing"

primrec AnyGroup :: "nat \<Rightarrow> (nat \<Rightarrow> 'l outline) \<Rightarrow> 'l outline" where
  "AnyGroup 0 p = Nothing"
| "AnyGroup (Suc n) p = Either (p n) (AnyGroup n p)"

text \<open>CResource and CLoopBuffer take the mutex that they are given, or none.\<close>

definition CResource_allocate_outline :: "lockId option \<Rightarrow> lockId outline" where
  "CResource_allocate_outline m = (case m of None \<Rightarrow> Nothing | Some l \<Rightarrow> Locked l Nothing)"

definition CResource_reclaim_outline :: "lockId option \<Rightarrow> lockId outline" where
  "CResource_reclaim_outline m = (case m of None \<Rightarrow> Nothing | Some l \<Rightarrow> Locked l Nothing)"

definition CLoopBuffer_write_outline :: "lockId option \<Rightarrow> lockId outline" where
  "CLoopBuffer_write_outline m = (case m of None \<Rightarrow> Nothing | Some l \<Rightarrow> Locked l Nothing)"

definition CLoopBuffer_read_outline :: "lockId option \<Rightarrow> lockId outline" where
  "CLoopBuffer_read_outline m = (case m of None \<Rightarrow> Nothing | Some l \<Rightarrow> Locked l Nothing)"

text \<open>CTimerManager.  \<open>killTimer\<close> and \<open>working\<close> give timers back to the pool while they hold the mutex of the pool.\<close>

definition CTimerManager_setTimer_outline :: "lockId outline" where
  "CTimerManager_setTimer_outline = Then (CResource_allocate_outline (Some TimerMutex)) (Maybe (Locked TimerMutex Nothing))"

definition CTimerManager_killTimer_outline :: "lockId outline" where
  "CTimerManager_killTimer_outline = Locked TimerMutex (Maybe (CResource_reclaim_outline (Some TimerMutex)))"

definition CTimerManager_delTimer_outline :: "lockId outline" where
  "CTimerManager_delTimer_outline = CResource_reclaim_outline (Some TimerMutex)"

definition CTimerManager_working_outline :: "lockId outline \<Rightarrow> lockId outline" where
  "CTimerManager_working_outline onTimer =
     Then (Locked TimerMutex (Repeat (Maybe CTimerManager_delTimer_outline)))
       (Maybe (Then onTimer (Maybe CTimerManager_delTimer_outline)))"

text \<open>CTransactionManager.\<close>

definition CTransactionManager_registerTransaction_outline :: "lockId outline" where
  "CTransactionManager_registerTransaction_outline = Locked RegistryMutex Nothing"

definition CTransactionManager_unregisterTransaction_outline :: "lockId outline" where
  "CTransactionManager_unregisterTransaction_outline = Locked RegistryMutex Nothing"

definition CNodeGroup_putMessage_outline :: "nat \<Rightarrow> lockId outline" where
  "CNodeGroup_putMessage_outline g = CLoopBuffer_write_outline (Some (GroupMutex g))"

definition CTransactionManager_onTimer_outline :: "nat \<Rightarrow> lockId outline" where
  "CTransactionManager_onTimer_outline n = AnyGroup n CNodeGroup_putMessage_outline"

text \<open>CTransaction.\<close>

definition CTransaction_onAttach_outline :: "lockId outline" where
  "CTransaction_onAttach_outline = CTimerManager_setTimer_outline"

definition CTransaction_onStop_outline :: "lockId outline" where
  "CTransaction_onStop_outline =
     Then (Maybe CTimerManager_killTimer_outline)
       (Then (Repeat CTimerManager_killTimer_outline) (Maybe CTransactionManager_unregisterTransaction_outline))"

text \<open>\<open>over\<close> with the queue is used by the network thread, without it by the handlers.\<close>

definition CTransaction_over_outline :: "nat \<Rightarrow> bool \<Rightarrow> lockId outline" where
  "CTransaction_over_outline n useQueue = (if useQueue then AnyGroup n CNodeGroup_putMessage_outline else CTransaction_onStop_outline)"

definition CTransaction_send_outline :: "nat \<Rightarrow> bool \<Rightarrow> lockId outline" where
  "CTransaction_send_outline n waitAck =
     (if waitAck then Maybe (Then CTimerManager_setTimer_outline (Maybe (CTransaction_over_outline n False))) else Nothing)"

definition CTransaction_onStart_outline :: "nat \<Rightarrow> lockId outline" where
  "CTransaction_onStart_outline n =
     Either (CTransaction_over_outline n False)
       (Then CTimerManager_killTimer_outline
         (Either (Then (CTransaction_send_outline n False) (CTransaction_over_outline n False))
           (Then CTransactionManager_registerTransaction_outline
             (Either (Then (CTransaction_send_outline n False) (CTransaction_over_outline n False))
               (Then (CTransaction_send_outline n False)
                 (Maybe (Then CTimerManager_setTimer_outline (Maybe (CTransaction_over_outline n False)))))))))"

definition CTransaction_onHeartBeat_outline :: "nat \<Rightarrow> lockId outline" where
  "CTransaction_onHeartBeat_outline n = Maybe (CTransaction_over_outline n False)"

definition CTransaction_onSendMsg_outline :: "nat \<Rightarrow> lockId outline" where
  "CTransaction_onSendMsg_outline n = Either (CTransaction_over_outline n False) (CTransaction_send_outline n False)"

definition CTransaction_onPushMsg_outline :: "nat \<Rightarrow> lockId outline" where
  "CTransaction_onPushMsg_outline n = Either (CTransaction_over_outline n False) (Maybe CTimerManager_killTimer_outline)"

definition CTransaction_onTimer_outline :: "nat \<Rightarrow> lockId outline" where
  "CTransaction_onTimer_outline n = Either (Maybe (CTransaction_over_outline n False)) (CTransaction_send_outline n False)"

definition CTransaction_onMessage_outline :: "nat \<Rightarrow> lockId outline" where
  "CTransaction_onMessage_outline n =
     Either (CTransaction_onStart_outline n) (Either (CTransaction_onHeartBeat_outline n) (Either (CTransaction_onSendMsg_outline n)
       (Either (CTransaction_onPushMsg_outline n) (Either (CTransaction_onTimer_outline n)
         (Either CTransaction_onStop_outline (CTransaction_over_outline n False))))))"

text \<open>\<open>onCheck\<close> pushes what Redis has for the session.\<close>

definition CTransaction_onCheck_outline :: "nat \<Rightarrow> lockId outline" where
  "CTransaction_onCheck_outline n = Repeat (CTransaction_send_outline n True)"

text \<open>CNodeGroup and CTrafficManager.\<close>

definition CNodeGroup_attach_outline :: "nat \<Rightarrow> lockId outline" where
  "CNodeGroup_attach_outline g = Locked (GroupMutex g) CTransaction_onAttach_outline"

definition CNodeGroup_detach_outline :: "nat \<Rightarrow> lockId outline" where
  "CNodeGroup_detach_outline g = Locked (GroupMutex g) Nothing"

definition CTrafficManager_recycleNode_outline :: "lockId outline" where
  "CTrafficManager_recycleNode_outline = Locked TrafficMutex Nothing"

definition CNodeGroup_rollingQueue_outline :: "nat \<Rightarrow> nat \<Rightarrow> lockId outline" where
  "CNodeGroup_rollingQueue_outline n g =
     Maybe (Then (CLoopBuffer_read_outline (Some (GroupMutex g)))
       (Then (CLoopBuffer_read_outline (Some (GroupMutex g)))
         (Maybe (Then (CTransaction_onMessage_outline n) (Maybe CTrafficManager_recycleNode_outline)))))"

definition CNodeGroup_rollingNode_outline :: "nat \<Rightarrow> nat \<Rightarrow> lockId outline" where
  "CNodeGroup_rollingNode_outline n g = Then (Locked (GroupMutex g) Nothing) (Maybe (CTransaction_onCheck_outline n))"

definition CNodeGroup_working_outline :: "nat \<Rightarrow> nat \<Rightarrow> lockId outline" where
  "CNodeGroup_working_outline n g = Then (CNodeGroup_rollingQueue_outline n g) (CNodeGroup_rollingNode_outline n g)"

definition CNode_recv_outline :: "nat \<Rightarrow> lockId outline" where
  "CNode_recv_outline g = Repeat (CNodeGroup_putMessage_outline g)"

definition CTrafficManager_delNode_outline :: "nat \<Rightarrow> lockId outline" where
  "CTrafficManager_delNode_outline n = Maybe (Then (AnyGroup n CNodeGroup_detach_outline) (CResource_reclaim_outline None))"

definition CTrafficManager_addNodes_outline :: "nat \<Rightarrow> lockId outline" where
  "CTrafficManager_addNodes_outline n =
     Repeat (Then (CResource_allocate_outline None)
       (AnyGroup n (\<lambda>g. Then (CNodeGroup_attach_outline g) (Maybe (CNodeGroup_detach_outline g)))))"

definition CTrafficManager_working_outline :: "nat \<Rightarrow> lockId outline" where
  "CTrafficManager_working_outline n =
     Then (Locked TrafficMutex (Repeat (CTrafficManager_delNode_outline n)))
       (Repeat (Either (CTrafficManager_addNodes_outline n)
         (Either (CTransaction_over_outline n True)
           (Then (AnyGroup n CNode_recv_outline) (Maybe (CTransaction_over_outline n True))))))"

text \<open>CWorker.\<close>

definition CWorker_run_outline :: "nat \<Rightarrow> lockId outline \<Rightarrow> lockId outline" where
  "CWorker_run_outline w working =
     Then (Locked WorkerMutex Nothing) (Then (Locked (InformedMutex w) Nothing)
       (Then (Repeat working) (Locked WorkerMutex Nothing)))"

text \<open>The threads of a server with \<open>n\<close> groups.\<close>

datatype serverThread = NetworkThread | TimerThread | GroupThread nat

fun serverTask :: "nat \<Rightarrow> serverThread \<Rightarrow> lockId outline" where
  "serverTask n NetworkThread = CWorker_run_outline 0 (CTrafficManager_working_outline n)"
| "serverTask n TimerThread = CWorker_run_outline 1 (CTimerManager_working_outline (CTransactionManager_onTimer_outline n))"
| "serverTask n (GroupThread g) = CWorker_run_outline (2 + g) (CNodeGroup_working_outline n g)"

definition serverLocks_new :: "nat \<Rightarrow> lockId lockState" where
  "serverLocks_new n = lockState_new serverRecursive (map (serverTask n) (NetworkThread # TimerThread # map GroupThread [0..<n]))"

lemma disciplined_helpers [simp]:
  "disciplined level recursive (Maybe p) hs = disciplined level recursive p hs"
  "disciplined level recursive (AnyGroup n q) hs \<longleftrightarrow> (\<forall>g < n. disciplined level recursive (q g) hs)"
  by (simp add: Maybe_def) (induction n; auto simp: less_Suc_eq)

lemmas outline_defs = CResource_allocate_outline_def CResource_reclaim_outline_def CLoopBuffer_write_outline_def CLoopBuffer_read_outline_def
  CTimerManager_setTimer_outline_def CTimerManager_killTimer_outline_def CTimerManager_delTimer_outline_def CTimerManager_working_outline_def
  CTransactionManager_registerTransaction_outline_def CTransactionManager_unregisterTransaction_outline_def CNodeGroup_putMessage_outline_def
  CTransactionManager_onTimer_outline_def CTransaction_onAttach_outline_def CTransaction_onStop_outline_def CTransaction_over_outline_def
  CTransaction_send_outline_def CTransaction_onStart_outline_def CTransaction_onHeartBeat_outline_def CTransaction_onSendMsg_outline_def
  CTransaction_onPushMsg_outline_def CTransaction_onTimer_outline_def CTransaction_onMessage_outline_def CTransaction_onCheck_outline_def
  CNodeGroup_attach_outline_def CNodeGroup_detach_outline_def CTrafficManager_recycleNode_outline_def CNodeGroup_rollingQueue_outline_def
  CNodeGroup_rollingNode_outline_def CNodeGroup_working_outline_def CNode_recv_outline_def CTrafficManager_delNode_outline_def
  CTrafficManager_addNodes_outline_def CTrafficManager_working_outline_def CWorker_run_outline_def

interpretation server: lock_order serverLevel serverRecursive "serverTask n" for n
proof
  show "disciplined serverLevel serverRecursive (serverTask n t) []" for t
    by (cases t) (simp_all add: outline_defs serverRecursive_def)
qed

section \<open>Properties\<close>

text \<open>C14: The mutexes of the server.  Whatever the network thread, the timer thread and the threads of \<open>n\<close> groups have done, no two of them are inside
  sections of the same mutex, and none is blocked for good: a thread that has something left can make its next step, at once or after steps of the others alone.  So
  neither all nor some of the threads can wait for each other in a circle, nor one for itself.\<close>

theorem server_no_deadlock:
  assumes "runs {} (serverLocks_new n) k" and "i < n + 2"
  shows "(\<forall>j l. j < n + 2 \<and> l \<in> set (held (k_stacks k ! i)) \<and> l \<in> set (held (k_stacks k ! j)) \<longrightarrow> i = j) \<and>
     (k_stacks k ! i \<noteq> [] \<longrightarrow> (\<exists>k1 k2. runs {i} k k1 \<and> moves i k1 k2))"
proof -
  have inv: "server.order_inv k" using server.inv_runs [OF assms(1)] server.inv_start unfolding serverLocks_new_def by blast
  have len: "length (k_stacks k) = n + 2" using runs_length [OF assms(1)] by (simp add: serverLocks_new_def lockState_new_def)
  show ?thesis using server.exclusive [OF inv] server.never_stuck [OF inv] len assms(2) by metis
qed

theorem server_no_deadlock_witness:
  "\<exists>k k1 k2. runs {} (serverLocks_new 1) k \<and> waits k 1 WorkerMutex \<and> runs {1} k k1 \<and> moves 1 k1 k2"
proof -
  let ?t = "\<lambda>w p. Then (Locked (InformedMutex w) Nothing) (Then (Repeat p) (Locked WorkerMutex Nothing))"
  let ?a = "?t 0 (CTrafficManager_working_outline 1)"
  let ?b = "?t 1 (CTimerManager_working_outline (CTransactionManager_onTimer_outline 1))"
  let ?c = "[Run (CWorker_run_outline 2 (CNodeGroup_working_outline 1 0))]"
  let ?m = "\<lambda>l. CMutex_new (serverRecursive l)"
  let ?n = "?m(WorkerMutex := \<lparr>m_recursive = False, m_owner = Some 0, m_depth = 1\<rparr>)"
  let ?u = "\<lparr>k_mutex = ?m, k_stacks = [[Run (Then (Locked WorkerMutex Nothing) ?a)], [Run (Then (Locked WorkerMutex Nothing) ?b)], ?c]\<rparr>"
  let ?v = "\<lparr>k_mutex = ?m, k_stacks = [[Run (Locked WorkerMutex Nothing), Run ?a], [Run (Then (Locked WorkerMutex Nothing) ?b)], ?c]\<rparr>"
  let ?x = "\<lparr>k_mutex = ?n, k_stacks = [[Run Nothing, Unlock WorkerMutex, Run ?a], [Run (Then (Locked WorkerMutex Nothing) ?b)], ?c]\<rparr>"
  let ?y = "\<lparr>k_mutex = ?n, k_stacks = [[Run Nothing, Unlock WorkerMutex, Run ?a], [Run (Locked WorkerMutex Nothing), Run ?b], ?c]\<rparr>"
  have u: "serverLocks_new 1 = ?u" by (simp add: serverLocks_new_def lockState_new_def CWorker_run_outline_def)
  have "moves 0 ?u ?v" using moves.sequence [of 0 ?u "Locked WorkerMutex Nothing" ?a "[]"] by simp
  moreover have "moves 0 ?v ?x"
    using moves.acquire [of 0 ?v WorkerMutex Nothing "[Run ?a]" True "\<lparr>m_recursive = False, m_owner = Some 0, m_depth = 1\<rparr>"]
    by (simp add: CMutex_lock_def pthread_mutex_lock_def pthread_mutex_trylock_def CMutex_new_def serverRecursive_def)
  moreover have "moves 1 ?x ?y" using moves.sequence [of 1 ?x "Locked WorkerMutex Nothing" ?b "[]"] by simp
  ultimately have r: "runs {} (serverLocks_new 1) ?y" unfolding u by (meson empty_iff runs.intros)
  have w: "waits ?y 1 WorkerMutex" by (simp add: waits_def lock_blocks)
  show ?thesis using server_no_deadlock [OF r, of 1] r w by auto
qed

end
