(* ===== verification/Queue_Threads.thy ===== *)
theory Queue_Threads
  imports Locks Loop_Buffer Message
begin

text \<open>
  The queue of a group with the threads that share it: the network thread and the timer thread put messages into the ring (\<open>CNodeGroup::putMessage\<close>), the
  thread of the group takes them out in two reads, which are two critical sections (\<open>CNodeGroup::_rollingQueue\<close>).  Here a critical section is not one step.  It takes the mutex, and
  while it runs the ring may be in any state: only \<open>_usedSize\<close>, which \<open>getUsedSize\<close> reads without the mutex, is the value before or the value after.  Whatever the interleaving,
  the group gets the messages that were accepted, whole and in their order.
\<close>

section \<open>State and steps\<close>

text \<open>
  A thread that puts messages: about to lock, about to run \<open>write\<close>, in the middle of it with its result known, and about to unlock.
\<close>

datatype putter =
  Put_lock "ub1_ list list"
| Put_body "ub1_ list" "ub1_ list list"
| Put_end loopBuffer "ub1_ list list"
| Put_unlock "ub1_ list list"

text \<open>The thread of the group, in the read at the offset \<open>off\<close> of \<open>_buffer\<close>.\<close>

datatype getter =
  Get_test
| Get_lock nat ub4_
| Get_body nat ub4_
| Get_end nat ub4_ "ub1_ list" loopBuffer
| Get_unlock nat ub4_
| Get_next nat ub4_

text \<open>\<open>x_accepted\<close> and \<open>x_delivered\<close> record the messages that \<open>write\<close> accepted and those that went on to their transaction.\<close>

record queueThreads =
  x_ring :: loopBuffer
  x_mutex :: mutex
  x_buffer :: "ub1_ list"
  x_getter :: getter
  x_putters :: "putter list"
  x_accepted :: "ub1_ list list"
  x_delivered :: "ub1_ list list"
  x_aborted :: bool

definition queueThreads_new :: "loopBuffer \<Rightarrow> ub1_ list \<Rightarrow> ub1_ list list list \<Rightarrow> queueThreads" where
  "queueThreads_new q buf mss =
     \<lparr>x_ring = q, x_mutex = CMutex_new False, x_buffer = buf, x_getter = Get_test, x_putters = map Put_lock mss,
      x_accepted = [], x_delivered = [], x_aborted = False\<rparr>"

text \<open>What may be seen of a ring between \<open>q\<close> and \<open>q'\<close>.\<close>

definition torn :: "loopBuffer \<Rightarrow> loopBuffer \<Rightarrow> loopBuffer \<Rightarrow> bool" where
  "torn q q' r \<longleftrightarrow> usedSize r = usedSize q \<or> usedSize r = usedSize q'"

definition messageSize :: "ub1_ list \<Rightarrow> ub2_" where
  "messageSize buf = le_word (segment 0 2 buf)"

text \<open>The group's thread is the thread 0, the threads that put messages are numbered from 1.\<close>

inductive queue_step :: "queueThreads \<Rightarrow> queueThreads \<Rightarrow> bool" where
  putLock: "i < length (x_putters x) \<Longrightarrow> x_putters x ! i = Put_lock (m # ms) \<Longrightarrow> CMutex_lock False (Suc i) (x_mutex x) = Some (ok, l) \<Longrightarrow>
    queue_step x (x\<lparr>x_mutex := l, x_putters := (x_putters x)[i := Put_body m ms]\<rparr>)"
| putBody: "i < length (x_putters x) \<Longrightarrow> x_putters x ! i = Put_body m ms \<Longrightarrow>
    CLoopBuffer_write (x_ring x) m (ucast (messageSize m)) = Inr (ok, q) \<Longrightarrow> torn (x_ring x) q r \<Longrightarrow>
    queue_step x (x\<lparr>x_ring := r, x_putters := (x_putters x)[i := Put_end q ms], x_accepted := x_accepted x @ (if ok then [m] else [])\<rparr>)"
| putFails: "i < length (x_putters x) \<Longrightarrow> x_putters x ! i = Put_body m ms \<Longrightarrow>
    CLoopBuffer_write (x_ring x) m (ucast (messageSize m)) = Inl f \<Longrightarrow> queue_step x (x\<lparr>x_aborted := True\<rparr>)"
| putEnd: "i < length (x_putters x) \<Longrightarrow> x_putters x ! i = Put_end q ms \<Longrightarrow>
    queue_step x (x\<lparr>x_ring := q, x_putters := (x_putters x)[i := Put_unlock ms]\<rparr>)"
| putUnlock: "i < length (x_putters x) \<Longrightarrow> x_putters x ! i = Put_unlock ms \<Longrightarrow>
    queue_step x (x\<lparr>x_mutex := CMutex_unlock (Suc i) (x_mutex x), x_putters := (x_putters x)[i := Put_lock ms]\<rparr>)"
| getTest: "x_getter x = Get_test \<Longrightarrow>
    queue_step x (x\<lparr>x_getter := (if usedSize (x_ring x) = 0 then Get_test else Get_lock 0 2)\<rparr>)"
| getLock: "x_getter x = Get_lock off sz \<Longrightarrow> CMutex_lock False 0 (x_mutex x) = Some (ok, l) \<Longrightarrow>
    queue_step x (x\<lparr>x_mutex := l, x_getter := Get_body off sz\<rparr>)"
| getBody: "x_getter x = Get_body off sz \<Longrightarrow> CLoopBuffer_read (x_ring x) (x_buffer x) off sz = Inr (n, b, q) \<Longrightarrow> torn (x_ring x) q r \<Longrightarrow>
    queue_step x (x\<lparr>x_ring := r, x_getter := Get_end off n b q\<rparr>)"
| getFails: "x_getter x = Get_body off sz \<Longrightarrow> CLoopBuffer_read (x_ring x) (x_buffer x) off sz = Inl f \<Longrightarrow> queue_step x (x\<lparr>x_aborted := True\<rparr>)"
| getEnd: "x_getter x = Get_end off n b q \<Longrightarrow> queue_step x (x\<lparr>x_ring := q, x_buffer := b, x_getter := Get_unlock off n\<rparr>)"
| getUnlock: "x_getter x = Get_unlock off n \<Longrightarrow>
    queue_step x (x\<lparr>x_mutex := CMutex_unlock 0 (x_mutex x), x_getter := Get_next off n\<rparr>)"
| getSize: "x_getter x = Get_next 0 n \<Longrightarrow> n = 2 \<Longrightarrow>
    queue_step x (x\<lparr>x_getter := Get_lock 2 (ucast (messageSize (x_buffer x)) - 2)\<rparr>)"
| getShort: "x_getter x = Get_next 0 n \<Longrightarrow> n \<noteq> 2 \<Longrightarrow> queue_step x (x\<lparr>x_aborted := True\<rparr>)"
| getMismatch: "x_getter x = Get_next off n \<Longrightarrow> off \<noteq> 0 \<Longrightarrow> uint n + 2 \<noteq> uint (messageSize (x_buffer x)) \<Longrightarrow>
    queue_step x (x\<lparr>x_getter := Get_test\<rparr>)"
| getMessage: "x_getter x = Get_next off n \<Longrightarrow> off \<noteq> 0 \<Longrightarrow> uint n + 2 = uint (messageSize (x_buffer x)) \<Longrightarrow>
    queue_step x (x\<lparr>x_getter := Get_test, x_delivered := x_delivered x @ [take (unat (messageSize (x_buffer x))) (x_buffer x)]\<rparr>)"

inductive queue_reach :: "queueThreads \<Rightarrow> queueThreads \<Rightarrow> bool" for x0 where
  start: "queue_reach x0 x0"
| onward: "queue_reach x0 x \<Longrightarrow> queue_step x x' \<Longrightarrow> queue_reach x0 x'"

section \<open>Mutual exclusion\<close>

fun putting :: "putter \<Rightarrow> bool" where
  "putting (Put_lock ms) = False"
| "putting _ = True"

fun getting :: "getter \<Rightarrow> bool" where
  "getting (Get_body off sz) = True"
| "getting (Get_end off n b q) = True"
| "getting (Get_unlock off n) = True"
| "getting _ = False"

definition queue_locked :: "queueThreads \<Rightarrow> bool" where
  "queue_locked x \<longleftrightarrow>
     mutex_ok (x_mutex x) \<and> \<not> m_recursive (x_mutex x) \<and>
     (getting (x_getter x) \<longleftrightarrow> m_owner (x_mutex x) = Some 0) \<and>
     (\<forall>i < length (x_putters x). putting (x_putters x ! i) \<longleftrightarrow> m_owner (x_mutex x) = Some (Suc i))"

lemma lock_normal:
  assumes "mutex_ok m" and "\<not> m_recursive m"
  shows "CMutex_lock False t m = Some (ok, l) \<longleftrightarrow> ok \<and> m_owner m = None \<and> l = m\<lparr>m_owner := Some t, m_depth := 1\<rparr>"
    and "CMutex_unlock t m = m\<lparr>m_owner := None, m_depth := 0\<rparr>"
  using assms by (auto simp: CMutex_lock_def CMutex_unlock_def pthread_mutex_lock_def pthread_mutex_trylock_def pthread_mutex_unlock_def split: option.splits)

lemma queue_locked_step: "queue_step x x' \<Longrightarrow> queue_locked x \<Longrightarrow> queue_locked x'"
proof (induction rule: queue_step.induct)
  case (putLock i x m ms ok l)
  then show ?case using lock_normal(1) [of "x_mutex x" "Suc i" ok l] by (auto simp: queue_locked_def mutex_ok_def nth_list_update)
next
  case (putUnlock i x ms)
  then have "m_owner (x_mutex x) = Some (Suc i)" unfolding queue_locked_def by (metis putting.simps(4))
  then show ?case using putUnlock lock_normal(2) [of "x_mutex x" "Suc i"] by (auto simp: queue_locked_def mutex_ok_def nth_list_update)
next
  case (getLock x off sz ok l)
  then show ?case using lock_normal(1) [of "x_mutex x" 0 ok l] by (auto simp: queue_locked_def mutex_ok_def)
next
  case (getUnlock x off n)
  then show ?case using lock_normal(2) [of "x_mutex x" 0] by (auto simp: queue_locked_def mutex_ok_def)
qed (auto simp: queue_locked_def nth_list_update)

section \<open>What the queue holds\<close>

definition wholeMessage :: "ub1_ list \<Rightarrow> bool" where
  "wholeMessage m \<longleftrightarrow> 2 < length m \<and> length m \<le> MSG_MAX_LENGTH \<and> unat (messageSize m) = length m"

fun unsent :: "putter \<Rightarrow> ub1_ list list" where
  "unsent (Put_lock ms) = ms"
| "unsent (Put_body m ms) = m # ms"
| "unsent (Put_end q ms) = ms"
| "unsent (Put_unlock ms) = ms"

text \<open>The ring that a section in its middle will leave.\<close>

fun putResult :: "putter \<Rightarrow> loopBuffer option" where
  "putResult (Put_end q ms) = Some q"
| "putResult _ = None"

fun getResult :: "getter \<Rightarrow> loopBuffer option" where
  "getResult (Get_end off n b q) = Some q"
| "getResult _ = None"

fun getBuffer :: "getter \<Rightarrow> ub1_ list \<Rightarrow> ub1_ list" where
  "getBuffer (Get_end off n b q) buf = b"
| "getBuffer _ buf = buf"

definition openResults :: "queueThreads \<Rightarrow> loopBuffer option set" where
  "openResults x = insert (getResult (x_getter x)) (putResult ` set (x_putters x))"

text \<open>\<open>q\<close> is the ring as it is when the section that runs, if any, is through.\<close>

definition settled :: "queueThreads \<Rightarrow> loopBuffer \<Rightarrow> bool" where
  "settled x q \<longleftrightarrow> openResults x \<subseteq> {None, Some q} \<and> (openResults x \<subseteq> {None} \<longrightarrow> x_ring x = q)"

text \<open>
  What the thread of the group knows of the messages \<open>us\<close> that it has not delivered and of the bytes that are stored, before and after a read.
\<close>

definition readBefore :: "nat \<Rightarrow> ub4_ \<Rightarrow> ub1_ list \<Rightarrow> ub1_ list list \<Rightarrow> ub1_ list \<Rightarrow> bool" where
  "readBefore off sz buf us bytes \<longleftrightarrow>
     off = 0 \<and> sz = 2 \<and> us \<noteq> [] \<and> bytes = concat us \<or>
     off = 2 \<and> (\<exists>m ms. us = m # ms \<and> sz = of_nat (length m - 2) \<and> bytes = drop 2 m @ concat ms \<and> take 2 buf = take 2 m)"

definition readAfter :: "nat \<Rightarrow> ub4_ \<Rightarrow> ub1_ list \<Rightarrow> ub1_ list list \<Rightarrow> ub1_ list \<Rightarrow> bool" where
  "readAfter off n buf us bytes \<longleftrightarrow>
     (\<exists>m ms. us = m # ms \<and>
       (off = 0 \<and> n = 2 \<and> bytes = drop 2 m @ concat ms \<and> take 2 buf = take 2 m \<or>
        off = 2 \<and> n = of_nat (length m - 2) \<and> bytes = concat ms \<and> take (length m) buf = m))"

fun getter_ok :: "getter \<Rightarrow> ub1_ list \<Rightarrow> ub1_ list list \<Rightarrow> ub1_ list \<Rightarrow> bool" where
  "getter_ok Get_test buf us bytes = (bytes = concat us)"
| "getter_ok (Get_lock off sz) buf us bytes = readBefore off sz buf us bytes"
| "getter_ok (Get_body off sz) buf us bytes = readBefore off sz buf us bytes"
| "getter_ok (Get_end off n b q) buf us bytes = readAfter off n b us bytes"
| "getter_ok (Get_unlock off n) buf us bytes = readAfter off n buf us bytes"
| "getter_ok (Get_next off n) buf us bytes = readAfter off n buf us bytes"

lemma getter_ok_append: "getter_ok g buf us bytes \<Longrightarrow> getter_ok g buf (us @ [m]) (bytes @ m)"
  by (cases g) (auto simp: readBefore_def readAfter_def)

definition queue_holds :: "queueThreads \<Rightarrow> loopBuffer \<Rightarrow> ub1_ list list \<Rightarrow> bool" where
  "queue_holds x q us \<longleftrightarrow>
     settled x q \<and> lb_plain q \<and> x_accepted x = x_delivered x @ us \<and>
     getter_ok (x_getter x) (x_buffer x) us (contents q) \<and>
     length (x_buffer x) = MSG_MAX_LENGTH \<and> length (getBuffer (x_getter x) (x_buffer x)) = MSG_MAX_LENGTH \<and>
     (getResult (x_getter x) = None \<longrightarrow> usedSize (x_ring x) \<noteq> 0 \<longrightarrow> contents q \<noteq> []) \<and>
     (\<forall>m \<in> set us. wholeMessage m) \<and> (\<forall>p \<in> set (x_putters x). \<forall>m \<in> set (unsent p). wholeMessage m)"

definition queue_inv :: "queueThreads \<Rightarrow> bool" where
  "queue_inv x \<longleftrightarrow> \<not> x_aborted x \<and> queue_locked x \<and> (\<exists>q us. queue_holds x q us)"

lemma used_contents: "lb_plain q \<Longrightarrow> usedSize q = 0 \<longleftrightarrow> contents q = []"
  using length_contents [of q] by (auto simp: lb_plain_def word_eq_unat)

lemma messageSize_prefix: "take 2 xs = take 2 ys \<Longrightarrow> messageSize xs = messageSize ys"
  by (simp add: messageSize_def segment_def)

lemma wholeMessage_minus:
  assumes "wholeMessage m"
  shows "ucast (messageSize m) - 2 = (of_nat (length m - 2) :: ub4_)"
proof -
  have "unat (ucast (messageSize m) - 2 :: ub4_) = length m - 2"
    using assms by (subst unat_minus_le) (auto simp: wholeMessage_def unat_ucast_ub2)
  moreover have "length m - 2 < 2 ^ 32" using assms by (auto simp: wholeMessage_def layout)
  ultimately show ?thesis by (simp add: word_eq_unat unat_of_nat_lt)
qed

lemma wholeMessage_taken:
  assumes "wholeMessage m" and "take (length m) buf = m"
  shows "uint (of_nat (length m - 2) :: ub4_) + 2 = uint (messageSize buf)" and "take (unat (messageSize buf)) buf = m"
proof -
  have "take 2 buf = take 2 m" using assms by (metis wholeMessage_def less_imp_le min.absorb1 take_take)
  then have s: "messageSize buf = messageSize m" by (rule messageSize_prefix)
  have "length m - 2 < 2 ^ 32" using assms(1) by (auto simp: wholeMessage_def layout)
  then have "unat (of_nat (length m - 2) :: ub4_) = length m - 2" by (simp add: unat_of_nat_lt)
  then show "uint (of_nat (length m - 2) :: ub4_) + 2 = uint (messageSize buf)"
    using assms(1) s by (auto simp: wholeMessage_def uint_nat)
  show "take (unat (messageSize buf)) buf = m" using s assms by (simp add: wholeMessage_def)
qed

text \<open>No other thread is in a section.\<close>

lemma openResults_putter:
  assumes "queue_locked x" and "i < length (x_putters x)" and "putting (x_putters x ! i)"
  shows "openResults (x\<lparr>x_putters := (x_putters x)[i := p]\<rparr>) \<subseteq> {None, putResult p} \<and> putResult p \<in> openResults (x\<lparr>x_putters := (x_putters x)[i := p]\<rparr>)"
proof -
  have own: "m_owner (x_mutex x) = Some (Suc i)" using assms by (simp add: queue_locked_def)
  then have "\<not> getting (x_getter x)" using assms by (simp add: queue_locked_def)
  then have g: "getResult (x_getter x) = None" by (cases "x_getter x") auto
  have "putResult (x_putters x ! j) = None" if "j < length (x_putters x)" "j \<noteq> i" for j
  proof -
    have "\<not> putting (x_putters x ! j)" using assms own that by (simp add: queue_locked_def)
    then show ?thesis by (cases "x_putters x ! j") auto
  qed
  then have "putResult ` set ((x_putters x)[i := p]) \<subseteq> {None, putResult p}"
    using assms(2) by (auto simp: in_set_conv_nth nth_list_update split: if_splits)
  moreover have "p \<in> set ((x_putters x)[i := p])" using assms(2) by (rule set_update_memI)
  ultimately show ?thesis using g by (auto simp: openResults_def)
qed

lemma openResults_getter:
  assumes "queue_locked x" and "getting (x_getter x)"
  shows "openResults (x\<lparr>x_getter := g\<rparr>) \<subseteq> {None, getResult g} \<and> getResult g \<in> openResults (x\<lparr>x_getter := g\<rparr>)"
proof -
  have "putResult (x_putters x ! j) = None" if "j < length (x_putters x)" for j
  proof -
    have "\<not> putting (x_putters x ! j)" using assms that by (auto simp: queue_locked_def)
    then show ?thesis by (cases "x_putters x ! j") auto
  qed
  then show ?thesis by (auto simp: openResults_def in_set_conv_nth)
qed

lemma openResults_simps [simp]:
  "openResults (x\<lparr>x_ring := r\<rparr>) = openResults x" "openResults (x\<lparr>x_mutex := l\<rparr>) = openResults x" "openResults (x\<lparr>x_buffer := b\<rparr>) = openResults x"
  "openResults (x\<lparr>x_accepted := a\<rparr>) = openResults x" "openResults (x\<lparr>x_delivered := d\<rparr>) = openResults x"
  by (simp_all add: openResults_def)

lemma openResults_same:
  assumes "i < length (x_putters x)" and "putResult p = putResult (x_putters x ! i)"
  shows "openResults (x\<lparr>x_putters := (x_putters x)[i := p]\<rparr>) = openResults x"
proof -
  have "map putResult ((x_putters x)[i := p]) = map putResult (x_putters x)"
    using assms by (simp add: map_update list_update_same_conv)
  then have "putResult ` set ((x_putters x)[i := p]) = putResult ` set (x_putters x)" by (metis set_map)
  then show ?thesis by (simp add: openResults_def)
qed

lemma openResults_now:
  assumes "queue_locked x"
  shows "i < length (x_putters x) \<Longrightarrow> putting (x_putters x ! i) \<Longrightarrow>
      openResults x \<subseteq> {None, putResult (x_putters x ! i)} \<and> putResult (x_putters x ! i) \<in> openResults x"
    and "getting (x_getter x) \<Longrightarrow> openResults x \<subseteq> {None, getResult (x_getter x)} \<and> getResult (x_getter x) \<in> openResults x"
  using openResults_putter [OF assms, of i "x_putters x ! i"] openResults_same [OF _ refl, of i x] openResults_getter [OF assms, of "x_getter x"]
  by (simp_all add: openResults_def)

lemma unsent_update:
  assumes "\<forall>p \<in> set ps. \<forall>m \<in> set (unsent p). wholeMessage m" and "i < length ps" and "set (unsent p) \<subseteq> set (unsent (ps ! i))"
  shows "\<forall>p \<in> set (ps[i := p]). \<forall>m \<in> set (unsent p). wholeMessage m"
  using assms set_update_subset_insert [of ps i p] nth_mem [OF assms(2)] by blast

lemmas holds_defs = queue_holds_def settled_def

section \<open>The sections keep it\<close>

lemma holds_putBody:
  assumes l: "queue_locked x" and h: "queue_holds x q us" and i: "i < length (x_putters x)" "x_putters x ! i = Put_body m ms"
  obtains ok q' where "CLoopBuffer_write (x_ring x) m (ucast (messageSize m)) = Inr (ok, q')"
    and "\<And>r. torn (x_ring x) q' r \<Longrightarrow>
      queue_holds (x\<lparr>x_ring := r, x_putters := (x_putters x)[i := Put_end q' ms], x_accepted := x_accepted x @ (if ok then [m] else [])\<rparr>) q'
        (us @ (if ok then [m] else []))"
proof -
  have r: "x_ring x = q"
    using openResults_now(1) [OF l i(1)] i h by (simp add: holds_defs)
  have w: "wholeMessage m" using h i nth_mem [OF i(1)] by (fastforce simp: queue_holds_def)
  then have u: "unat (ucast (messageSize m) :: ub4_) = length m" "(ucast (messageSize m) :: ub4_) \<noteq> 0"
    by (auto simp: wholeMessage_def unat_ucast_ub2 word_eq_unat)
  have p: "lb_plain q" using h by (simp add: queue_holds_def)
  obtain ok q' where q': "CLoopBuffer_write q m (ucast (messageSize m)) = Inr (ok, q')" "lb_plain q'"
    "contents q' = contents q @ (if ok then m else [])"
    by (rule lb.put_total [OF p u(2), of m]) (use u in \<open>auto split: if_splits\<close>)
  have g: "\<not> getting (x_getter x)" using l i by (auto simp: queue_locked_def)
  then have gr: "getResult (x_getter x) = None" by (cases "x_getter x") auto
  have "queue_holds (x\<lparr>x_ring := r, x_putters := (x_putters x)[i := Put_end q' ms], x_accepted := x_accepted x @ (if ok then [m] else [])\<rparr>) q'
        (us @ (if ok then [m] else []))" if t: "torn (x_ring x) q' r" for r
  proof -
    let ?x = "x\<lparr>x_ring := r, x_putters := (x_putters x)[i := Put_end q' ms], x_accepted := x_accepted x @ (if ok then [m] else [])\<rparr>"
    have "openResults ?x = openResults (x\<lparr>x_putters := (x_putters x)[i := Put_end q' ms]\<rparr>)" by (simp add: openResults_def)
    then have "settled ?x q'" using openResults_putter [OF l i(1), of "Put_end q' ms"] i by (auto simp: settled_def)
    moreover have "getter_ok (x_getter x) (x_buffer x) (us @ (if ok then [m] else [])) (contents q')"
      using h q'(3) getter_ok_append by (auto simp: queue_holds_def)
    moreover have "contents q' \<noteq> []" if "usedSize r \<noteq> 0"
      using t that q' p used_contents [OF p] used_contents [OF q'(2)] \<open>x_ring x = q\<close> by (auto simp: torn_def)
    moreover have "\<forall>p \<in> set ((x_putters x)[i := Put_end q' ms]). \<forall>m \<in> set (unsent p). wholeMessage m"
      using h i by (intro unsent_update) (auto simp: queue_holds_def)
    ultimately show ?thesis using h q'(2) w gr by (auto simp: queue_holds_def)
  qed
  then show thesis using that q'(1) r by blast
qed

lemma holds_getBody:
  assumes l: "queue_locked x" and h: "queue_holds x q us" and g: "x_getter x = Get_body off sz"
  obtains n b q' where "CLoopBuffer_read (x_ring x) (x_buffer x) off sz = Inr (n, b, q')"
    and "\<And>r. queue_holds (x\<lparr>x_ring := r, x_getter := Get_end off n b q'\<rparr>) q' us"
proof -
  have r: "x_ring x = q"
    using openResults_now(2) [OF l] g h by (simp add: holds_defs)
  have p: "lb_plain q" and len: "length (x_buffer x) = MSG_MAX_LENGTH" using h by (simp_all add: queue_holds_def)
  obtain m ms where us: "us = m # ms" and bf: "readBefore off sz (x_buffer x) us (contents q)"
    using h g by (auto simp: queue_holds_def readBefore_def neq_Nil_conv)
  have w: "2 < length m" "length m \<le> MSG_MAX_LENGTH" using h us by (auto simp: queue_holds_def wholeMessage_def)
  then have lm: "length m < 2 ^ 16" by (simp add: layout)
  let ?k = "min (unat sz) (length (contents q))"
  have k: "sz \<noteq> 0 \<and> off + ?k \<le> length (x_buffer x) \<and>
      readAfter off (of_nat ?k) (overwrite (x_buffer x) off (take (unat sz) (contents q))) us (drop (unat sz) (contents q))"
  proof (cases "off = 0")
    case True
    then show ?thesis using bf us w len
      by (auto simp: readBefore_def readAfter_def overwrite_def)
  next
    case False
    then have b: "off = 2" "sz = of_nat (length m - 2)" "contents q = drop 2 m @ concat ms" "take 2 (x_buffer x) = take 2 m"
      using bf us by (auto simp: readBefore_def)
    have u: "unat sz = length m - 2" using b(2) lm by (simp add: unat_of_nat_lt)
    then have "sz \<noteq> 0" using w by (auto simp: word_eq_unat)
    moreover have "take (length m) (overwrite (x_buffer x) 2 (drop 2 m)) = m"
      using b(4) w len by (simp add: overwrite_def)
    ultimately show ?thesis using b u us w len by (simp add: readAfter_def)
  qed
  obtain q' where q': "CLoopBuffer_read q (x_buffer x) off sz =
      Inr (of_nat ?k, overwrite (x_buffer x) off (take (unat sz) (contents q)), q')" "lb_plain q'" "contents q' = drop (unat sz) (contents q)"
    using lb.get_bytes [OF p, of sz off "x_buffer x"] k by blast
  have "queue_holds (x\<lparr>x_ring := r, x_getter := Get_end off (of_nat ?k) (overwrite (x_buffer x) off (take (unat sz) (contents q))) q'\<rparr>) q' us" for r
  proof -
    let ?g = "Get_end off (of_nat ?k) (overwrite (x_buffer x) off (take (unat sz) (contents q))) q'"
    have "openResults (x\<lparr>x_ring := r, x_getter := ?g\<rparr>) = openResults (x\<lparr>x_getter := ?g\<rparr>)" by (simp add: openResults_def)
    then have "settled (x\<lparr>x_ring := r, x_getter := ?g\<rparr>) q'" using openResults_getter [OF l, of ?g] g by (auto simp: settled_def)
    then show ?thesis using h q' k len by (simp add: queue_holds_def min.commute)
  qed
  then show thesis using that q'(1) r by blast
qed

lemma holds_putEnd:
  assumes l: "queue_locked x" and h: "queue_holds x q us" and i: "i < length (x_putters x)" "x_putters x ! i = Put_end q' ms"
  shows "queue_holds (x\<lparr>x_ring := q', x_putters := (x_putters x)[i := Put_unlock ms]\<rparr>) q us"
proof -
  let ?x = "x\<lparr>x_ring := q', x_putters := (x_putters x)[i := Put_unlock ms]\<rparr>"
  have "openResults x \<subseteq> {None, Some q'} \<and> Some q' \<in> openResults x" using openResults_now(1) [OF l i(1)] i by simp
  then have "q' = q" using h by (auto simp: holds_defs)
  moreover have "openResults ?x \<subseteq> {None}" using openResults_putter [OF l i(1), of "Put_unlock ms"] i by (simp add: openResults_def)
  moreover have "\<forall>p \<in> set (x_putters ?x). \<forall>m \<in> set (unsent p). wholeMessage m"
    using unsent_update [of "x_putters x" i "Put_unlock ms"] h i by (simp add: queue_holds_def)
  ultimately show ?thesis using h used_contents [of q] by (auto simp: holds_defs)
qed

lemma holds_getEnd:
  assumes l: "queue_locked x" and h: "queue_holds x q us" and g: "x_getter x = Get_end off n b q'"
  shows "queue_holds (x\<lparr>x_ring := q', x_buffer := b, x_getter := Get_unlock off n\<rparr>) q us"
proof -
  let ?x = "x\<lparr>x_ring := q', x_buffer := b, x_getter := Get_unlock off n\<rparr>"
  have "openResults x \<subseteq> {None, Some q'} \<and> Some q' \<in> openResults x" using openResults_now(2) [OF l] g by simp
  then have "q' = q" using h by (auto simp: holds_defs)
  moreover have "openResults ?x \<subseteq> {None}" using openResults_getter [OF l, of "Get_unlock off n"] g by (simp add: openResults_def)
  ultimately show ?thesis using h g used_contents [of q] by (auto simp: holds_defs)
qed

text \<open>Steps outside the ring: a thread of the putters, or the group's thread, changes its control only.\<close>

lemma holds_putter:
  assumes h: "queue_holds x q us" and i: "i < length (x_putters x)"
    and p: "putResult p = putResult (x_putters x ! i)" "set (unsent p) \<subseteq> set (unsent (x_putters x ! i))"
  shows "queue_holds (x\<lparr>x_mutex := l, x_putters := (x_putters x)[i := p]\<rparr>) q us"
proof -
  have "openResults (x\<lparr>x_mutex := l, x_putters := (x_putters x)[i := p]\<rparr>) = openResults x"
    using openResults_same [OF i p(1)] by (simp add: openResults_def)
  then show ?thesis using h unsent_update [OF _ i p(2)] by (simp add: holds_defs)
qed

lemma holds_getter:
  assumes "queue_holds x q us" and "getResult g = None" and "getResult (x_getter x) = None" and "getBuffer g (x_buffer x) = x_buffer x"
    and "x_accepted x = d @ vs" and "getter_ok g (x_buffer x) vs (contents q)" and "set vs \<subseteq> set us"
  shows "queue_holds (x\<lparr>x_getter := g, x_delivered := d\<rparr>) q vs" and "d = x_delivered x \<Longrightarrow> queue_holds (x\<lparr>x_mutex := l, x_getter := g\<rparr>) q vs"
    and "d = x_delivered x \<Longrightarrow> queue_holds (x\<lparr>x_getter := g\<rparr>) q vs"
  using assms by (auto simp: holds_defs openResults_def)

lemma holds_getSize:
  assumes h: "queue_holds x q us" and g: "x_getter x = Get_next 0 n"
  shows "n = 2" and "queue_holds (x\<lparr>x_getter := Get_lock 2 (ucast (messageSize (x_buffer x)) - 2)\<rparr>) q us"
proof -
  obtain m ms where m: "us = m # ms" "contents q = drop 2 m @ concat ms" "take 2 (x_buffer x) = take 2 m" "n = 2"
    using h g by (auto simp: queue_holds_def readAfter_def)
  then have "wholeMessage m" using h by (simp add: queue_holds_def)
  moreover have "messageSize (x_buffer x) = messageSize m" using m(3) by (rule messageSize_prefix)
  ultimately have "readBefore 2 (ucast (messageSize (x_buffer x)) - 2) (x_buffer x) us (contents q)"
    using m by (simp add: readBefore_def wholeMessage_minus)
  then show "queue_holds (x\<lparr>x_getter := Get_lock 2 (ucast (messageSize (x_buffer x)) - 2)\<rparr>) q us"
    using h g by (intro holds_getter(3) [OF h]) (auto simp: queue_holds_def)
  show "n = 2" by (rule m(4))
qed

lemma holds_getMessage:
  assumes h: "queue_holds x q us" and g: "x_getter x = Get_next off n" and off: "off \<noteq> 0"
  shows "uint n + 2 = uint (messageSize (x_buffer x))"
    and "\<exists>vs. queue_holds (x\<lparr>x_getter := Get_test, x_delivered := x_delivered x @ [take (unat (messageSize (x_buffer x))) (x_buffer x)]\<rparr>) q vs"
proof -
  have "readAfter off n (x_buffer x) us (contents q)" "\<forall>m \<in> set us. wholeMessage m" using h g by (simp_all add: queue_holds_def)
  then obtain m ms where m: "us = m # ms" "wholeMessage m" "take (length m) (x_buffer x) = m" "n = of_nat (length m - 2)" "contents q = concat ms"
    using off unfolding readAfter_def by auto
  note t = wholeMessage_taken [OF m(2,3)]
  show "uint n + 2 = uint (messageSize (x_buffer x))" using t(1) m(4) by simp
  have "x_accepted x = (x_delivered x @ [take (unat (messageSize (x_buffer x))) (x_buffer x)]) @ ms" using h m(1) t(2) by (simp add: queue_holds_def)
  then show "\<exists>vs. queue_holds (x\<lparr>x_getter := Get_test, x_delivered := x_delivered x @ [take (unat (messageSize (x_buffer x))) (x_buffer x)]\<rparr>) q vs"
    using g m(1,5) by (intro exI holds_getter(1) [OF h]) auto
qed

lemma holds_step:
  assumes s: "queue_step x x'" and l: "queue_locked x" and h: "queue_holds x q us" and na: "\<not> x_aborted x"
  shows "(\<exists>q us. queue_holds x' q us) \<and> \<not> x_aborted x'"
  using s
proof (cases rule: queue_step.cases)
  case (putBody i m ms ok q' r)
  obtain ok1 q1 where w: "CLoopBuffer_write (x_ring x) m (ucast (messageSize m)) = Inr (ok1, q1)"
    "\<And>r. torn (x_ring x) q1 r \<Longrightarrow>
      queue_holds (x\<lparr>x_ring := r, x_putters := (x_putters x)[i := Put_end q1 ms], x_accepted := x_accepted x @ (if ok1 then [m] else [])\<rparr>) q1
        (us @ (if ok1 then [m] else []))"
    by (rule holds_putBody [OF l h putBody(2,3)]) blast
  then have "ok = ok1" "q' = q1" using putBody(4) by simp_all
  then have "queue_holds x' q1 (us @ (if ok1 then [m] else []))" "\<not> x_aborted x'" using w(2) putBody(1,5) na by simp_all
  then show ?thesis by blast
next
  case (putFails i m ms f)
  obtain ok1 q1 where "CLoopBuffer_write (x_ring x) m (ucast (messageSize m)) = Inr (ok1, q1)"
    by (rule holds_putBody [OF l h putFails(2,3)]) blast
  then show ?thesis using putFails by simp
next
  case getTest
  have "us \<noteq> []" if "usedSize (x_ring x) \<noteq> 0" using h getTest that by (auto simp: queue_holds_def)
  then have "queue_holds x' q us" unfolding getTest(1)
    using h getTest by (intro holds_getter(3) [OF h]) (auto simp: queue_holds_def readBefore_def)
  moreover have "\<not> x_aborted x'" using getTest na by simp
  ultimately show ?thesis by blast
next
  case (getBody off sz n b q' r)
  obtain n1 b1 q1 where w: "CLoopBuffer_read (x_ring x) (x_buffer x) off sz = Inr (n1, b1, q1)"
    "\<And>r. queue_holds (x\<lparr>x_ring := r, x_getter := Get_end off n1 b1 q1\<rparr>) q1 us"
    by (rule holds_getBody [OF l h getBody(2)]) blast
  then have "n = n1" "b = b1" "q' = q1" using getBody(3) by simp_all
  then show ?thesis using w(2) getBody(1) na by (simp, blast)
next
  case (getFails off sz f)
  obtain n1 b1 q1 where "CLoopBuffer_read (x_ring x) (x_buffer x) off sz = Inr (n1, b1, q1)"
    by (rule holds_getBody [OF l h getFails(2)]) blast
  then show ?thesis using getFails by simp
next
  case (putLock i m ms ok l)
  then show ?thesis using holds_putter [OF h, of i "Put_body m ms" l] na by (simp, blast)
next
  case (putEnd i q' ms)
  then show ?thesis using holds_putEnd [OF l h] na by (simp, blast)
next
  case (putUnlock i ms)
  then show ?thesis using holds_putter [OF h, of i "Put_lock ms"] na by (simp, blast)
next
  case (getLock off sz ok l)
  then show ?thesis using holds_getter(2) [OF h, of "Get_body off sz" _ us l] h na by (auto simp: queue_holds_def)
next
  case (getEnd off n b q')
  then show ?thesis using holds_getEnd [OF l h] na by (simp, blast)
next
  case (getUnlock off n)
  then show ?thesis using holds_getter(2) [OF h, of "Get_next off n" _ us] h na by (auto simp: queue_holds_def)
next
  case (getSize n)
  then show ?thesis using holds_getSize(2) [OF h getSize(2)] na by (simp, blast)
next
  case (getShort n)
  then show ?thesis using holds_getSize(1) [OF h getShort(2)] by simp
next
  case (getMismatch off n)
  then show ?thesis using holds_getMessage(1) [OF h getMismatch(2,3)] by simp
next
  case (getMessage off n)
  then show ?thesis using holds_getMessage(2) [OF h getMessage(2,3)] na by (simp, blast)
qed

lemma queue_inv_step: "queue_step x x' \<Longrightarrow> queue_inv x \<Longrightarrow> queue_inv x'"
  using holds_step queue_locked_step unfolding queue_inv_def by blast

lemma queue_inv_reach: "queue_reach x0 x \<Longrightarrow> queue_inv x0 \<Longrightarrow> queue_inv x"
  by (induction rule: queue_reach.induct) (auto intro: queue_inv_step)

lemma queue_inv_new:
  assumes "lb_plain q" and "contents q = []" and "length buf = MSG_MAX_LENGTH" and "\<forall>ms \<in> set mss. \<forall>m \<in> set ms. wholeMessage m"
  shows "queue_inv (queueThreads_new q buf mss)"
proof -
  let ?x = "queueThreads_new q buf mss"
  have "putting (map Put_lock mss ! i) = False" if "i < length mss" for i using that by simp
  then have "queue_locked ?x" by (simp add: queue_locked_def queueThreads_new_def CMutex_new_def mutex_ok_def)
  moreover have "queue_holds ?x q []"
    using assms used_contents [OF assms(1)] by (auto simp: holds_defs queueThreads_new_def openResults_def)
  ultimately show ?thesis by (auto simp: queue_inv_def queueThreads_new_def)
qed

text \<open>A message of three bytes goes through a ring of eight.\<close>

lemma example_queue_run:
  assumes "CLoopBuffer_new (replicate 8 0) 8 False = Inr q"
  shows "\<exists>x. queue_reach (queueThreads_new q (replicate 512 0) [[[3, 0, 9]], []]) x \<and> x_delivered x = [[3, 0, 9]]"
proof -
  let ?q = "\<lambda>a b c u f w r. \<lparr>buffer = a # b # c # replicate 5 0, totalSize = 8, actualSize = 8, usedSize = u, freeSize = f, isPadding = False, padding = 0, writePos = w, readPos = r\<rparr> :: loopBuffer"
  let ?a = "?q 0 0 0 0 8 0 0" and ?b = "?q 3 0 9 3 5 3 0" and ?c = "?q 3 0 9 1 7 3 2" and ?d = "?q 3 0 9 0 8 3 3"
  let ?m = "\<lparr>m_recursive = False, m_owner = None, m_depth = 0\<rparr>" and ?l = "\<lambda>i. \<lparr>m_recursive = False, m_owner = Some i, m_depth = 1\<rparr>"
  let ?z = "\<lambda>a b c. a # b # c # replicate 509 0 :: ub1_ list"
  let ?s = "\<lambda>r l b g p c d. \<lparr>x_ring = r, x_mutex = l, x_buffer = b, x_getter = g, x_putters = [p, Put_lock []], x_accepted = c, x_delivered = d, x_aborted = False\<rparr>"
  let ?e = "[[3, 0, 9]] :: ub1_ list list" and ?u = "Put_lock []"
  note eval = assertR_def Let_def memcpy_def ptrdiff_def bindR_def lock_normal mutex_ok_def torn_def
  have sz: "messageSize [3, 0, 9] = 3" "messageSize (?z 3 0 9) = 3" "messageSize (?z 3 0 0) = 3"
    by (simp_all add: messageSize_def segment_def)
  have w: "CLoopBuffer_write ?a [3, 0, 9] 3 = Inr (True, ?b)" by (simp add: CLoopBuffer_write_def eval)
  have g: "CLoopBuffer_read ?b (?z 0 0 0) 0 2 = Inr (2, ?z 3 0 0, ?c)" by (simp add: CLoopBuffer_read_def eval)
  have h: "CLoopBuffer_read ?c (?z 3 0 0) 2 1 = Inr (1, ?z 3 0 9, ?d)" by (simp add: CLoopBuffer_read_def eval)
  have n: "CLoopBuffer_new (replicate 8 0) 8 False = Inr ?a" using replicate_add [of 3 5 "0 :: ub1_"] by (simp add: CLoopBuffer_new_def eval numeral_3_eq_3)
  have "queueThreads_new ?a (replicate 512 0) [?e, []] = ?s ?a ?m (?z 0 0 0) Get_test (Put_lock ?e) [] []"
    using replicate_add [of 3 509 "0 :: ub1_"] by (simp add: queueThreads_new_def CMutex_new_def numeral_3_eq_3)
  then have "queue_reach (queueThreads_new ?a (replicate 512 0) [?e, []]) (?s ?a ?m (?z 0 0 0) Get_test (Put_lock ?e) [] [])"
    by (metis queue_reach.start)
  then have "queue_reach (queueThreads_new ?a (replicate 512 0) [?e, []]) (?s ?a (?l 1) (?z 0 0 0) Get_test (Put_body [3, 0, 9] []) [] [])"
    using queue_step.putLock [of 0 "?s ?a ?m (?z 0 0 0) Get_test (Put_lock ?e) [] []" "[3, 0, 9]" "[]" True "?l 1"] by (auto simp: sz w g h eval elim!: queue_reach.onward)
  then have "queue_reach (queueThreads_new ?a (replicate 512 0) [?e, []]) (?s ?b (?l 1) (?z 0 0 0) Get_test (Put_end ?b []) ?e [])"
    using queue_step.putBody [of 0 "?s ?a (?l 1) (?z 0 0 0) Get_test (Put_body [3, 0, 9] []) [] []" "[3, 0, 9]" "[]" True ?b ?b] by (auto simp: sz w g h eval elim!: queue_reach.onward)
  then have "queue_reach (queueThreads_new ?a (replicate 512 0) [?e, []]) (?s ?b (?l 1) (?z 0 0 0) Get_test (Put_unlock []) ?e [])"
    using queue_step.putEnd [of 0 "?s ?b (?l 1) (?z 0 0 0) Get_test (Put_end ?b []) ?e []" ?b "[]"] by (auto simp: sz w g h eval elim!: queue_reach.onward)
  then have "queue_reach (queueThreads_new ?a (replicate 512 0) [?e, []]) (?s ?b ?m (?z 0 0 0) Get_test ?u ?e [])"
    using queue_step.putUnlock [of 0 "?s ?b (?l 1) (?z 0 0 0) Get_test (Put_unlock []) ?e []" "[]"] by (auto simp: sz w g h eval elim!: queue_reach.onward)
  then have "queue_reach (queueThreads_new ?a (replicate 512 0) [?e, []]) (?s ?b ?m (?z 0 0 0) (Get_lock 0 2) ?u ?e [])"
    using queue_step.getTest [of "?s ?b ?m (?z 0 0 0) Get_test ?u ?e []"] by (auto simp: sz w g h eval elim!: queue_reach.onward)
  then have "queue_reach (queueThreads_new ?a (replicate 512 0) [?e, []]) (?s ?b (?l 0) (?z 0 0 0) (Get_body 0 2) ?u ?e [])"
    using queue_step.getLock [of "?s ?b ?m (?z 0 0 0) (Get_lock 0 2) ?u ?e []" 0 2 True "?l 0"] by (auto simp: sz w g h eval elim!: queue_reach.onward)
  then have "queue_reach (queueThreads_new ?a (replicate 512 0) [?e, []]) (?s ?c (?l 0) (?z 0 0 0) (Get_end 0 2 (?z 3 0 0) ?c) ?u ?e [])"
    using queue_step.getBody [of "?s ?b (?l 0) (?z 0 0 0) (Get_body 0 2) ?u ?e []" 0 2 2 "?z 3 0 0" ?c ?c] by (auto simp: sz w g h eval elim!: queue_reach.onward)
  then have "queue_reach (queueThreads_new ?a (replicate 512 0) [?e, []]) (?s ?c (?l 0) (?z 3 0 0) (Get_unlock 0 2) ?u ?e [])"
    using queue_step.getEnd [of "?s ?c (?l 0) (?z 0 0 0) (Get_end 0 2 (?z 3 0 0) ?c) ?u ?e []" 0 2 "?z 3 0 0" ?c] by (auto simp: sz w g h eval elim!: queue_reach.onward)
  then have "queue_reach (queueThreads_new ?a (replicate 512 0) [?e, []]) (?s ?c ?m (?z 3 0 0) (Get_next 0 2) ?u ?e [])"
    using queue_step.getUnlock [of "?s ?c (?l 0) (?z 3 0 0) (Get_unlock 0 2) ?u ?e []" 0 2] by (auto simp: sz w g h eval elim!: queue_reach.onward)
  then have "queue_reach (queueThreads_new ?a (replicate 512 0) [?e, []]) (?s ?c ?m (?z 3 0 0) (Get_lock 2 1) ?u ?e [])"
    using queue_step.getSize [of "?s ?c ?m (?z 3 0 0) (Get_next 0 2) ?u ?e []" 2] by (auto simp: sz w g h eval elim!: queue_reach.onward)
  then have "queue_reach (queueThreads_new ?a (replicate 512 0) [?e, []]) (?s ?c (?l 0) (?z 3 0 0) (Get_body 2 1) ?u ?e [])"
    using queue_step.getLock [of "?s ?c ?m (?z 3 0 0) (Get_lock 2 1) ?u ?e []" 2 1 True "?l 0"] by (auto simp: sz w g h eval elim!: queue_reach.onward)
  then have "queue_reach (queueThreads_new ?a (replicate 512 0) [?e, []]) (?s ?d (?l 0) (?z 3 0 0) (Get_end 2 1 (?z 3 0 9) ?d) ?u ?e [])"
    using queue_step.getBody [of "?s ?c (?l 0) (?z 3 0 0) (Get_body 2 1) ?u ?e []" 2 1 1 "?z 3 0 9" ?d ?d] by (auto simp: sz w g h eval elim!: queue_reach.onward)
  then have "queue_reach (queueThreads_new ?a (replicate 512 0) [?e, []]) (?s ?d (?l 0) (?z 3 0 9) (Get_unlock 2 1) ?u ?e [])"
    using queue_step.getEnd [of "?s ?d (?l 0) (?z 3 0 0) (Get_end 2 1 (?z 3 0 9) ?d) ?u ?e []" 2 1 "?z 3 0 9" ?d] by (auto simp: sz w g h eval elim!: queue_reach.onward)
  then have "queue_reach (queueThreads_new ?a (replicate 512 0) [?e, []]) (?s ?d ?m (?z 3 0 9) (Get_next 2 1) ?u ?e [])"
    using queue_step.getUnlock [of "?s ?d (?l 0) (?z 3 0 9) (Get_unlock 2 1) ?u ?e []" 2 1] by (auto simp: sz w g h eval elim!: queue_reach.onward)
  then have "queue_reach (queueThreads_new ?a (replicate 512 0) [?e, []]) (?s ?d ?m (?z 3 0 9) Get_test ?u ?e ?e)"
    using queue_step.getMessage [of "?s ?d ?m (?z 3 0 9) (Get_next 2 1) ?u ?e []" 2 1] by (auto simp: sz w g h eval elim!: queue_reach.onward)
  moreover have "q = ?a" using n assms by simp
  ultimately show ?thesis by auto
qed

section \<open>Properties\<close>

text \<open>C13: The queue of a group under concurrency.  Threads put whole messages into a fresh ring while the thread of the group takes them out, each in critical sections of several
  steps that interleave in any way.  No assertion fails; the messages that went on to their transactions are those that were accepted, whole, once
  and in the order in which they were accepted, up to some that are still to come; and none is left when the ring is empty and no thread is at work on it.\<close>

theorem queue_interleaved:
  assumes "CLoopBuffer_new mem sz False = Inr q" and "length mem = unat sz" and "unat sz < 2 ^ 31" and "length buf = MSG_MAX_LENGTH"
    and "\<forall>ms \<in> set mss. \<forall>m \<in> set ms. wholeMessage m" and "queue_reach (queueThreads_new q buf mss) x"
  shows "\<not> x_aborted x \<and>
     (\<exists>us. x_accepted x = x_delivered x @ us \<and>
       (x_getter x = Get_test \<and> list_all (\<lambda>p. \<not> putting p) (x_putters x) \<and> usedSize (x_ring x) = 0 \<longrightarrow> us = []))"
proof -
  have "sz \<noteq> 0" using assms(1) by (auto simp: CLoopBuffer_new_def assertR_def split: if_splits)
  then have "lb_plain q" "contents q = []" using wf_new [OF assms(2) _ assms(3), of False] assms(1) by (auto simp: lb_plain_def word_eq_unat)
  then have "queue_inv x" using queue_inv_reach [OF assms(6)] queue_inv_new assms(4,5) by blast
  then obtain q us where na: "\<not> x_aborted x" and h: "queue_holds x q us" by (auto simp: queue_inv_def)
  have "us = []" if t: "x_getter x = Get_test" "list_all (\<lambda>p. \<not> putting p) (x_putters x)" "usedSize (x_ring x) = 0"
  proof -
    have "putResult p = None" if "p \<in> set (x_putters x)" for p using t(2) that by (cases p) (auto simp: list_all_iff)
    then have "openResults x \<subseteq> {None}" using t(1) by (auto simp: openResults_def)
    then have "x_ring x = q" using h by (simp add: holds_defs)
    then have "concat us = []" using h t used_contents [of q] by (simp add: queue_holds_def)
    then show ?thesis using h by (cases us) (auto simp: queue_holds_def wholeMessage_def)
  qed
  then show ?thesis using na h by (auto simp: queue_holds_def)
qed

theorem queue_interleaved_witness:
  "\<exists>q x. CLoopBuffer_new (replicate 8 0) 8 False = Inr q \<and> queue_reach (queueThreads_new q (replicate 512 0) [[[3, 0, 9]], []]) x \<and>
     \<not> x_aborted x \<and> (\<exists>us. x_accepted x = x_delivered x @ us) \<and> x_delivered x = [[3, 0, 9]]"
proof -
  obtain q where q: "CLoopBuffer_new (replicate 8 0) 8 False = Inr q" by (auto simp: CLoopBuffer_new_def assertR_def)
  obtain x where x: "queue_reach (queueThreads_new q (replicate 512 0) [[[3, 0, 9]], []]) x" "x_delivered x = [[3, 0, 9]]"
    using example_queue_run [OF q] by blast
  have "wholeMessage [3, 0, 9]" by (simp add: wholeMessage_def messageSize_def segment_def layout)
  then show ?thesis using queue_interleaved [OF q _ _ _ _ x(1)] q x by (auto simp: layout)
qed

end
