(* ===== verification/Base_Class.thy ===== *)
theory Base_Class
  imports Prelude "HOL-Library.Multiset"
begin

text \<open>
  CBase.cpp and CAutoPtr.h of src/src/common: the set-up of logging and the delays of the polling loops, and the owning pointer.  log4c and
  \<open>select\<close> are parameters.  (\<open>CBase::now\<close> reads the clock of the server and is in Server_State.)
\<close>

section \<open>Logging and delays\<close>

record logging =
  l_category :: ub8_
  l_open :: bool

text \<open>\<open>init\<close> is what \<open>log4c_init\<close> returns, \<open>category\<close> what \<open>log4c_category_get\<close> returns.\<close>

definition CBase_initialize :: "b4_ \<Rightarrow> ub8_ \<Rightarrow> logging \<Rightarrow> bool \<times> logging" where
  "CBase_initialize init category s = (if init \<noteq> 0 then (False, s) else (True, s\<lparr>l_category := category, l_open := True\<rparr>))"

definition CBase_uninitialize :: "logging \<Rightarrow> logging" where
  "CBase_uninitialize s = s\<lparr>l_open := False\<rparr>"

definition CBase_getCategory :: "logging \<Rightarrow> ub8_" where
  "CBase_getCategory s = l_category s"

text \<open>The two fields of the timeval; the milliseconds are multiplied in 32 bits.\<close>

definition sleepDelay :: "ub4_ \<Rightarrow> ub4_ \<Rightarrow> int \<times> int" where
  "sleepDelay ss mss = (uint ss, uint (mss * 1000))"

definition CBase_sleep :: "(int \<times> int \<Rightarrow> b4_) \<Rightarrow> ub4_ \<Rightarrow> ub4_ \<Rightarrow> b4_" where
  "CBase_sleep select ss mss = select (sleepDelay ss mss)"

text \<open>Below a second the delay is the one that is asked for; much longer ones wrap around.\<close>

lemma sleep_delay:
  assumes "unat mss < 1000"
  shows "0 \<le> snd (sleepDelay ss mss) \<and> snd (sleepDelay ss mss) < 1000000 \<and>
     fst (sleepDelay ss mss) * 1000000 + snd (sleepDelay ss mss) = (uint ss * 1000 + uint mss) * 1000"
proof -
  have u: "uint mss < 1000" using assms by (metis of_nat_less_iff of_nat_numeral uint_nat)
  have "uint (mss * 1000) = uint mss * 1000 mod 2 ^ 32" by (subst uint_word_ariths(3)) simp
  moreover have "uint mss * 1000 mod 2 ^ 32 = uint mss * 1000" using u by (intro mod_pos_pos_trivial) simp_all
  ultimately have "uint (mss * 1000) = uint mss * 1000" by simp
  moreover note u
  ultimately show ?thesis by (simp add: sleepDelay_def)
qed

lemma sleep_wraps: "sleepDelay 0 4294968 = (0, 704)"
  by (simp add: sleepDelay_def)

section \<open>CAutoPtr\<close>

text \<open>
  The objects that \<open>new\<close> made and \<open>delete\<close> has not freed are a list of addresses.  \<open>None\<close> is a second \<open>delete\<close> of the same object.
\<close>

definition deleteObject :: "ub8_ \<Rightarrow> ub8_ list \<Rightarrow> ub8_ list option" where
  "deleteObject p h = (if p = null_v then Some h else if p \<in> set h then Some (remove1 p h) else None)"

definition CAutoPtr_new :: "ub8_ \<Rightarrow> ub8_" where
  "CAutoPtr_new p = p"

text \<open>The pointer that is returned, and what is left.\<close>

definition CAutoPtr_release :: "ub8_ \<Rightarrow> ub8_ \<times> ub8_" where
  "CAutoPtr_release a = (a, null_v)"

definition CAutoPtr_copy :: "ub8_ \<Rightarrow> ub8_ \<times> ub8_" where
  "CAutoPtr_copy ptr = CAutoPtr_release ptr"

definition CAutoPtr_reset :: "ub8_ \<Rightarrow> ub8_ \<Rightarrow> ub8_ list \<Rightarrow> (ub8_ \<times> ub8_ list) option" where
  "CAutoPtr_reset p a h = (if p \<noteq> a then map_option (\<lambda>h1. (p, h1)) (deleteObject a h) else Some (a, h))"

definition CAutoPtr_delete :: "ub8_ \<Rightarrow> ub8_ list \<Rightarrow> ub8_ list option" where
  "CAutoPtr_delete a h = deleteObject a h"

text \<open>\<open>ps ! i = ps ! j\<close>: the pointers are variables, and an assignment to itself is recognised.\<close>

definition CAutoPtr_assign :: "nat \<Rightarrow> nat \<Rightarrow> ub8_ list \<Rightarrow> ub8_ list \<Rightarrow> (ub8_ list \<times> ub8_ list) option" where
  "CAutoPtr_assign i j ps h =
     (if i \<noteq> j then
        (let (p, r) = CAutoPtr_release (ps ! j); ps1 = ps[j := r] in
         map_option (\<lambda>(a, h1). (ps1[i := a], h1)) (CAutoPtr_reset p (ps1 ! i) h))
      else Some (ps, h))"

text \<open>A client: pointers, live objects, and the objects it took out with \<open>release\<close>.\<close>

datatype ptrOp = Make ub8_ | Copy nat | Assign nat nat | Reset nat ub8_ | Release nat | Destroy nat

record ptrClient =
  p_ptrs :: "ub8_ list"
  p_live :: "ub8_ list"
  p_taken :: "ub8_ list"

text \<open>Every live object has one owner: a pointer, or the client.\<close>

definition ptr_ok :: "ptrClient \<Rightarrow> bool" where
  "ptr_ok c \<longleftrightarrow> distinct (p_live c) \<and> null_v \<notin> set (p_live c) \<and>
     mset (p_live c) = filter_mset (\<lambda>p. p \<noteq> null_v) (mset (p_ptrs c)) + mset (p_taken c)"

fun ptrOp_ok :: "ptrClient \<Rightarrow> ptrOp \<Rightarrow> bool" where
  "ptrOp_ok c (Make p) = (p \<noteq> null_v \<and> p \<notin> set (p_live c))"
| "ptrOp_ok c (Copy j) = (j < length (p_ptrs c))"
| "ptrOp_ok c (Assign i j) = (i < length (p_ptrs c) \<and> j < length (p_ptrs c))"
| "ptrOp_ok c (Reset i p) = (i < length (p_ptrs c) \<and> p \<noteq> null_v \<and> p \<notin> set (p_live c))"
| "ptrOp_ok c (Release i) = (i < length (p_ptrs c))"
| "ptrOp_ok c (Destroy i) = (i < length (p_ptrs c))"

fun ptr_step :: "ptrOp \<Rightarrow> ptrClient \<Rightarrow> ptrClient option" where
  "ptr_step (Make p) c = Some (c\<lparr>p_ptrs := p_ptrs c @ [CAutoPtr_new p], p_live := p # p_live c\<rparr>)"
| "ptr_step (Copy j) c = (let (p, r) = CAutoPtr_copy (p_ptrs c ! j) in Some (c\<lparr>p_ptrs := (p_ptrs c)[j := r] @ [p]\<rparr>))"
| "ptr_step (Assign i j) c =
     map_option (\<lambda>(ps, h). c\<lparr>p_ptrs := ps, p_live := h\<rparr>) (CAutoPtr_assign i j (p_ptrs c) (p_live c))"
| "ptr_step (Reset i p) c =
     map_option (\<lambda>(a, h). c\<lparr>p_ptrs := (p_ptrs c)[i := a], p_live := h\<rparr>) (CAutoPtr_reset p (p_ptrs c ! i) (p # p_live c))"
| "ptr_step (Release i) c =
     (let (p, r) = CAutoPtr_release (p_ptrs c ! i) in
      Some (c\<lparr>p_ptrs := (p_ptrs c)[i := r], p_taken := (if p = null_v then p_taken c else p # p_taken c)\<rparr>))"
| "ptr_step (Destroy i) c =
     map_option (\<lambda>h. c\<lparr>p_ptrs := (p_ptrs c)[i := null_v], p_live := h\<rparr>) (CAutoPtr_delete (p_ptrs c ! i) (p_live c))"

lemma ptr_split:
  assumes "i < length ps"
  obtains M where "mset ps = add_mset (ps ! i) M" and "\<And>a. mset (ps[i := a]) = add_mset a M"
  using assms by (metis add_mset_remove_trivial mset_update nth_mem_mset insert_DiffM)

lemma owned_live:
  assumes "ptr_ok c" and "i < length (p_ptrs c)" and "p_ptrs c ! i \<noteq> null_v"
  shows "p_ptrs c ! i \<in> set (p_live c)"
proof -
  have "p_ptrs c ! i \<in># mset (p_live c)" using assms by (simp add: ptr_ok_def)
  then show ?thesis by simp
qed

lemma delete_owned:
  assumes "ptr_ok c" and "i < length (p_ptrs c)"
  shows "\<exists>h. deleteObject (p_ptrs c ! i) (p_live c) = Some h \<and> ptr_ok (c\<lparr>p_ptrs := (p_ptrs c)[i := null_v], p_live := h\<rparr>)"
proof -
  obtain M where "mset (p_ptrs c) = add_mset (p_ptrs c ! i) M" "\<And>a. mset ((p_ptrs c)[i := a]) = add_mset a M"
    using ptr_split [OF assms(2)] by blast
  then show ?thesis using assms owned_live [OF assms] by (auto simp: deleteObject_def ptr_ok_def dest: notin_set_remove1)
qed

text \<open>No object is deleted twice, and none is lost.\<close>

lemma ptr_step_ok:
  assumes ok: "ptr_ok c" and op: "ptrOp_ok c p"
  shows "\<exists>c'. ptr_step p c = Some c' \<and> ptr_ok c'"
proof (cases p)
  case (Make a)
  then show ?thesis using ok op by (auto simp: ptr_ok_def CAutoPtr_new_def)
next
  case (Copy j)
  then obtain M where "mset (p_ptrs c) = add_mset (p_ptrs c ! j) M" "\<And>a. mset ((p_ptrs c)[j := a]) = add_mset a M"
    using ptr_split op by (metis ptrOp_ok.simps(2))
  then show ?thesis using Copy ok by (auto simp: ptr_ok_def CAutoPtr_copy_def CAutoPtr_release_def)
next
  case (Release i)
  then obtain M where "mset (p_ptrs c) = add_mset (p_ptrs c ! i) M" "\<And>a. mset ((p_ptrs c)[i := a]) = add_mset a M"
    using ptr_split op by (metis ptrOp_ok.simps(5))
  then show ?thesis using Release ok by (auto simp: ptr_ok_def CAutoPtr_release_def)
next
  case (Destroy i)
  then show ?thesis using delete_owned [OF ok, of i] op by (auto simp: CAutoPtr_delete_def)
next
  case (Reset i a)
  then have i: "i < length (p_ptrs c)" "a \<noteq> null_v" "a \<notin> set (p_live c)" using op by simp_all
  obtain M where M: "mset (p_ptrs c) = add_mset (p_ptrs c ! i) M" "\<And>a. mset ((p_ptrs c)[i := a]) = add_mset a M"
    using ptr_split [OF i(1)] by blast
  have "a \<noteq> p_ptrs c ! i" using owned_live [OF ok i(1)] i(2,3) by auto
  then show ?thesis using Reset ok i M owned_live [OF ok i(1)]
    by (auto simp: ptr_ok_def CAutoPtr_reset_def deleteObject_def dest: notin_set_remove1)
next
  case (Assign i j)
  then have ij: "i < length (p_ptrs c)" "j < length (p_ptrs c)" using op by simp_all
  show ?thesis
  proof (cases "i = j")
    case True
    then show ?thesis using Assign ok by (simp add: CAutoPtr_assign_def)
  next
    case False
    let ?p = "p_ptrs c ! j" and ?a = "p_ptrs c ! i" and ?qs = "(p_ptrs c)[j := null_v]"
    obtain M where M: "mset (p_ptrs c) = add_mset ?p M" "\<And>a. mset ((p_ptrs c)[j := a]) = add_mset a M"
      using ptr_split [OF ij(2)] by blast
    obtain K where K: "mset ?qs = add_mset ?a K" "\<And>a. mset (?qs[i := a]) = add_mset a K"
      using ptr_split [of i ?qs] ij False by auto
    have "add_mset null_v M = add_mset ?a K" using M(2) [of null_v] K(1) by simp
    then have own: "filter_mset (\<lambda>p. p \<noteq> null_v) M = filter_mset (\<lambda>p. p \<noteq> null_v) (add_mset ?a K)"
      by (metis (mono_tags, lifting) filter_mset_add_mset)
    have same: "?a = null_v" if "?p = ?a"
    proof (rule ccontr)
      assume "?a \<noteq> null_v"
      then have "?a \<in># filter_mset (\<lambda>p. p \<noteq> null_v) M" using own by simp
      then have "1 < count (mset (p_live c)) ?a" using ok M(1) that \<open>?a \<noteq> null_v\<close> by (simp add: ptr_ok_def)
      moreover have "distinct (p_live c)" using ok by (simp add: ptr_ok_def)
      then have "count (mset (p_live c)) ?a \<le> 1" using distinct_count_atmost_1 [of "p_live c"] by simp
      ultimately show False by simp
    qed
    then show ?thesis using Assign ok False ij M K own owned_live [OF ok ij(1)]
      by (auto simp: ptr_ok_def CAutoPtr_assign_def CAutoPtr_release_def CAutoPtr_reset_def deleteObject_def Let_def dest: notin_set_remove1)
  qed
qed

lemma all_destroyed: "ptr_ok c \<Longrightarrow> set (p_ptrs c) \<subseteq> {null_v} \<Longrightarrow> mset (p_live c) = mset (p_taken c)"
  by (auto simp: ptr_ok_def filter_mset_eq_conv)

end
