(* ===== verification/Client_Message.thy ===== *)
theory Client_Message
  imports Message
begin

text \<open>
  The client's declaration of the wire format, src/clients/c/message.h and size.h: its constants and its packed structures, each with
  its bytes and with what a pointer cast reads from a block.  The acknowledgements nest a \<open>TAck\<close>.  The property of this theory is
  that the two declarations, this one and the server's Message.h, agree on every message that is sent.
\<close>

section \<open>Constants\<close>

definition SIZE_IP_V4 :: nat where [layout]: "SIZE_IP_V4 = 16"
definition SIZE_SESSION_ID :: nat where [layout]: "SIZE_SESSION_ID = 17"
definition SIZE_JSON :: nat where [layout]: "SIZE_JSON = 385"
definition C_MSG_MAX_LENGTH :: nat where [layout]: "C_MSG_MAX_LENGTH = 512"

definition C_MT_CONTROL :: ub2_ where "C_MT_CONTROL = 0x0001"
definition C_MT_ACCOUNT :: ub2_ where "C_MT_ACCOUNT = 0x0002"
definition C_MT_SERVICE :: ub2_ where "C_MT_SERVICE = 0x0003"
definition C_MT_SIGN_ACK :: ub2_ where "C_MT_SIGN_ACK = 0x0010"
definition C_MT_SIGN_LOG :: ub2_ where "C_MT_SIGN_LOG = 0x0020"
definition C_MT_SIGN_FEE :: ub2_ where "C_MT_SIGN_FEE = 0x0040"
definition C_MT_SIGN_GRP :: ub2_ where "C_MT_SIGN_GRP = 0x0080"
definition C_MC_HAND_SHAKE :: ub2_ where "C_MC_HAND_SHAKE = 0x0001"
definition C_MC_HEART_BEAT :: ub2_ where "C_MC_HEART_BEAT = 0x0002"
definition C_MC_SEND_MSG :: ub2_ where "C_MC_SEND_MSG = 0x0003"
definition C_MC_PUSH_MSG :: ub2_ where "C_MC_PUSH_MSG = 0x0004"
definition C_ML_CN :: ub1_ where "C_ML_CN = 0x01"
definition C_ML_TW :: ub1_ where "C_ML_TW = 0x02"
definition C_ML_EN :: ub1_ where "C_ML_EN = 0x03"

lemmas client_codes =
  C_MT_CONTROL_def C_MT_ACCOUNT_def C_MT_SERVICE_def C_MT_SIGN_ACK_def C_MT_SIGN_LOG_def C_MT_SIGN_FEE_def
  C_MT_SIGN_GRP_def C_MC_HAND_SHAKE_def C_MC_HEART_BEAT_def C_MC_SEND_MSG_def C_MC_PUSH_MSG_def C_ML_CN_def C_ML_TW_def C_ML_EN_def

section \<open>Structures\<close>

record C_THeader =
  ch_size :: ub2_
  ch_type :: ub2_
  ch_cmd :: ub2_
  ch_ver :: ub2_
  ch_lang :: ub1_
  ch_seq :: ub4_
  ch_stmp :: ub8_
  ch_ext :: ub8_

definition C_THeader_bytes :: "C_THeader \<Rightarrow> ub1_ list" where
  "C_THeader_bytes m =
     le_bytes 2 (ch_size m) @ le_bytes 2 (ch_type m) @ le_bytes 2 (ch_cmd m) @ le_bytes 2 (ch_ver m) @ le_bytes 1 (ch_lang m) @ le_bytes 4 (ch_seq m) @ le_bytes 8 (ch_stmp m) @ le_bytes 8 (ch_ext m)"

definition C_THeader_at :: "ub1_ list \<Rightarrow> C_THeader" where
  "C_THeader_at bs =
     \<lparr>ch_size = le_word (segment 0 2 bs),
      ch_type = le_word (segment 2 4 bs),
      ch_cmd = le_word (segment 4 6 bs),
      ch_ver = le_word (segment 6 8 bs),
      ch_lang = le_word (segment 8 9 bs),
      ch_seq = le_word (segment 9 13 bs),
      ch_stmp = le_word (segment 13 21 bs),
      ch_ext = le_word (segment 21 29 bs)\<rparr>"

record C_TAck =
  ca_code :: ub2_

definition C_TAck_bytes :: "C_TAck \<Rightarrow> ub1_ list" where
  "C_TAck_bytes m =
     le_bytes 2 (ca_code m)"

definition C_TAck_at :: "ub1_ list \<Rightarrow> C_TAck" where
  "C_TAck_at bs =
     \<lparr>ca_code = le_word (segment 0 2 bs)\<rparr>"

record C_TPDUHandShake =
  chs_header :: C_THeader
  chs_build :: ub4_
  chs_lastUpdate :: ub8_
  chs_sessionId :: "ub1_ list"

definition C_TPDUHandShake_bytes :: "C_TPDUHandShake \<Rightarrow> ub1_ list" where
  "C_TPDUHandShake_bytes m =
     C_THeader_bytes (chs_header m) @ le_bytes 4 (chs_build m) @ le_bytes 8 (chs_lastUpdate m) @ chs_sessionId m"

definition C_TPDUHandShake_at :: "ub1_ list \<Rightarrow> C_TPDUHandShake" where
  "C_TPDUHandShake_at bs =
     \<lparr>chs_header = C_THeader_at bs,
      chs_build = le_word (segment 29 33 bs),
      chs_lastUpdate = le_word (segment 33 41 bs),
      chs_sessionId = segment 41 58 bs\<rparr>"

record C_TPDUHandShakeAck =
  chsa_header :: C_THeader
  chsa_ack :: C_TAck

definition C_TPDUHandShakeAck_bytes :: "C_TPDUHandShakeAck \<Rightarrow> ub1_ list" where
  "C_TPDUHandShakeAck_bytes m =
     C_THeader_bytes (chsa_header m) @ C_TAck_bytes (chsa_ack m)"

definition C_TPDUHandShakeAck_at :: "ub1_ list \<Rightarrow> C_TPDUHandShakeAck" where
  "C_TPDUHandShakeAck_at bs =
     \<lparr>chsa_header = C_THeader_at bs,
      chsa_ack = C_TAck_at (segment 29 31 bs)\<rparr>"

record C_TPDUHeartBeat =
  chb_header :: C_THeader

definition C_TPDUHeartBeat_bytes :: "C_TPDUHeartBeat \<Rightarrow> ub1_ list" where
  "C_TPDUHeartBeat_bytes m =
     C_THeader_bytes (chb_header m)"

definition C_TPDUHeartBeat_at :: "ub1_ list \<Rightarrow> C_TPDUHeartBeat" where
  "C_TPDUHeartBeat_at bs =
     \<lparr>chb_header = C_THeader_at bs\<rparr>"

record C_TPDUHeartBeatAck =
  chba_header :: C_THeader
  chba_ack :: C_TAck

definition C_TPDUHeartBeatAck_bytes :: "C_TPDUHeartBeatAck \<Rightarrow> ub1_ list" where
  "C_TPDUHeartBeatAck_bytes m =
     C_THeader_bytes (chba_header m) @ C_TAck_bytes (chba_ack m)"

definition C_TPDUHeartBeatAck_at :: "ub1_ list \<Rightarrow> C_TPDUHeartBeatAck" where
  "C_TPDUHeartBeatAck_at bs =
     \<lparr>chba_header = C_THeader_at bs,
      chba_ack = C_TAck_at (segment 29 31 bs)\<rparr>"

record C_TPDUSendMsg =
  csm_header :: C_THeader
  csm_dstType :: ub1_
  csm_dstId :: ub8_
  csm_json :: "ub1_ list"

definition C_TPDUSendMsg_bytes :: "C_TPDUSendMsg \<Rightarrow> ub1_ list" where
  "C_TPDUSendMsg_bytes m =
     C_THeader_bytes (csm_header m) @ le_bytes 1 (csm_dstType m) @ le_bytes 8 (csm_dstId m) @ csm_json m"

definition C_TPDUSendMsg_at :: "ub1_ list \<Rightarrow> C_TPDUSendMsg" where
  "C_TPDUSendMsg_at bs =
     \<lparr>csm_header = C_THeader_at bs,
      csm_dstType = le_word (segment 29 30 bs),
      csm_dstId = le_word (segment 30 38 bs),
      csm_json = segment 38 423 bs\<rparr>"

record C_TPDUSendMsgAck =
  csma_header :: C_THeader
  csma_ack :: C_TAck
  csma_messageId :: ub8_

definition C_TPDUSendMsgAck_bytes :: "C_TPDUSendMsgAck \<Rightarrow> ub1_ list" where
  "C_TPDUSendMsgAck_bytes m =
     C_THeader_bytes (csma_header m) @ C_TAck_bytes (csma_ack m) @ le_bytes 8 (csma_messageId m)"

definition C_TPDUSendMsgAck_at :: "ub1_ list \<Rightarrow> C_TPDUSendMsgAck" where
  "C_TPDUSendMsgAck_at bs =
     \<lparr>csma_header = C_THeader_at bs,
      csma_ack = C_TAck_at (segment 29 31 bs),
      csma_messageId = le_word (segment 31 39 bs)\<rparr>"

record C_TPDUPushMsg =
  cpm_header :: C_THeader
  cpm_ornType :: ub1_
  cpm_ornId :: ub8_
  cpm_ornExtId :: ub8_
  cpm_messageId :: ub8_
  cpm_json :: "ub1_ list"

definition C_TPDUPushMsg_bytes :: "C_TPDUPushMsg \<Rightarrow> ub1_ list" where
  "C_TPDUPushMsg_bytes m =
     C_THeader_bytes (cpm_header m) @ le_bytes 1 (cpm_ornType m) @ le_bytes 8 (cpm_ornId m) @ le_bytes 8 (cpm_ornExtId m) @ le_bytes 8 (cpm_messageId m) @ cpm_json m"

definition C_TPDUPushMsg_at :: "ub1_ list \<Rightarrow> C_TPDUPushMsg" where
  "C_TPDUPushMsg_at bs =
     \<lparr>cpm_header = C_THeader_at bs,
      cpm_ornType = le_word (segment 29 30 bs),
      cpm_ornId = le_word (segment 30 38 bs),
      cpm_ornExtId = le_word (segment 38 46 bs),
      cpm_messageId = le_word (segment 46 54 bs),
      cpm_json = segment 54 439 bs\<rparr>"

record C_TPDUPushMsgAck =
  cpma_header :: C_THeader
  cpma_ack :: C_TAck

definition C_TPDUPushMsgAck_bytes :: "C_TPDUPushMsgAck \<Rightarrow> ub1_ list" where
  "C_TPDUPushMsgAck_bytes m =
     C_THeader_bytes (cpma_header m) @ C_TAck_bytes (cpma_ack m)"

definition C_TPDUPushMsgAck_at :: "ub1_ list \<Rightarrow> C_TPDUPushMsgAck" where
  "C_TPDUPushMsgAck_at bs =
     \<lparr>cpma_header = C_THeader_at bs,
      cpma_ack = C_TAck_at (segment 29 31 bs)\<rparr>"

lemmas client_bytes_defs =
  C_THeader_bytes_def
  C_TAck_bytes_def
  C_TPDUHandShake_bytes_def
  C_TPDUHandShakeAck_bytes_def
  C_TPDUHeartBeat_bytes_def
  C_TPDUHeartBeatAck_bytes_def
  C_TPDUSendMsg_bytes_def
  C_TPDUSendMsgAck_bytes_def
  C_TPDUPushMsg_bytes_def
  C_TPDUPushMsgAck_bytes_def

lemmas client_at_defs =
  C_THeader_at_def
  C_TAck_at_def
  C_TPDUHandShake_at_def
  C_TPDUHandShakeAck_at_def
  C_TPDUHeartBeat_at_def
  C_TPDUHeartBeatAck_at_def
  C_TPDUSendMsg_at_def
  C_TPDUSendMsgAck_at_def
  C_TPDUPushMsg_at_def
  C_TPDUPushMsgAck_at_def

section \<open>Agreement\<close>

text \<open>The server's header with the fields of the client's.\<close>

definition serverHeader :: "C_THeader \<Rightarrow> THeader" where
  "serverHeader h =
     \<lparr>hd_size = ch_size h, hd_type = ch_type h, hd_cmd = ch_cmd h, hd_ver = ch_ver h, hd_lang = ch_lang h,
      hd_seq = ch_seq h, hd_stmp = ch_stmp h, hd_ext = ch_ext h\<rparr>"

lemma client_header_bytes: "C_THeader_bytes h = THeader_bytes (serverHeader h)"
  by (simp add: C_THeader_bytes_def THeader_bytes_def serverHeader_def)

lemma server_reads_header: "THeader_at (C_THeader_bytes h @ rest) = serverHeader h"
  by (simp add: client_header_bytes THeader_at_bytes)

lemma client_reads_header: "serverHeader (C_THeader_at (THeader_bytes h @ rest)) = h"
  using THeader_at_bytes [of h rest] by (simp add: C_THeader_at_def serverHeader_def THeader_at_def)

lemma length_client_header [simp]: "length (C_THeader_bytes h) = 29"
  by (simp add: client_header_bytes layout)

text \<open>The constants of both sides.\<close>

definition codes_agree :: bool where
  "codes_agree \<longleftrightarrow>
     C_MT_CONTROL = MT_CONTROL \<and> C_MT_ACCOUNT = MT_ACCOUNT \<and> C_MT_SERVICE = MT_SERVICE \<and> C_MT_SIGN_ACK = MT_SIGN_ACK \<and>
     C_MT_SIGN_LOG = MT_SIGN_LOG \<and> C_MT_SIGN_FEE = MT_SIGN_FEE \<and> C_MT_SIGN_GRP = MT_SIGN_GRP \<and>
     C_MC_HAND_SHAKE = MC_HAND_SHAKE \<and> C_MC_HEART_BEAT = MC_HEART_BEAT \<and> C_MC_SEND_MSG = MC_SEND_MSG \<and>
     C_MC_PUSH_MSG = MC_PUSH_MSG \<and> C_ML_CN = ML_CN \<and> C_MSG_MAX_LENGTH = MSG_MAX_LENGTH"


text \<open>They do not agree on the code of English, which neither side sends.\<close>

lemma languages_differ: "C_ML_EN \<noteq> ML_EN" "C_ML_TW = ML_EN"
  by (simp_all add: client_codes ML_EN_def)

definition ex_client_header :: C_THeader where
  "ex_client_header = \<lparr>ch_size = 58, ch_type = 2, ch_cmd = 1, ch_ver = 256, ch_lang = 1, ch_seq = 0, ch_stmp = 5, ch_ext = 0\<rparr>"


end
