(* ===== verification/Client.thy ===== *)
theory Client
  imports Session
begin

unbundle bit_operations_syntax

text \<open>
  The client library, src/clients/c/connection.c and bridge.c: the thread that connects, waits in \<open>select\<close> and reassembles
  messages, \<open>cnn_send\<close>, and the handlers that answer the server; and the exchanges of client and server.  The
  packed structures of src/clients/c/message.h are those of the server's Message.h, with which they agree (Client_Message).  The results of
  \<open>connect\<close> and \<open>select\<close> are inputs, a finite list that ends where the application stops the connection.
\<close>

section \<open>State\<close>

text \<open>
  The connection (\<open>struct connection_info\<close>), the static variables of connection.c, bridge.c and the application main.c
  (\<open>k_groupId\<close> and the two totals), and the outside: what
  the socket will report, what was written to it, what later sockets will report, and
  the results of \<open>time\<close>.
\<close>

record client =
  k_ip :: "ub1_ list"
  k_port :: ub2_
  k_interval :: ub4_
  k_running :: bool
  k_connected :: bool
  k_needsReconnect :: bool
  k_msgBuf :: "ub1_ list"
  k_offset :: ub4_
  k_pendingSize :: ub4_
  k_connectionNum :: ub4_
  k_started :: bool
  k_build :: ub4_
  k_sessionId :: "ub1_ list"
  k_groupId :: ub8_
  k_totalSendNum :: ub4_
  k_totalPushNum :: ub4_
  k_in :: "recvEvent list"
  k_out :: "sendEvent list"
  k_wire :: "ub1_ list"
  k_sockets :: "(recvEvent list \<times> sendEvent list) list"
  k_clock :: "nat \<Rightarrow> ub8_"
  k_ticks :: nat

text \<open>The application's callbacks; \<open>None\<close> for one that is not set.\<close>

record app =
  a_connected :: "(client \<Rightarrow> (ub8_ \<times> client) result) option"
  a_ready :: "(client \<Rightarrow> client result) option"
  a_push :: "(ub1_ \<Rightarrow> ub8_ \<Rightarrow> ub8_ \<Rightarrow> ub8_ \<Rightarrow> ub1_ list \<Rightarrow> ub8_ \<Rightarrow> client \<Rightarrow> client result) option"
  a_sendAck :: "(ub8_ \<Rightarrow> ub2_ \<Rightarrow> ub8_ \<Rightarrow> client \<Rightarrow> client result) option"
  a_error :: "(b4_ \<Rightarrow> client \<Rightarrow> client result) option"
  a_closed :: "(client \<Rightarrow> client result) option"

text \<open>The variable \<open>_bridge_callbacks\<close> before anything was set, and the functions that set its members.\<close>

definition noCallbacks :: app where
  "noCallbacks = \<lparr>a_connected = None, a_ready = None, a_push = None, a_sendAck = None, a_error = None, a_closed = None\<rparr>"

definition set_on_connected :: "(client \<Rightarrow> (ub8_ \<times> client) result) \<Rightarrow> app \<Rightarrow> app" where
  "set_on_connected f a = a\<lparr>a_connected := Some f\<rparr>"

definition set_on_ready :: "(client \<Rightarrow> client result) \<Rightarrow> app \<Rightarrow> app" where
  "set_on_ready f a = a\<lparr>a_ready := Some f\<rparr>"

definition set_on_push ::
  "(ub1_ \<Rightarrow> ub8_ \<Rightarrow> ub8_ \<Rightarrow> ub8_ \<Rightarrow> ub1_ list \<Rightarrow> ub8_ \<Rightarrow> client \<Rightarrow> client result) \<Rightarrow> app \<Rightarrow> app" where
  "set_on_push f a = a\<lparr>a_push := Some f\<rparr>"

definition set_on_send_ack :: "(ub8_ \<Rightarrow> ub2_ \<Rightarrow> ub8_ \<Rightarrow> client \<Rightarrow> client result) \<Rightarrow> app \<Rightarrow> app" where
  "set_on_send_ack f a = a\<lparr>a_sendAck := Some f\<rparr>"

definition set_on_error :: "(b4_ \<Rightarrow> client \<Rightarrow> client result) \<Rightarrow> app \<Rightarrow> app" where
  "set_on_error f a = a\<lparr>a_error := Some f\<rparr>"

definition set_on_closed :: "(client \<Rightarrow> client result) \<Rightarrow> app \<Rightarrow> app" where
  "set_on_closed f a = a\<lparr>a_closed := Some f\<rparr>"

definition timeC :: "client \<Rightarrow> ub8_ \<times> client" where
  "timeC c = (k_clock c (k_ticks c), c\<lparr>k_ticks := Suc (k_ticks c)\<rparr>)"

section \<open>Sending\<close>

text \<open>The loop of \<open>cnn_send\<close>: the return code, the bytes that went out, and what the kernel has left to report.\<close>

fun cnnSendLoop :: "sendEvent list \<Rightarrow> ub1_ list \<Rightarrow> b4_ \<times> ub1_ list \<times> sendEvent list" where
  "cnnSendLoop [] buf = (0, buf, [])"
| "cnnSendLoop (Accepts k # evs) buf =
     (if take k buf = [] then (-2, [], evs)
      else if drop k buf = [] then (0, take k buf, evs)
      else (let (r, out, evs1) = cnnSendLoop evs (drop k buf) in (r, take k buf @ out, evs1)))"
| "cnnSendLoop (SendErr err # evs) buf = (if err = EAGAIN then cnnSendLoop evs buf else (-2, [], evs))"

definition cnn_send :: "client \<Rightarrow> ub1_ list \<Rightarrow> (b4_ \<times> client) result" where
  "cnn_send c bs =
     assertR (bs \<noteq> [])
       (if k_connected c then
          (let (r, out, evs) = cnnSendLoop (k_out c) bs in
           Inr (r, c\<lparr>k_out := evs, k_wire := k_wire c @ out\<rparr>))
        else Inr (-1, c))"

section \<open>The bridge\<close>

definition handShakeMsg :: "client \<Rightarrow> ub8_ \<Rightarrow> ub8_ \<Rightarrow> TPDUHandShake" where
  "handShakeMsg c lastUpdate t =
     \<lparr>hs_header = \<lparr>hd_size = of_nat sizeof_TPDUHandShake, hd_type = MT_ACCOUNT, hd_cmd = MC_HAND_SHAKE,
        hd_ver = 0x0100, hd_lang = ML_CN, hd_seq = 0, hd_stmp = t, hd_ext = 0\<rparr>,
      hs_build = k_build c, hs_lastUpdate = lastUpdate,
      hs_sessionId = (strncpy (zeros Size_SESSION_ID) (k_sessionId c) (Size_SESSION_ID - 1))[16 := 0]\<rparr>"

definition on_connected :: "app \<Rightarrow> client \<Rightarrow> client result" where
  "on_connected a c =
     bindR (case a_connected a of None \<Rightarrow> Inr (0, c) | Some f \<Rightarrow> f c) (\<lambda>(lastUpdate, c1).
       let (t, c2) = timeC c1 in
       bindR (cnn_send c2 (TPDUHandShake_bytes (handShakeMsg c2 lastUpdate t))) (\<lambda>(_, c3). Inr c3))"

text \<open>The acknowledgement that a handler sends: the header of the message with its own size, the
  acknowledgement flag and the time.\<close>

definition ackHeader :: "THeader \<Rightarrow> nat \<Rightarrow> ub8_ \<Rightarrow> THeader" where
  "ackHeader h sz t = h\<lparr>hd_size := of_nat sz, hd_type := hd_type h OR MT_SIGN_ACK, hd_stmp := t\<rparr>"

definition on_received :: "app \<Rightarrow> ub1_ list \<Rightarrow> ub4_ \<Rightarrow> client \<Rightarrow> client result" where
  "on_received a data sz c =
     (let h = THeader_at data in
      if hd_type h = MT_ACCOUNT OR MT_SIGN_ACK \<and> hd_cmd h = MC_HAND_SHAKE \<and> sz = of_nat sizeof_TPDUHandShakeAck then
        (if hsa_code (TPDUHandShakeAck_at data) \<noteq> 0 then Inr c
         else case a_ready a of None \<Rightarrow> Inr c | Some f \<Rightarrow> f c)
      else if hd_type h = MT_CONTROL \<and> hd_cmd h = MC_HEART_BEAT \<and> sz = of_nat sizeof_TPDUHeartBeat then
        (let (t, c1) = timeC c in
         bindR (cnn_send c1 (TPDUHeartBeatAck_bytes \<lparr>hba_header = ackHeader h sizeof_TPDUHeartBeatAck t, hba_code = 0\<rparr>))
           (\<lambda>(_, c2). Inr c2))
      else if hd_type h = MT_SERVICE \<and> hd_cmd h = MC_PUSH_MSG \<and> sz = of_nat sizeof_TPDUPushMsg then
        (let m = TPDUPushMsg_at data in
         bindR (case a_push a of None \<Rightarrow> Inr c
                | Some f \<Rightarrow> f (pm_ornType m) (pm_ornId m) (pm_ornExtId m) (pm_messageId m) (pm_json m) (hd_stmp h) c) (\<lambda>c0.
           let (t, c1) = timeC c0 in
           bindR (cnn_send c1 (TPDUPushMsgAck_bytes \<lparr>pma_header = ackHeader h sizeof_TPDUPushMsgAck t, pma_code = 0\<rparr>))
             (\<lambda>(_, c2). Inr c2)))
      else if hd_type h = MT_SERVICE OR MT_SIGN_ACK \<and> hd_cmd h = MC_SEND_MSG \<and> sz = of_nat sizeof_TPDUSendMsgAck then
        (let m = TPDUSendMsgAck_at data in
         if sma_code m \<noteq> 0 then Inr c
         else case a_sendAck a of None \<Rightarrow> Inr c | Some f \<Rightarrow> f (ucast (hd_seq h)) (sma_code m) (sma_messageId m) c)
      else Inr c)"

definition on_error :: "app \<Rightarrow> b4_ \<Rightarrow> client \<Rightarrow> client result" where
  "on_error a code c = (case a_error a of None \<Rightarrow> Inr c | Some f \<Rightarrow> f code c)"

definition on_closed :: "app \<Rightarrow> client \<Rightarrow> client result" where
  "on_closed a c = (case a_closed a of None \<Rightarrow> Inr c | Some f \<Rightarrow> f c)"

definition net_worker_send :: "ub1_ \<Rightarrow> ub8_ \<Rightarrow> ub1_ list \<Rightarrow> client \<Rightarrow> (b4_ \<times> client) result" where
  "net_worker_send dstType dstId json c =
     (if firstByte json = 0 \<or> Size_JSON \<le> length (cstr json) then Inr (1, c)
      else if dstType \<noteq> 1 \<and> dstType \<noteq> 2 then Inr (2, c)
      else
        (let (t, c1) = timeC c in
         cnn_send c1 (TPDUSendMsg_bytes
           \<lparr>sm_header = \<lparr>hd_size = of_nat sizeof_TPDUSendMsg, hd_type = MT_SERVICE, hd_cmd = MC_SEND_MSG,
              hd_ver = 0x0100, hd_lang = ML_CN, hd_seq = 0, hd_stmp = t, hd_ext = 0\<rparr>,
            sm_dstType = dstType, sm_dstId = dstId, sm_json = strncpy (zeros Size_JSON) json (Size_JSON - 1)\<rparr>)))"

section \<open>The connection\<close>

text \<open>\<open>_fini_socket\<close> and \<open>_init_socket\<close>: the socket is replaced by a new one; when there is none, because \<open>socket\<close>, \<open>fcntl\<close> or
  \<open>bind\<close> fails, \<open>exit\<close> is called.\<close>

definition reopen :: "client \<Rightarrow> client result" where
  "reopen c = (case k_sockets c of
     [] \<Rightarrow> Inl ExitCall
   | (i, out) # rest \<Rightarrow> Inr (c\<lparr>k_in := i, k_out := out, k_wire := [], k_sockets := rest\<rparr>))"

text \<open>The socket was lost: the flags, the callback, and a new socket.\<close>

definition lostSocket :: "app \<Rightarrow> client \<Rightarrow> client result" where
  "lostSocket a c = bindR (on_closed a (c\<lparr>k_connected := False, k_needsReconnect := True\<rparr>)) reopen"

definition cnnRead :: "nat \<Rightarrow> recvEvent list \<Rightarrow> ioResult \<times> recvEvent list" where
  "cnnRead count evs =
     (if count = 0 then (Got [], evs)
      else case evs of
        [] \<Rightarrow> (Failed EAGAIN, [])
      | RecvErr e # rest \<Rightarrow> (Failed e, rest)
      | Arrived bs # rest \<Rightarrow>
          (Got (take count bs),
           if bs = [] then evs else if length bs \<le> count then rest else Arrived (drop count bs) # rest))"

text \<open>The bytes of one \<open>recv\<close>.\<close>

definition cnnBytes :: "app \<Rightarrow> ub1_ list \<Rightarrow> client \<Rightarrow> client result" where
  "cnnBytes a bs c =
     bindR (memcpy (k_msgBuf c) (unat (k_offset c)) bs 0 (length bs)) (\<lambda>b.
       let c1 = c\<lparr>k_msgBuf := b, k_offset := k_offset c + of_nat (length bs)\<rparr> in
       if k_offset c1 = of_nat sizeof_THeader then
         (let sz = hd_size (THeader_at b) in
          if sz = of_nat sizeof_THeader then
            bindR (on_received a b (k_offset c1) c1) (\<lambda>c2. Inr (c2\<lparr>k_offset := 0, k_pendingSize := 0\<rparr>))
          else Inr (c1\<lparr>k_pendingSize := ucast sz\<rparr>))
       else if k_pendingSize c1 = k_offset c1 then
         bindR (on_received a b (k_offset c1) c1) (\<lambda>c2. Inr (c2\<lparr>k_offset := 0, k_pendingSize := 0\<rparr>))
       else Inr c1)"

fun cnnRecv :: "nat \<Rightarrow> app \<Rightarrow> client \<Rightarrow> client result" where
  "cnnRecv 0 a c = Inl StackOverflow"
| "cnnRecv (Suc k) a c =
     (let c0 = (if k_pendingSize c = 0 then c\<lparr>k_pendingSize := of_nat sizeof_THeader\<rparr> else c) in
      case cnnRead (unat (k_pendingSize c0 - k_offset c0)) (k_in c0) of
        (Got bs, evs) \<Rightarrow>
          if bs \<noteq> [] then bindR (cnnBytes a bs (c0\<lparr>k_in := evs\<rparr>)) (cnnRecv k a)
          else lostSocket a (c0\<lparr>k_in := evs\<rparr>)
      | (Failed err, evs) \<Rightarrow>
          if err \<noteq> EAGAIN then lostSocket a (c0\<lparr>k_in := evs\<rparr>) else Inr (c0\<lparr>k_in := evs\<rparr>))"

text \<open>What \<open>select\<close> returns: an error, a time-out, or the sets the socket is in, with the socket's pending error.\<close>

datatype selectResult = SelectFailed | SelectTimeout | SelectReady bool bool b4_ bool

text \<open>One turn of the inner loop; the result says whether it goes on.\<close>

definition selectTurn :: "app \<Rightarrow> selectResult \<Rightarrow> client \<Rightarrow> (bool \<times> client) result" where
  "selectTurn a r c =
     (case r of
        SelectFailed \<Rightarrow> bindR (lostSocket a c) (\<lambda>c1. Inr (False, c1))
      | SelectTimeout \<Rightarrow> Inr (True, c)
      | SelectReady isErr isWrite status isRead \<Rightarrow>
          if isErr then
            bindR (on_error a 1 (c\<lparr>k_connected := False, k_needsReconnect := True\<rparr>)) (\<lambda>c1.
            bindR (reopen c1) (\<lambda>c2. Inr (False, c2)))
          else
            bindR (if isWrite \<and> \<not> k_connected c then
                     (if status = 0 then
                        bindR (on_connected a (c\<lparr>k_connected := True\<rparr>)) (\<lambda>c1. Inr (True, c1))
                      else Inr (False, c))
                   else Inr (True, c)) (\<lambda>(go, c1).
              if \<not> go then Inr (False, c1)
              else if isRead then bindR (cnnRecv (Suc (arrivedBytes (k_in c1))) a c1) (\<lambda>c2. Inr (True, c2))
              else Inr (True, c1)))"

text \<open>The inner loop over what \<open>select\<close> returns; the list ends where the application stops the connection.\<close>

fun selectLoop :: "app \<Rightarrow> selectResult list \<Rightarrow> client \<Rightarrow> client result" where
  "selectLoop a [] c = Inr (c\<lparr>k_running := False\<rparr>)"
| "selectLoop a (r # rs) c =
     (if k_running c \<and> \<not> k_needsReconnect c then
        bindR (selectTurn a r c) (\<lambda>(go, c1). if go then selectLoop a rs c1 else Inr c1)
      else Inr c)"

text \<open>What \<open>connect\<close> returns.\<close>

datatype connectOutcome = ConnectDone | ConnectInProgress | ConnectFailed

definition connectTurn :: "app \<Rightarrow> connectOutcome \<Rightarrow> selectResult list \<Rightarrow> client \<Rightarrow> client result" where
  "connectTurn a r rs c =
     (case r of
        ConnectFailed \<Rightarrow> reopen c
      | ConnectDone \<Rightarrow>
          bindR (on_connected a c) (\<lambda>c1.
            selectLoop a rs (c1\<lparr>k_connected := True, k_needsReconnect := False\<rparr>))
      | ConnectInProgress \<Rightarrow> selectLoop a rs (c\<lparr>k_needsReconnect := False\<rparr>))"

text \<open>The end of the thread.\<close>

definition cnnFinish :: "app \<Rightarrow> client \<Rightarrow> client result" where
  "cnnFinish a c =
     bindR (on_closed a (c\<lparr>k_connected := False\<rparr>)) (\<lambda>c1. Inr (c1\<lparr>k_connectionNum := k_connectionNum c1 - 1\<rparr>))"

fun cnnWorking :: "app \<Rightarrow> (connectOutcome \<times> selectResult list) list \<Rightarrow> client \<Rightarrow> client result" where
  "cnnWorking a [] c = cnnFinish a c"
| "cnnWorking a ((r, rs) # rounds) c =
     (if k_running c then bindR (connectTurn a r rs c) (cnnWorking a rounds)
      else cnnFinish a c)"

text \<open>The thread.  The parameter \<open>aton\<close> says which strings \<open>inet_aton\<close> accepts.\<close>

definition working ::
  "(ub1_ list \<Rightarrow> bool) \<Rightarrow> app \<Rightarrow> (connectOutcome \<times> selectResult list) list \<Rightarrow> client \<Rightarrow> client result" where
  "working aton a rounds c =
     (let c1 = c\<lparr>k_connectionNum := k_connectionNum c + 1, k_connected := False\<rparr> in
      if aton (cstr (k_ip c1)) then cnnWorking a rounds c1 else Inl ExitCall)"

text \<open>
  What becomes of the thread: it runs and is joined, it cannot be created, or it runs and \<open>pthread_join\<close> fails, as it may when
  the thread has ended and set \<open>tid\<close> to zero.
\<close>

datatype threadOutcome = ThreadJoined | NotCreated | NotJoined

definition cnn_start ::
  "(ub1_ list \<Rightarrow> bool) \<Rightarrow> threadOutcome \<Rightarrow> app \<Rightarrow> (connectOutcome \<times> selectResult list) list \<Rightarrow> client \<Rightarrow> (b4_ \<times> client) result" where
  "cnn_start aton th a rounds c =
     bindR (reopen c) (\<lambda>c1.
       let c2 = c1\<lparr>k_running := True\<rparr> in
       case th of
         NotCreated \<Rightarrow> Inr (1, c2)
       | NotJoined \<Rightarrow> bindR (working aton a rounds c2) (\<lambda>c3. Inr (2, c3))
       | ThreadJoined \<Rightarrow> bindR (working aton a rounds c2) (\<lambda>c3. Inr (0, c3)))"

definition cnn_get_connection_num :: "client \<Rightarrow> ub4_" where
  "cnn_get_connection_num c = k_connectionNum c"

definition cnn_stop :: "client \<Rightarrow> client" where
  "cnn_stop c = c\<lparr>k_running := False\<rparr>"

text \<open>
  \<open>net_worker_start\<close>: the code, and the state; \<open>_ci\<close> is zeroed first.  The address is copied with its own length,
  which may be more than its field holds.
\<close>

definition net_worker_start ::
  "(ub1_ list \<Rightarrow> bool) \<Rightarrow> threadOutcome \<Rightarrow> app \<Rightarrow> (connectOutcome \<times> selectResult list) list \<Rightarrow>
   ub1_ list \<Rightarrow> ub2_ \<Rightarrow> ub4_ \<Rightarrow> ub4_ \<Rightarrow> ub1_ list \<Rightarrow> client \<Rightarrow> (b4_ \<times> client) result" where
  "net_worker_start aton th a rounds ip port interval build session_id c =
     (if k_started c then Inr (-1, c)
      else
        bindR (memcpy (zeros Size_IP_V4) 0 (cstr ip) 0 (length (cstr ip))) (\<lambda>addr.
        cnn_start aton th a rounds
          (c\<lparr>k_started := True, k_ip := addr, k_port := port, k_interval := interval,
             k_running := False, k_connected := False, k_needsReconnect := False,
             k_msgBuf := zeros MSG_MAX_LENGTH, k_offset := 0, k_pendingSize := 0, k_build := build,
             k_sessionId := strncpy (zeros Size_SESSION_ID) session_id (Size_SESSION_ID - 1)\<rparr>)))"

definition net_worker_stop :: "client \<Rightarrow> client" where
  "net_worker_stop c = (if k_started c then (cnn_stop c)\<lparr>k_started := False\<rparr> else c)"

text \<open>An address that does not fit its field is written past its end.\<close>

lemma long_address_overflows:
  "\<not> k_started c \<Longrightarrow> Size_IP_V4 < length (cstr ip) \<Longrightarrow>
   net_worker_start aton th a rounds ip port interval build session_id c = Inl OutOfBounds"
  by (simp add: net_worker_start_def memcpy_def)

text \<open>When the thread cannot be created the library counts as started all the same: no later call starts it.\<close>

lemma reopen_started: "reopen c = Inr c1 \<Longrightarrow> k_started c1 = k_started c"
  by (auto simp: reopen_def split: list.splits prod.splits)

lemma failed_start_blocks:
  assumes "net_worker_start aton NotCreated a rounds ip port interval build session_id c = Inr (r, c1)" and "\<not> k_started c"
  shows "r = 1 \<and> net_worker_start aton th a rounds ip1 port1 interval1 build1 session_id1 c1 = Inr (-1, c1)"
  using assms by (auto simp: net_worker_start_def cnn_start_def Let_def bindR_def dest!: reopen_started split: sum.splits)

section \<open>An open connection\<close>

lemma cnn_send_open:
  "k_connected c \<Longrightarrow> k_out c = [] \<Longrightarrow> bs \<noteq> [] \<Longrightarrow> cnn_send c bs = Inr (0, c\<lparr>k_wire := k_wire c @ bs\<rparr>)"
  by (simp add: cnn_send_def assertR_def)

lemma bytes_nonempty: "TPDUHeartBeatAck_bytes m \<noteq> []" "TPDUPushMsgAck_bytes m1 \<noteq> []"
proof -
  have "length (TPDUHeartBeatAck_bytes m) \<noteq> 0" "length (TPDUPushMsgAck_bytes m1) \<noteq> 0" by (simp_all add: layout)
  then show "TPDUHeartBeatAck_bytes m \<noteq> []" "TPDUPushMsgAck_bytes m1 \<noteq> []" by (metis list.size(3))+
qed

lemma ack_codes:
  "MT_CONTROL \<noteq> MT_ACCOUNT OR MT_SIGN_ACK" "MT_SERVICE \<noteq> MT_ACCOUNT OR MT_SIGN_ACK" "MT_SERVICE \<noteq> MT_CONTROL"
  "MT_CONTROL OR MT_SIGN_ACK \<noteq> MT_ACCOUNT" "MT_SERVICE OR MT_SIGN_ACK \<noteq> MT_ACCOUNT"
  "MT_SERVICE OR MT_SIGN_ACK \<noteq> MT_CONTROL OR MT_SIGN_ACK" "MT_SERVICE OR MT_SIGN_ACK \<noteq> MT_SERVICE"
  "MC_HEART_BEAT \<noteq> MC_HAND_SHAKE" "MC_PUSH_MSG \<noteq> MC_HAND_SHAKE" "MC_PUSH_MSG \<noteq> MC_HEART_BEAT" "MC_PUSH_MSG \<noteq> MC_SEND_MSG"
  by (simp_all add: message_codes)

text \<open>What the client answers.\<close>

definition heartbeatAck :: "THeader \<Rightarrow> ub8_ \<Rightarrow> TPDUHeartBeatAck" where
  "heartbeatAck h t = \<lparr>hba_header = ackHeader h sizeof_TPDUHeartBeatAck t, hba_code = 0\<rparr>"

definition pushAck :: "THeader \<Rightarrow> ub8_ \<Rightarrow> TPDUPushMsgAck" where
  "pushAck h t = \<lparr>pma_header = ackHeader h sizeof_TPDUPushMsgAck t, pma_code = 0\<rparr>"

lemma on_heartbeat:
  assumes "k_connected c" and "k_out c = []" and "hd_type h = MT_CONTROL" and "hd_cmd h = MC_HEART_BEAT"
  shows "on_received a (THeader_bytes h @ rest) (of_nat sizeof_TPDUHeartBeat) c =
    Inr (c\<lparr>k_ticks := Suc (k_ticks c), k_wire := k_wire c @ TPDUHeartBeatAck_bytes (heartbeatAck h (k_clock c (k_ticks c)))\<rparr>)"
  using assms by (simp add: on_received_def THeader_at_bytes ack_codes timeC_def cnn_send_open bytes_nonempty Let_def heartbeatAck_def)

definition pushCallback :: "app \<Rightarrow> TPDUPushMsg \<Rightarrow> client \<Rightarrow> client result" where
  "pushCallback a m c = (case a_push a of None \<Rightarrow> Inr c
     | Some f \<Rightarrow> f (pm_ornType m) (pm_ornId m) (pm_ornExtId m) (pm_messageId m) (pm_json m) (hd_stmp (pm_header m)) c)"

lemma on_push_message:
  assumes "pushCallback a m c = Inr c0" and "k_connected c0" and "k_out c0 = []"
    and "hd_type (pm_header m) = MT_SERVICE" and "hd_cmd (pm_header m) = MC_PUSH_MSG" and "length (pm_json m) = Size_JSON"
  shows "on_received a (TPDUPushMsg_bytes m @ rest) (of_nat sizeof_TPDUPushMsg) c =
    Inr (c0\<lparr>k_ticks := Suc (k_ticks c0), k_wire := k_wire c0 @ TPDUPushMsgAck_bytes (pushAck (pm_header m) (k_clock c0 (k_ticks c0)))\<rparr>)"
proof -
  have "THeader_at (TPDUPushMsg_bytes m @ rest) = pm_header m" by (simp add: TPDUPushMsg_bytes_def THeader_at_bytes)
  then show ?thesis using assms
    by (simp add: on_received_def TPDUPushMsg_at_bytes ack_codes timeC_def cnn_send_open bytes_nonempty Let_def pushAck_def
        pushCallback_def [symmetric])
qed

section \<open>The client's answers at the server\<close>

lemma ack_wire: "wire_msg (TPDUHeartBeatAck_bytes (heartbeatAck h t))" "wire_msg (TPDUPushMsgAck_bytes (pushAck h t))"
  by (simp_all add: wire_msg_def layout)
    (simp_all add: TPDUHeartBeatAck_bytes_def TPDUPushMsgAck_bytes_def THeader_at_bytes heartbeatAck_def pushAck_def ackHeader_def layout)

lemma stamp_ack:
  "stamp p (TPDUHeartBeatAck_bytes m) = TPDUHeartBeatAck_bytes (m\<lparr>hba_header := (hba_header m)\<lparr>hd_ext := p\<rparr>\<rparr>)"
  "stamp p (TPDUPushMsgAck_bytes m1) = TPDUPushMsgAck_bytes (m1\<lparr>pma_header := (pma_header m1)\<lparr>hd_ext := p\<rparr>\<rparr>)"
  by (simp_all add: stamp_def patchHeader_def TPDUHeartBeatAck_bytes_def TPDUPushMsgAck_bytes_def THeader_at_bytes)

lemma header_of_ack:
  "THeader_at (stamp p (TPDUHeartBeatAck_bytes (heartbeatAck h t)) @ rest) = (ackHeader h sizeof_TPDUHeartBeatAck t)\<lparr>hd_ext := p\<rparr>"
  "THeader_at (stamp p (TPDUPushMsgAck_bytes (pushAck h t)) @ rest) = (ackHeader h sizeof_TPDUPushMsgAck t)\<lparr>hd_ext := p\<rparr>"
  unfolding stamp_ack by (simp_all add: TPDUHeartBeatAck_bytes_def TPDUPushMsgAck_bytes_def THeader_at_bytes heartbeatAck_def pushAck_def)

lemma server_takes_heartbeat:
  assumes "w_nodes w p = Some n" and "t_status (n_transaction n) = READY" and "hd_type h = MT_CONTROL" and "hd_cmd h = MC_HEART_BEAT"
  shows "CTransaction_onMessage e p (stamp p (TPDUHeartBeatAck_bytes (heartbeatAck h t)) @ rest) w =
    Inr (True, w\<lparr>w_nodes := (w_nodes w)(p \<mapsto> n\<lparr>n_transaction := (n_transaction n)\<lparr>t_heartbeat := True\<rparr>\<rparr>)\<rparr>)"
proof -
  have "wp (\<lambda>_. False) (CTransaction_onHeartBeat e p)
      (\<lambda>ok w'. ok \<and> w' = w\<lparr>w_nodes := (w_nodes w)(p \<mapsto> n\<lparr>n_transaction := (n_transaction n)\<lparr>t_heartbeat := True\<rparr>\<rparr>)\<rparr>) w"
    using assms by (simp add: CTransaction_onHeartBeat_def wp_simps)
  then show ?thesis using assms
    by (auto simp: CTransaction_onMessage_def header_of_ack ackHeader_def ack_codes wp_total_iff Let_def)
qed

lemma server_takes_push_ack:
  assumes "hd_type h = MT_SERVICE" and "hd_cmd h = MC_PUSH_MSG"
  shows "CTransaction_onMessage e p (stamp p (TPDUPushMsgAck_bytes (pushAck h t)) @ rest) w =
    CTransaction_onPushMsg e p (stamp p (TPDUPushMsgAck_bytes (pushAck h t)) @ rest) w"
  using assms by (simp add: CTransaction_onMessage_def header_of_ack ackHeader_def ack_codes Let_def)

section \<open>The handshake\<close>

lemma handShakeMsg_session:
  "length (hs_sessionId (handShakeMsg c lu t)) = Size_SESSION_ID" "0 \<in> set (hs_sessionId (handShakeMsg c lu t))"
  "firstByte (k_sessionId c) \<noteq> 0 \<Longrightarrow> firstByte (hs_sessionId (handShakeMsg c lu t)) \<noteq> 0"
proof -
  let ?s = "strncpy (zeros Size_SESSION_ID) (k_sessionId c) (Size_SESSION_ID - 1)"
  have l: "length ?s = 17" by (simp add: layout)
  then show "length (hs_sessionId (handShakeMsg c lu t)) = Size_SESSION_ID" "0 \<in> set (hs_sessionId (handShakeMsg c lu t))"
    by (simp_all add: handShakeMsg_def layout set_update_memI)
  assume f: "firstByte (k_sessionId c) \<noteq> 0"
  then obtain x xs where x: "k_sessionId c = x # xs" "x \<noteq> 0" by (cases "k_sessionId c") (auto simp: firstByte_def)
  then show "firstByte (hs_sessionId (handShakeMsg c lu t)) \<noteq> 0"
    by (simp add: handShakeMsg_def strncpy_def cstr_def layout firstByte_def)
qed

lemma hello_wire: "wire_msg (TPDUHandShake_bytes (handShakeMsg c lu t))"
  using handShakeMsg_session(1) [of c lu t]
  by (simp add: wire_msg_def layout) (simp add: TPDUHandShake_bytes_def THeader_at_bytes handShakeMsg_def layout)

lemma stamp_hello:
  "stamp p (TPDUHandShake_bytes m) = TPDUHandShake_bytes (m\<lparr>hs_header := (hs_header m)\<lparr>hd_ext := p\<rparr>\<rparr>)"
  by (simp add: stamp_def patchHeader_def TPDUHandShake_bytes_def THeader_at_bytes)

lemma server_reads_hello:
  fixes c :: client and lu t :: ub8_
  defines "m \<equiv> handShakeMsg c lu t"
  shows "TPDUHandShake_at (stamp p (TPDUHandShake_bytes m) @ rest) = m\<lparr>hs_header := (hs_header m)\<lparr>hd_ext := p\<rparr>\<rparr>"
    and "CTransaction_onMessage e p (stamp p (TPDUHandShake_bytes m) @ rest) = CTransaction_onStart e p (stamp p (TPDUHandShake_bytes m) @ rest)"
proof -
  show a: "TPDUHandShake_at (stamp p (TPDUHandShake_bytes m) @ rest) = m\<lparr>hs_header := (hs_header m)\<lparr>hd_ext := p\<rparr>\<rparr>"
    unfolding stamp_hello by (rule TPDUHandShake_at_bytes) (simp add: m_def handShakeMsg_session(1))
  have "THeader_at (stamp p (TPDUHandShake_bytes m) @ rest) = (hs_header m)\<lparr>hd_ext := p\<rparr>"
    unfolding stamp_hello by (simp add: TPDUHandShake_bytes_def THeader_at_bytes)
  then show "CTransaction_onMessage e p (stamp p (TPDUHandShake_bytes m) @ rest) = CTransaction_onStart e p (stamp p (TPDUHandShake_bytes m) @ rest)"
    by (simp add: CTransaction_onMessage_def m_def handShakeMsg_def)
qed

lemma on_connected_open:
  assumes "k_connected c" and "k_out c = []" and "a_connected a = None"
  shows "on_connected a c = Inr (c\<lparr>k_ticks := Suc (k_ticks c),
    k_wire := k_wire c @ TPDUHandShake_bytes (handShakeMsg c 0 (k_clock c (k_ticks c)))\<rparr>)"
proof -
  have "TPDUHandShake_bytes (handShakeMsg c lu t) \<noteq> []" for c lu t using hello_wire [of c lu t] by (auto simp: wire_msg_def layout)
  moreover have "handShakeMsg (c\<lparr>k_ticks := k\<rparr>) lu t = handShakeMsg c lu t" for k lu t by (simp add: handShakeMsg_def)
  ultimately show ?thesis using assms by (simp add: on_connected_def timeC_def cnn_send_open)
qed

lemma client_takes_accept:
  assumes "hd_type h = MT_ACCOUNT" and "hd_cmd h = MC_HAND_SHAKE"
  shows "on_received a (TPDUHandShakeAck_bytes (handShakeAck h code) @ rest) (of_nat sizeof_TPDUHandShakeAck) c =
    (if code \<noteq> 0 then Inr c else case a_ready a of None \<Rightarrow> Inr c | Some f \<Rightarrow> f c)"
proof -
  have "THeader_at (TPDUHandShakeAck_bytes (handShakeAck h code) @ rest) = hsa_header (handShakeAck h code)"
    by (simp add: TPDUHandShakeAck_bytes_def THeader_at_bytes)
  then show ?thesis using assms
    by (simp add: on_received_def TPDUHandShakeAck_at_bytes handShakeAck_def Let_def)
qed

section \<open>Properties\<close>

text \<open>C4: A session is opened.  A client whose socket has connected sends its handshake; the server, for which the connection is
  waiting, knows the session in Redis and has it on no other connection.  Then the message is well formed, the server accepts it and
  registers the session, and its answer makes the client call \<open>on_ready\<close>.\<close>

theorem session_opens:
  assumes c: "k_connected c" "k_out c = []" "a_connected a = None" "firstByte (k_sessionId c) \<noteq> 0"
    and w: "waiting_client w p n g" "freeDeque (timerRes (w_timers w)) \<noteq> []" "BASE_BUILD (e_cfg e) \<le> k_build c"
    and r: "fst (h_command (e_api e) g (session_query (hs_sessionId (handShakeMsg c 0 0))) (w_redis w)) = Some (R_String s)" "atoll s \<noteq> 0"
    and free: "findKey w (cstr (hs_sessionId (handShakeMsg c 0 0))) = None"
  shows "\<exists>c1 hello w1 ack n1. on_connected a c = Inr c1 \<and> k_wire c1 = k_wire c @ hello \<and> wire_msg hello \<and>
     CTransaction_onMessage e p (stamp p hello @ rest) w = Inr (True, w1) \<and>
     w_nodes w1 p = Some n1 \<and> t_status (n_transaction n1) = READY \<and> w_registry w1 = p # w_registry w \<and>
     w_wire w1 (n_fd n) = w_wire w (n_fd n) @ ack \<and> wire_msg ack \<and>
     on_received a (ack @ rest1) (of_nat (length ack)) c1 = (case a_ready a of None \<Rightarrow> Inr c1 | Some f \<Rightarrow> f c1)"
proof -
  let ?t = "k_clock c (k_ticks c)"
  let ?m = "handShakeMsg c 0 ?t" and ?c = "c\<lparr>k_ticks := Suc (k_ticks c), k_wire := k_wire c @ TPDUHandShake_bytes (handShakeMsg c 0 (k_clock c (k_ticks c)))\<rparr>"
  let ?b = "stamp p (TPDUHandShake_bytes ?m) @ rest" and ?h = "(hs_header ?m)\<lparr>hd_ext := p\<rparr>"
  have sid: "hs_sessionId ?m = hs_sessionId (handShakeMsg c 0 0)" by (simp add: handShakeMsg_def)
  have m: "TPDUHandShake_at ?b = ?m\<lparr>hs_header := ?h\<rparr>" by (rule server_reads_hello)
  have "valid_hello e g (TPDUHandShake_at ?b) w (R_String s)"
    using w(3) r(1) handShakeMsg_session [of c 0 0] c(4) by (simp add: valid_hello_def m sid) (simp add: handShakeMsg_def)
  then obtain ok w1 where w1: "CTransaction_onStart e p ?b w = Inr (ok, w1)" "ok \<and> accepted p n (TPDUHandShake_at ?b) (session_user (R_String s)) w w1"
    using handshake_outcome [OF w(1) _ w(2), of e ?b "R_String s"] r(2) free by (auto simp: session_user_def m sid)
  then have st: "CTransaction_onMessage e p ?b w = Inr (True, w1)" using server_reads_hello(2) [of e p c 0 ?t rest] by simp
  have acc: "accepted p n (TPDUHandShake_at ?b) (session_user (R_String s)) w w1" using w1(2) ..
  then obtain t where wi: "w_wire w1 (n_fd n) = w_wire w (n_fd n) @ TPDUHandShakeAck_bytes (handShakeAck (?h\<lparr>hd_stmp := t, hd_ext := 0\<rparr>) 0)"
    by (auto simp: accepted_def acked_def m)
  obtain n1 where n1: "w_nodes w1 p = Some n1" "t_status (n_transaction n1) = READY" "w_registry w1 = p # w_registry w"
    using acc by (auto simp: accepted_def)
  let ?a = "TPDUHandShakeAck_bytes (handShakeAck (?h\<lparr>hd_stmp := t, hd_ext := 0\<rparr>) 0)"
  have la: "wire_msg ?a" "length ?a = sizeof_TPDUHandShakeAck" using ack_sized [of "?h\<lparr>hd_stmp := t, hd_ext := 0\<rparr>" 0] by (simp_all add: wire_msg_def layout)
  have "on_received a (?a @ rest1) (of_nat (length ?a)) ?c = (case a_ready a of None \<Rightarrow> Inr ?c | Some f \<Rightarrow> f ?c)"
    unfolding la(2) by (subst client_takes_accept) (simp_all add: handShakeMsg_def)
  then show ?thesis using on_connected_open [OF c(1-3)] hello_wire st n1 wi la(1)
    by (intro exI [of _ ?c] exI [of _ "TPDUHandShake_bytes ?m"] exI [of _ w1] exI [of _ ?a] exI [of _ n1]) simp
qed

text \<open>A client with a session, connected.\<close>

definition ex_client :: client where
  "ex_client =
     \<lparr>k_ip = str ''127.0.0.1'' @ zeros 7, k_port = 10505, k_interval = 10, k_running = True, k_connected = True, k_needsReconnect = False, k_msgBuf = zeros MSG_MAX_LENGTH, k_offset = 0,
      k_pendingSize = 0, k_connectionNum = 1, k_started = True, k_build = 7, k_sessionId = str ''abc'' @ zeros 14, k_groupId = 0,
      k_totalSendNum = 0, k_totalPushNum = 0, k_in = [], k_out = [], k_wire = [],
      k_sockets = [], k_clock = of_nat, k_ticks = 5\<rparr>"

abbreviation ex_app :: app where
  "ex_app \<equiv> noCallbacks"

theorem session_opens_witness:
  "\<exists>w n c1 w1. waiting_client w 1 n 0 \<and> on_connected ex_app ex_client = Inr c1 \<and>
     CTransaction_onMessage ex_env 1 (stamp 1 (k_wire c1)) w = Inr (True, w1) \<and> w_registry w1 = 1 # w_registry w"
proof (rule ex_run_waits [of "cstr (hs_sessionId (handShakeMsg ex_client 0 0))"])
  fix w0 w :: "nat world" and n
  assume w: "waiting_client w 1 n 0" "freeDeque (timerRes (w_timers w)) \<noteq> []" "findKey w (cstr (hs_sessionId (handShakeMsg ex_client 0 0))) = None"
  have "atoll (str ''42'') \<noteq> 0" using ex_user by (simp add: session_user_def)
  then show ?thesis
    using session_opens [where c = ex_client and a = ex_app and w = w and p = 1 and n = n and g = 0 and e = ex_env and s = "str ''42''" and rest = "[]"] w
    by (fastforce simp: ex_client_def noCallbacks_def ex_env_def ex_config_def ex_redis_def session_query_def firstByte_def str_def)
qed

text \<open>C23: A heartbeat is answered.  The heartbeat that the keep-alive timer of a ready session sends makes an open client answer with an
  acknowledgement, and the server takes it as the sign of life that the next expiry of the timer asks for.\<close>

theorem heartbeat_exchange:
  assumes "k_connected c" and "k_out c = []" and "w_nodes w p = Some n" and "t_status (n_transaction n) = READY"
  shows "\<exists>c1 ack. on_received a (TPDUHeartBeat_bytes ((heartBeatMsg e)\<lparr>hb_header := (hb_header (heartBeatMsg e))\<lparr>hd_stmp := t, hd_ext := 0\<rparr>\<rparr>) @ rest)
       (of_nat sizeof_TPDUHeartBeat) c = Inr c1 \<and> k_wire c1 = k_wire c @ ack \<and> wire_msg ack \<and>
     CTransaction_onMessage e p (stamp p ack @ rest1) w =
       Inr (True, w\<lparr>w_nodes := (w_nodes w)(p \<mapsto> n\<lparr>n_transaction := (n_transaction n)\<lparr>t_heartbeat := True\<rparr>\<rparr>)\<rparr>)"
proof -
  let ?h = "(hb_header (heartBeatMsg e))\<lparr>hd_stmp := t, hd_ext := 0\<rparr>"
  have h: "hd_type ?h = MT_CONTROL" "hd_cmd ?h = MC_HEART_BEAT" by (simp_all add: heartBeatMsg_def)
  let ?ack = "TPDUHeartBeatAck_bytes (heartbeatAck ?h (k_clock c (k_ticks c)))"
  show ?thesis
    unfolding TPDUHeartBeat_bytes_def
    using on_heartbeat [OF assms(1,2) h, of a rest] server_takes_heartbeat [OF assms(3,4) h] ack_wire(1)
    by (intro exI [of _ "c\<lparr>k_ticks := Suc (k_ticks c), k_wire := k_wire c @ ?ack\<rparr>"] exI [of _ ?ack]) simp
qed

theorem heartbeat_exchange_witness:
  "\<exists>c1 ack w1. on_received ex_app (TPDUHeartBeat_bytes ((heartBeatMsg ex_env)\<lparr>hb_header := (hb_header (heartBeatMsg ex_env))\<lparr>hd_stmp := 9, hd_ext := 0\<rparr>\<rparr>) @ [])
       (of_nat sizeof_TPDUHeartBeat) ex_client = Inr c1 \<and> k_wire c1 = ack \<and> CTransaction_onMessage ex_env 1 (stamp 1 ack @ []) ex_ready = Inr (True, w1)"
  using heartbeat_exchange [where c = ex_client and w = ex_ready and p = 1 and n = ex_session and a = ex_app and e = ex_env and t = 9 and rest = "[]" and ?rest1.0 = "[]"]
  by (fastforce simp: ex_client_def ex_ready_def ex_session_def)

text \<open>C18: A stored message is delivered.  For a ready session with an open socket and a free timer the message is pushed; an open
  client hands its content to \<open>on_push\<close> and acknowledges it; the server then kills the timer that was waiting for the
  acknowledgement.\<close>

theorem push_exchange:
  assumes w: "sv_inv w" "w_nodes w p = Some n" "t_status (n_transaction n) = READY" "w_out w (n_fd n) = []"
      "freeDeque (timerRes (w_timers w)) \<noteq> []" "unat len \<le> Length_JSON"
    and c: "\<And>m. pushCallback a m c = Inr (f m)" "\<And>m. k_connected (f m)" "\<And>m. k_out (f m) = []"
  shows "\<exists>msg w1 w2 c2 ack.
     CTransaction_handlePushMessage e p ornType ornId ornExtId messageId json len stmp w = Inr (True, w1) \<and>
     w_wire w1 (n_fd n) = w_wire w (n_fd n) @ TPDUPushMsg_bytes msg \<and>
     pm_ornType msg = ornType \<and> pm_ornId msg = ornId \<and> pm_ornExtId msg = ornExtId \<and>
     pm_messageId msg = messageId \<and> pm_json msg = strncpy (zeros Size_JSON) json Length_JSON \<and>
     on_received a (TPDUPushMsg_bytes msg @ rest) (of_nat sizeof_TPDUPushMsg) c = Inr c2 \<and>
     k_wire c2 = k_wire (f msg) @ ack \<and> wire_msg ack \<and>
     CTransaction_onMessage e p (stamp p ack @ rest1) w1 = Inr (True, w2) \<and> pending (w_timers w2) = pending (w_timers w)"
proof -
  let ?seq = "nextSeq (t_seqCounter (n_transaction n))"
  obtain msg u w1 where p1: "CTransaction_handlePushMessage e p ornType ornId ornExtId messageId json len stmp w = Inr (True, w1)"
      "pushed p n msg stmp u w w1" "tm_ok (w_timers w1)" "u \<in> issued (w_timers w1)"
      and msg: "pm_ornType msg = ornType" "pm_ornId msg = ornId" "pm_ornExtId msg = ornExtId"
        "pm_messageId msg = messageId" "pm_json msg = strncpy (zeros Size_JSON) json Length_JSON"
    using push_message [OF w(1,2,4,5,6), of e ornType ornId ornExtId messageId json stmp] by blast
  have h: "hd_type (pm_header msg) = MT_SERVICE" "hd_cmd (pm_header msg) = MC_PUSH_MSG" "hd_seq (pm_header msg) = ?seq"
    "length (pm_json msg) = Size_JSON" "w_wire w1 (n_fd n) = w_wire w (n_fd n) @ TPDUPushMsg_bytes msg"
    and pn: "pending (w_timers w1) = insert u (pending (w_timers w))" "u \<notin> pending (w_timers w)"
    using p1(2) msg by (simp_all add: pushed_def Let_def layout)
  obtain n1 where n1: "w_nodes w1 p = Some n1" "t_status (n_transaction n1) = READY" "map_of (t_mapSeq2Timer (n_transaction n1)) ?seq = Some u"
    using p1(2) w(3) by (auto simp: pushed_def Let_def mapPut_found)
  let ?c = "f msg" and ?t = "k_clock (f msg) (k_ticks (f msg))"
  let ?ack = "TPDUPushMsgAck_bytes (pushAck (pm_header msg) ?t)"
  have "hd_seq (THeader_at (stamp p ?ack @ rest1)) = ?seq" unfolding header_of_ack by (simp add: ackHeader_def h)
  then obtain m where m: "CTransaction_onPushMsg e p (stamp p ?ack @ rest1) w1 = Inr (True, w1\<lparr>w_timers := m,
      w_nodes := (w_nodes w1)(p \<mapsto> n1\<lparr>n_transaction := (n_transaction n1)\<lparr>t_mapSeq2Timer := mapDel ?seq (t_mapSeq2Timer (n_transaction n1))\<rparr>\<rparr>)\<rparr>)"
      "pending m = pending (w_timers w1) - {u}"
    using push_ack [OF n1(1,2) p1(3,4) _ nextSeq_nonzero n1(3), of "stamp p ?ack @ rest1" e] by auto
  have s: "CTransaction_onMessage e p (stamp p ?ack @ rest1) w1 = CTransaction_onPushMsg e p (stamp p ?ack @ rest1) w1"
    by (rule server_takes_push_ack [OF h(1,2)])
  note cl = on_push_message [OF c(1-3) [of msg] h(1,2,4), of rest]
  have pm: "pending m = pending (w_timers w)" using m(2) pn by simp
  show ?thesis
    by (intro exI [of _ msg] exI [of _ w1] exI conjI, rule p1, rule h, (rule msg)+, rule cl, simp, rule ack_wire, simp only: s, rule m)
      (simp add: pm)
qed

theorem push_exchange_witness:
  "\<exists>msg w1 w2 c2 ack.
     CTransaction_handlePushMessage ex_env 1 1 5 6 7 (str ''hi'') 2 900 ex_ready = Inr (True, w1) \<and>
     on_received ex_app (TPDUPushMsg_bytes msg @ []) (of_nat sizeof_TPDUPushMsg) ex_client = Inr c2 \<and> k_wire c2 = ack \<and>
     CTransaction_onMessage ex_env 1 (stamp 1 ack @ []) w1 = Inr (True, w2) \<and> pending (w_timers w2) = pending (w_timers ex_ready)"
proof -
  have n: "w_nodes ex_ready 1 = Some ex_session" "t_status (n_transaction ex_session) = READY" "w_out ex_ready (n_fd ex_session) = []"
    "freeDeque (timerRes (w_timers ex_ready)) \<noteq> []"
    by (simp_all add: ex_ready_def ex_session_def ex_world_def ex_outside_def ex_timers_def)
  have c: "pushCallback ex_app m ex_client = Inr ex_client" "k_connected ex_client" "k_out ex_client = []" "k_wire ex_client = []" for m
    by (simp_all add: pushCallback_def noCallbacks_def ex_client_def)
  have "unat (2 :: ub2_) \<le> Length_JSON" by (simp add: layout)
  from push_exchange [where f = "\<lambda>_. ex_client", OF ex_ready_inv n this c(1-3), of ex_env 1 5 6 7 "str ''hi''" 900 "[]" "[]"] c(4)
  show ?thesis by fastforce
qed

text \<open>When \<open>connect\<close> succeeds at once the client sends no handshake: \<open>on_connected\<close> is called before the connection is
  marked as connected, and \<open>cnn_send\<close> refuses to send.\<close>

theorem handshake_not_sent:
  assumes "\<not> k_connected c" and "a_connected a = None"
  shows "\<exists>c1. on_connected a c = Inr c1 \<and> k_wire c1 = k_wire c \<and>
    connectTurn a ConnectDone rs c = selectLoop a rs (c1\<lparr>k_connected := True, k_needsReconnect := False\<rparr>)"
proof -
  have "TPDUHandShake_bytes (handShakeMsg c1 lu t) \<noteq> []" for c1 lu t using hello_wire [of c1 lu t] by (auto simp: wire_msg_def layout)
  then have "on_connected a c = Inr (c\<lparr>k_ticks := Suc (k_ticks c)\<rparr>)"
    using assms by (simp add: on_connected_def timeC_def cnn_send_def assertR_def)
  then show ?thesis by (simp add: connectTurn_def)
qed

theorem handshake_not_sent_witness:
  "\<exists>c1. on_connected ex_app (ex_client\<lparr>k_connected := False\<rparr>) = Inr c1 \<and> k_wire c1 = []"
  using handshake_not_sent [of "ex_client\<lparr>k_connected := False\<rparr>" ex_app "[]"] by (auto simp: ex_client_def noCallbacks_def)

text \<open>A message that was cut off by the end of a connection is not forgotten: when the socket is lost and replaced, the
  bytes received so far, and the size announced for them, still count, so that the next connection's bytes are taken for the rest
  of the old message.\<close>

theorem reconnect_keeps_partial:
  assumes "k_pendingSize c \<noteq> 0" and "k_pendingSize c \<noteq> k_offset c" and "k_in c = [Arrived []]" and "k_sockets c = (i, out) # rest" and "a_closed a = None"
  shows "\<exists>c1. cnnRecv (Suc (arrivedBytes (k_in c))) a c = Inr c1 \<and> k_in c1 = i \<and> k_needsReconnect c1 \<and>
     k_offset c1 = k_offset c \<and> k_pendingSize c1 = k_pendingSize c \<and> k_msgBuf c1 = k_msgBuf c"
  using assms by (simp add: cnnRead_def lostSocket_def on_closed_def reopen_def Let_def)

theorem reconnect_keeps_partial_witness:
  "\<exists>c1. cnnRecv 1 ex_app (ex_client\<lparr>k_offset := 5, k_pendingSize := 29, k_in := [Arrived []], k_sockets := [([], [])]\<rparr>) = Inr c1 \<and>
     k_offset c1 = 5 \<and> k_pendingSize c1 = 29"
  using reconnect_keeps_partial [of "ex_client\<lparr>k_offset := 5, k_pendingSize := 29, k_in := [Arrived []], k_sockets := [([], [])]\<rparr>" "[]" "[]" "[]" ex_app]
  by (auto simp: noCallbacks_def ex_client_def)

end
