(* ===== verification/Client_Stream.thy ===== *)
theory Client_Stream
  imports Client
begin

text \<open>
  The reassembly of messages in the client, the inner loop of \<open>_working\<close> in connection.c: the
  stream of a connection is cut into the messages that its headers announce, and each is handed to
  \<open>on_received\<close>, in order and once, whatever pieces the stream arrives in.
\<close>

section \<open>Callbacks\<close>

text \<open>The fields that the loop works on: the input, the buffer, and the two counters.\<close>

definition recvState :: "recvEvent list \<Rightarrow> ub1_ list \<Rightarrow> ub4_ \<Rightarrow> ub4_ \<Rightarrow> client \<Rightarrow> client" where
  "recvState i b o1 p c = c\<lparr>k_in := i, k_msgBuf := b, k_offset := o1, k_pendingSize := p\<rparr>"

text \<open>
  A callback that neither looks at these fields nor changes them.  They are members of the
  library's \<open>struct connection_info\<close>, which the application does not see.
\<close>

definition blind :: "(client \<Rightarrow> client result) \<Rightarrow> bool" where
  "blind f \<longleftrightarrow> (\<forall>c i b o1 p. f (recvState i b o1 p c) = bindR (f c) (\<lambda>c1. Inr (recvState i b o1 p c1)))"

definition blind_app :: "app \<Rightarrow> bool" where
  "blind_app a \<longleftrightarrow>
     (\<forall>f. a_ready a = Some f \<longrightarrow> blind f) \<and>
     (\<forall>f x1 x2 x3 x4 x5 x6. a_push a = Some f \<longrightarrow> blind (f x1 x2 x3 x4 x5 x6)) \<and>
     (\<forall>f x1 x2 x3. a_sendAck a = Some f \<longrightarrow> blind (f x1 x2 x3))"

lemma blind_return: "blind Inr"
  by (simp add: blind_def)

lemma recvState_simps [simp]:
  "k_connected (recvState i b o1 p c) = k_connected c" "k_out (recvState i b o1 p c) = k_out c" "k_wire (recvState i b o1 p c) = k_wire c"
  "k_clock (recvState i b o1 p c) = k_clock c" "k_ticks (recvState i b o1 p c) = k_ticks c"
  "k_in (recvState i b o1 p c) = i" "k_msgBuf (recvState i b o1 p c) = b" "k_offset (recvState i b o1 p c) = o1"
  "k_pendingSize (recvState i b o1 p c) = p" "recvState i b o1 p (recvState i' b' o2 p' c) = recvState i b o1 p c"
  by (simp_all add: recvState_def)

lemma recvState_same: "recvState (k_in c) (k_msgBuf c) (k_offset c) (k_pendingSize c) c = c"
  by (simp add: recvState_def)

lemma blind_send: "blind (\<lambda>c. let (t, c1) = timeC c in bindR (cnn_send c1 (h t)) (\<lambda>(_, c2). Inr c2))"
  by (simp add: blind_def timeC_def cnn_send_def assertR_def recvState_def Let_def split: prod.splits)

lemma blind_bind: "blind f \<Longrightarrow> blind h \<Longrightarrow> blind (\<lambda>c. bindR (f c) h)"
  by (auto simp: blind_def bindR_def split: sum.splits)

lemma blind_if: "blind f \<Longrightarrow> blind h \<Longrightarrow> blind (\<lambda>c. if b then f c else h c)"
  by (cases b) simp_all

lemma blind_option: "(\<And>f. x = Some f \<Longrightarrow> blind (h f)) \<Longrightarrow> blind (\<lambda>c. case x of None \<Rightarrow> Inr c | Some f \<Rightarrow> h f c)"
  by (cases x) (simp_all add: blind_return)

lemma blind_received: "blind_app a \<Longrightarrow> blind (on_received a data sz)"
  unfolding on_received_def Let_def
  by (intro blind_if blind_option blind_bind blind_return blind_send [unfolded Let_def]) (auto simp: blind_app_def)

text \<open>\<open>on_received\<close> reads only the message at the start of the buffer.\<close>

lemma segment_prefix: "j \<le> length m \<Longrightarrow> segment i j (m @ rest) = segment i j m"
  by (simp add: segment_def)

lemma received_prefix:
  assumes "sizeof_THeader \<le> length m" and "sz = of_nat (length m)" and "length m \<le> MSG_MAX_LENGTH"
  shows "on_received a (m @ rest) sz = on_received a m sz"
proof -
  have h: "THeader_at (m @ rest) = THeader_at m" using assms(1) by (rule THeader_at_append)
  have sz: "sz = of_nat k \<longleftrightarrow> length m = k" if "k \<le> MSG_MAX_LENGTH" for k
    using assms(2,3) that unat_of_nat_lt [where 'a = 32, of k] unat_of_nat_lt [where 'a = 32, of "length m"]
    by (auto simp: layout word_eq_unat)
  have "TPDUHandShakeAck_at (m @ rest) = TPDUHandShakeAck_at m" if "sz = of_nat sizeof_TPDUHandShakeAck"
    using that sz [of sizeof_TPDUHandShakeAck] h by (simp add: TPDUHandShakeAck_at_def layout segment_prefix)
  moreover have "TPDUPushMsg_at (m @ rest) = TPDUPushMsg_at m" if "sz = of_nat sizeof_TPDUPushMsg"
    using that sz [of sizeof_TPDUPushMsg] h by (simp add: TPDUPushMsg_at_def layout segment_prefix)
  moreover have "TPDUSendMsgAck_at (m @ rest) = TPDUSendMsgAck_at m" if "sz = of_nat sizeof_TPDUSendMsgAck"
    using that sz [of sizeof_TPDUSendMsgAck] h by (simp add: TPDUSendMsgAck_at_def layout segment_prefix)
  ultimately show ?thesis unfolding on_received_def h Let_def
    by (intro ext if_cong refl) (simp_all only: simp_thms)
qed

section \<open>Reassembly\<close>

text \<open>The messages handed to \<open>on_received\<close>, one after the other.\<close>

fun deliver :: "app \<Rightarrow> ub1_ list list \<Rightarrow> client \<Rightarrow> client result" where
  "deliver a [] c = Inr c"
| "deliver a (m # ms) c = bindR (on_received a m (of_nat (length m)) c) (deliver a ms)"

text \<open>The receive fields hold the start \<open>s\<close> of a message.\<close>

definition start_ok :: "ub1_ list \<Rightarrow> ub4_ \<Rightarrow> ub4_ \<Rightarrow> ub1_ list \<Rightarrow> bool" where
  "start_ok b o1 p s \<longleftrightarrow>
     partial s \<and> length b = MSG_MAX_LENGTH \<and> unat o1 = length s \<and> take (length s) b = s \<and>
     (if length s < sizeof_THeader then p \<in> {0, of_nat sizeof_THeader} else p = ucast (hd_size (THeader_at s)))"

text \<open>The size that the next \<open>recv\<close> completes to.\<close>

definition goal :: "ub1_ list \<Rightarrow> ub4_" where
  "goal s = (if length s < sizeof_THeader then of_nat sizeof_THeader else ucast (hd_size (THeader_at s)))"

lemma goal_wanted:
  assumes "partial s" and "unat off = length s"
  shows "unat (goal s) = length s + wanted s" and "unat (goal s - off) = wanted s" and "goal s \<noteq> 0"
proof -
  obtain r where r: "r \<noteq> []" "wire_msg (s @ r)" using assms(1) by (auto simp: partial_def)
  have w: "0 < wanted s" by (rule wanted_pos [OF assms(1)])
  show g: "unat (goal s) = length s + wanted s"
  proof (cases "length s < sizeof_THeader")
    case False
    then show ?thesis using wire_msg_size [OF r(2), of s r] wanted_rest [OF r(2)] by (simp add: goal_def unat_ucast_ub2)
  qed (simp add: goal_def wanted_def layout)
  show "unat (goal s - off) = wanted s" using g assms(2) by (simp add: unat_minus_le)
  show "goal s \<noteq> 0" using g w by auto
qed

lemma start_ready:
  assumes "start_ok b o1 p s"
  shows "(if k_pendingSize (recvState i b o1 p c) = 0 then (recvState i b o1 p c)\<lparr>k_pendingSize := of_nat sizeof_THeader\<rparr>
      else recvState i b o1 p c) = recvState i b o1 (goal s) c" and "start_ok b o1 (goal s) s"
proof -
  have "p = 0 \<or> p = goal s" "p = 0 \<Longrightarrow> length s < sizeof_THeader"
    using assms goal_wanted(3) [of s o1] by (auto simp: start_ok_def goal_def split: if_splits)
  then show "(if k_pendingSize (recvState i b o1 p c) = 0 then (recvState i b o1 p c)\<lparr>k_pendingSize := of_nat sizeof_THeader\<rparr>
      else recvState i b o1 p c) = recvState i b o1 (goal s) c" by (auto simp: goal_def recvState_def)
  show "start_ok b o1 (goal s) s" using assms by (simp add: start_ok_def goal_def)
qed

lemma bytes_stored:
  assumes s: "start_ok b o1 p s" and bs: "length bs \<le> wanted s" and m: "wire_msg (s @ bs @ r)"
  defines "b' \<equiv> overwrite b (length s) bs"
  shows "memcpy b (unat o1) bs 0 (length bs) = Inr b'" and "length b' = MSG_MAX_LENGTH"
    and "take (length (s @ bs)) b' = s @ bs" and "unat (o1 + of_nat (length bs)) = length (s @ bs)"
    and "sizeof_THeader \<le> length (s @ bs) \<Longrightarrow> THeader_at b' = THeader_at (s @ bs)"
    and "o1 + of_nat (length bs) = of_nat sizeof_THeader \<longleftrightarrow> length (s @ bs) = sizeof_THeader"
    and "goal s = o1 + of_nat (length bs) \<longleftrightarrow> length bs = wanted s"
proof -
  have c: "length b = MSG_MAX_LENGTH" "unat o1 = length s" "take (length s) b = s" "partial s"
    using s by (simp_all add: start_ok_def)
  have fit: "length s + length bs \<le> MSG_MAX_LENGTH" using m by (simp add: wire_msg_def)
  show "memcpy b (unat o1) bs 0 (length bs) = Inr b'"
    using c fit by (simp add: memcpy_overwrite segment_def b'_def)
  show l: "length b' = MSG_MAX_LENGTH" using c fit by (simp add: b'_def)
  show t: "take (length (s @ bs)) b' = s @ bs" using c fit by (simp add: b'_def overwrite_def)
  show o: "unat (o1 + of_nat (length bs)) = length (s @ bs)"
    using c fit by (subst unat_plus_lt) (simp_all add: unat_of_nat_lt layout)
  show "THeader_at b' = THeader_at (s @ bs)" if "sizeof_THeader \<le> length (s @ bs)"
    using THeader_at_take [of "length (s @ bs)" b'] t l that by (simp add: layout)
  show "o1 + of_nat (length bs) = of_nat sizeof_THeader \<longleftrightarrow> length (s @ bs) = sizeof_THeader"
    using o by (simp add: word_eq_unat layout)
  show "goal s = o1 + of_nat (length bs) \<longleftrightarrow> length bs = wanted s"
    using o goal_wanted(1) [OF c(4,2)] by (auto simp: word_eq_unat)
qed

text \<open>One \<open>recv\<close> that does not complete the message, and one that does.\<close>

lemma bytes_piece:
  assumes s: "start_ok b o1 (goal s) s" and bs: "length bs \<le> wanted s" and m: "wire_msg (s @ bs @ r)" "r \<noteq> []"
  shows "\<exists>b' o' p'. start_ok b' o' p' (s @ bs) \<and> (\<forall>i c. cnnBytes a bs (recvState i b o1 (goal s) c) = Inr (recvState i b' o' p' c))"
proof -
  note st = bytes_stored [OF s bs m(1)]
  let ?b = "overwrite b (length s) bs" and ?o = "o1 + of_nat (length bs)"
  have ps: "partial (s @ bs)" using m by (auto simp: partial_def intro: exI [of _ r])
  have sz: "unat (hd_size (THeader_at (s @ bs))) = length (s @ bs) + length r" if "sizeof_THeader \<le> length (s @ bs)"
    using wire_msg_size [OF m(1) that, of r] by simp
  show ?thesis
  proof (cases "length (s @ bs) = sizeof_THeader")
    case True
    let ?p = "ucast (hd_size (THeader_at ?b)) :: ub4_"
    have h: "THeader_at ?b = THeader_at (s @ bs)" using st(5) True by simp
    have "hd_size (THeader_at ?b) \<noteq> of_nat sizeof_THeader"
      using sz True m(2) h by (auto simp: word_eq_unat layout)
    then have "cnnBytes a bs (recvState i b o1 (goal s) c) = Inr (recvState i ?b ?o ?p c)" for i c
      using st(1,6) True by (simp add: cnnBytes_def Let_def) (simp add: recvState_def)
    moreover have "start_ok ?b ?o ?p (s @ bs)" using ps st(2,3,4) True h by (simp add: start_ok_def)
    ultimately show ?thesis by blast
  next
    case False
    have "length bs \<noteq> wanted s" using False wanted_rest [of s "bs @ r"] m by (auto split: if_splits)
    then have "cnnBytes a bs (recvState i b o1 (goal s) c) = Inr (recvState i ?b ?o (goal s) c)" for i c
      using st(1,6,7) False by (simp add: cnnBytes_def Let_def) (simp add: recvState_def)
    moreover have "goal s = goal (s @ bs)"
      using False bs THeader_at_append [of s bs] by (auto simp: goal_def wanted_def split: if_splits)
    then have "start_ok ?b ?o (goal s) (s @ bs)" using ps st(2,3,4) by (simp add: start_ok_def goal_def)
    ultimately show ?thesis by blast
  qed
qed

lemma bytes_whole:
  assumes a: "blind_app a" and s: "start_ok b o1 (goal s) s" and bs: "length bs \<le> wanted s" and m: "wire_msg (s @ bs)"
  shows "\<exists>b'. start_ok b' 0 0 [] \<and> (\<forall>i c. cnnBytes a bs (recvState i b o1 (goal s) c) =
     bindR (on_received a (s @ bs) (of_nat (length (s @ bs))) c) (\<lambda>c1. Inr (recvState i b' 0 0 c1)))"
proof -
  have m': "wire_msg (s @ bs @ [])" using m by simp
  note st = bytes_stored [OF s bs m']
  let ?b = "overwrite b (length s) bs" and ?o = "o1 + of_nat (length bs)" and ?m = "s @ bs"
  have lm: "sizeof_THeader \<le> length ?m" "length ?m \<le> MSG_MAX_LENGTH" "unat (hd_size (THeader_at ?m)) = length ?m"
    using m by (simp_all add: wire_msg_def)
  have "unat (of_nat (length ?m) :: ub4_) = length ?m" by (rule unat_of_nat_lt) (use lm(2) in \<open>simp add: layout\<close>)
  then have o: "?o = of_nat (length ?m)" by (simp only: word_eq_unat st(4))
  have b: "?b = ?m @ drop (length ?m) ?b" using st(3) append_take_drop_id [of "length ?m" ?b] by simp
  have rc: "on_received a ?b ?o = on_received a ?m (of_nat (length ?m))"
    unfolding o by (subst b) (rule received_prefix [OF lm(1) refl lm(2)])
  have og: "goal s = ?o" if "length ?m \<noteq> sizeof_THeader"
    using that wanted_rest [OF m] bs lm(1) st(7) by (auto split: if_splits)
  have sz: "hd_size (THeader_at ?b) = of_nat sizeof_THeader \<longleftrightarrow> length ?m = sizeof_THeader"
    using st(5) [OF lm(1)] lm(3) by (simp add: word_eq_unat layout)
  have "cnnBytes a bs (recvState i b o1 (goal s) c) =
     bindR (on_received a ?m (of_nat (length ?m)) c) (\<lambda>c1. Inr (recvState i ?b 0 0 c1))" for i c
  proof -
    have eq: "(recvState i b o1 (goal s) c)\<lparr>k_msgBuf := ?b, k_offset := ?o\<rparr> = recvState i ?b ?o (goal s) c" by (simp add: recvState_def)
    have "cnnBytes a bs (recvState i b o1 (goal s) c) =
        bindR (on_received a ?b ?o (recvState i ?b ?o (goal s) c)) (\<lambda>c2. Inr (c2\<lparr>k_offset := 0, k_pendingSize := 0\<rparr>))"
      unfolding cnnBytes_def recvState_simps st(1) bindR_Inr Let_def eq using og st(6) sz by (cases "length ?m = sizeof_THeader") simp_all
    moreover have "blind (on_received a ?m (of_nat (length ?m)))" using a by (rule blind_received)
    ultimately show ?thesis by (simp add: rc blind_def bindR_assoc) (simp add: recvState_def)
  qed
  moreover have "start_ok ?b 0 0 []" using st(2) partial_empty by (simp add: start_ok_def layout)
  ultimately show ?thesis by blast
qed

lemma deliver_blind: "blind_app a \<Longrightarrow> blind (deliver a ms)"
proof (induction ms)
  case (Cons m ms)
  then show ?case using blind_bind [OF blind_received Cons.IH] by simp
qed (simp add: blind_def)

text \<open>The whole loop: it delivers the messages and ends with the start of the next one in the buffer.\<close>

lemma cnnRecv_delivers:
  assumes a: "blind_app a" and "start_ok b o1 p s" and "[] \<notin> set cs" and "length (concat cs) < k"
    and "s @ concat cs = concat ms @ t" and "\<forall>m \<in> set ms. wire_msg m" and t: "partial t"
  shows "\<exists>b' o' p'. start_ok b' o' p' t \<and>
     (\<forall>c. cnnRecv k a (recvState (map Arrived cs) b o1 p c) = bindR (deliver a ms c) (\<lambda>c1. Inr (recvState [] b' o' p' c1)))"
  using assms(2-6)
proof (induction k arbitrary: b o1 p s cs ms)
  case (Suc k)
  have ps: "partial s" and off: "unat o1 = length s" using Suc.prems(1) by (simp_all add: start_ok_def)
  have h0: "start_ok b o1 (goal s) s" using start_ready(2) [OF Suc.prems(1)] .
  have w: "0 < wanted s" by (rule wanted_pos [OF ps])
  have cnt: "unat (goal s - o1) = wanted s" by (rule goal_wanted(2) [OF ps off])
  have loop: "cnnRecv (Suc k) a (recvState i b o1 p c) =
      (case cnnRead (wanted s) i of
        (Got bs, evs) \<Rightarrow> if bs \<noteq> [] then bindR (cnnBytes a bs (recvState evs b o1 (goal s) c)) (cnnRecv k a)
           else lostSocket a (recvState evs b o1 (goal s) c)
      | (Failed err, evs) \<Rightarrow> if err \<noteq> EAGAIN then lostSocket a (recvState evs b o1 (goal s) c) else Inr (recvState evs b o1 (goal s) c))" for i c
  proof -
    have eq: "(recvState i b o1 (goal s) c)\<lparr>k_in := evs\<rparr> = recvState evs b o1 (goal s) c" for evs by (simp add: recvState_def)
    show ?thesis unfolding cnnRecv.simps start_ready(1) [OF Suc.prems(1)] Let_def
      by (simp add: cnt eq split: prod.split ioResult.split)
  qed
  show ?case
  proof (cases cs)
    case Nil
    have m: "ms = []" "t = s" using no_more [OF ps _ Suc.prems(5), of t] Suc.prems(4) Nil by simp_all
    then have "cnnRecv (Suc k) a (recvState (map Arrived cs) b o1 p c) = bindR (deliver a ms c) (\<lambda>c1. Inr (recvState [] b o1 (goal s) c1))" for c
      unfolding loop Nil using w by (simp add: cnnRead_def)
    then show ?thesis using h0 m(2) by blast
  next
    case (Cons ch cs')
    define bs where "bs = take (wanted s) ch"
    define cs1 where "cs1 = (if length ch \<le> wanted s then cs' else drop (wanted s) ch # cs')"
    have bs: "bs \<noteq> []" "length bs \<le> wanted s" using w Suc.prems(2) Cons by (auto simp: bs_def)
    have cc: "concat cs = bs @ concat cs1" "[] \<notin> set cs1" using Suc.prems(2) Cons by (auto simp: bs_def cs1_def)
    have k: "length (concat cs1) < k" using cc(1) bs(1) Suc.prems(3) by (cases bs) simp_all
    have rd: "cnnRead (wanted s) (map Arrived cs) = (Got bs, map Arrived cs1)"
      using Suc.prems(2) Cons w by (auto simp: cnnRead_def bs_def cs1_def)
    have step: "cnnRecv (Suc k) a (recvState (map Arrived cs) b o1 p c) =
        bindR (cnnBytes a bs (recvState (map Arrived cs1) b o1 (goal s) c)) (cnnRecv k a)" for c
      unfolding loop rd using bs(1) by simp
    have str: "s @ bs @ concat cs1 = concat ms @ t" using Suc.prems(4) cc by simp
    show ?thesis
    proof (rule next_piece [OF ps str Suc.prems(5) t bs(2)])
      fix r assume r: "r \<noteq> []" "wire_msg (s @ bs @ r)"
      obtain b' o' p' where p: "start_ok b' o' p' (s @ bs)" "\<And>i c. cnnBytes a bs (recvState i b o1 (goal s) c) = Inr (recvState i b' o' p' c)"
        using bytes_piece [OF h0 bs(2) r(2,1), of a] by blast
      show ?thesis using Suc.IH [OF p(1) cc(2) k _ Suc.prems(5)] str by (simp add: step p(2) del: cnnRecv.simps)
    next
      fix ms' assume m: "ms = (s @ bs) # ms'" "wire_msg (s @ bs)" "concat cs1 = concat ms' @ t"
      obtain b' where b': "start_ok b' 0 0 []" "\<And>i c. cnnBytes a bs (recvState i b o1 (goal s) c) =
          bindR (on_received a (s @ bs) (of_nat (length (s @ bs))) c) (\<lambda>c1. Inr (recvState i b' 0 0 c1))"
        using bytes_whole [OF a h0 bs(2) m(2)] by blast
      obtain b2 o2 p2 where r: "start_ok b2 o2 p2 t" "\<And>c. cnnRecv k a (recvState (map Arrived cs1) b' 0 0 c) =
          bindR (deliver a ms' c) (\<lambda>c1. Inr (recvState [] b2 o2 p2 c1))"
        using Suc.IH [OF b'(1) cc(2) k, of ms'] m Suc.prems(5) by auto
      have "cnnRecv (Suc k) a (recvState (map Arrived cs) b o1 p c) = bindR (deliver a ms c) (\<lambda>c1. Inr (recvState [] b2 o2 p2 c1))" for c
        unfolding step b'(2) m(1) deliver.simps bindR_assoc bindR_Inr r(2) ..
      then show ?thesis using r(1) by blast
    qed
  qed
qed simp

section \<open>The loop ends\<close>

text \<open>Callbacks that do not exhaust the stack themselves.\<close>

definition shallow :: "(client \<Rightarrow> client result) \<Rightarrow> bool" where
  "shallow f \<longleftrightarrow> (\<forall>c. f c \<noteq> Inl StackOverflow)"

definition shallow_app :: "app \<Rightarrow> bool" where
  "shallow_app a \<longleftrightarrow>
     (\<forall>f. a_ready a = Some f \<longrightarrow> shallow f) \<and> (\<forall>f x1 x2 x3 x4 x5 x6. a_push a = Some f \<longrightarrow> shallow (f x1 x2 x3 x4 x5 x6)) \<and>
     (\<forall>f x1 x2 x3. a_sendAck a = Some f \<longrightarrow> shallow (f x1 x2 x3)) \<and> (\<forall>f. a_closed a = Some f \<longrightarrow> shallow f)"

lemma shallow_bind: "shallow f \<Longrightarrow> shallow h \<Longrightarrow> shallow (\<lambda>c. bindR (f c) h)"
  by (auto simp: shallow_def bindR_def split: sum.splits)

lemma shallow_if: "shallow f \<Longrightarrow> shallow h \<Longrightarrow> shallow (\<lambda>c. if b then f c else h c)"
  by (cases b) simp_all

lemma shallow_option: "(\<And>f. x = Some f \<Longrightarrow> shallow (h f)) \<Longrightarrow> shallow (\<lambda>c. case x of None \<Rightarrow> Inr c | Some f \<Rightarrow> h f c)"
  by (cases x) (simp_all add: shallow_def)

lemma shallow_return: "shallow Inr"
  by (simp add: shallow_def)

lemma shallow_send: "shallow (\<lambda>c. case timeC c of (t, c1) \<Rightarrow> bindR (cnn_send c1 (h t)) (\<lambda>(_, c2). Inr c2))"
  by (simp add: shallow_def timeC_def cnn_send_def assertR_def split: prod.splits)

lemma shallow_received: "shallow_app a \<Longrightarrow> shallow (on_received a data sz)"
  unfolding on_received_def Let_def
  by (intro shallow_if shallow_option shallow_bind shallow_return shallow_send) (auto simp: shallow_app_def)

lemma shallow_lost: "shallow_app a \<Longrightarrow> lostSocket a c \<noteq> Inl StackOverflow"
  by (auto simp: lostSocket_def on_closed_def shallow_app_def shallow_def reopen_def bindR_def split: option.splits sum.splits list.splits)

lemma blind_in: "blind f \<Longrightarrow> f c = Inr c' \<Longrightarrow> k_in c' = k_in c"
proof -
  assume f: "blind f" "f c = Inr c'"
  have "f (recvState (k_in c) (k_msgBuf c) (k_offset c) (k_pendingSize c) c) =
      bindR (f c) (\<lambda>c1. Inr (recvState (k_in c) (k_msgBuf c) (k_offset c) (k_pendingSize c) c1))"
    using f(1) unfolding blind_def by blast
  then have "c' = recvState (k_in c) (k_msgBuf c) (k_offset c) (k_pendingSize c) c'" using f(2) by (simp add: recvState_same)
  then show ?thesis by (metis recvState_simps(6))
qed

lemma bytes_ends:
  assumes a: "blind_app a" "shallow_app a"
  shows "cnnBytes a bs c \<noteq> Inl StackOverflow" and "cnnBytes a bs c = Inr c' \<Longrightarrow> k_in c' = k_in c"
proof -
  have r: "on_received a d sz c1 \<noteq> Inl StackOverflow" "on_received a d sz c1 = Inr c2 \<Longrightarrow> k_in c2 = k_in c1" for d sz c1 c2
    using shallow_received [OF a(2)] blind_in [OF blind_received [OF a(1)]] by (auto simp: shallow_def)
  show "cnnBytes a bs c \<noteq> Inl StackOverflow"
    using r(1) by (auto simp: cnnBytes_def Let_def bindR_def memcpy_def split: sum.splits if_splits)
  show "cnnBytes a bs c = Inr c' \<Longrightarrow> k_in c' = k_in c"
    using r(2) by (fastforce simp: cnnBytes_def Let_def bindR_def split: sum.splits if_splits)
qed

lemma cnnRead_bytes: "cnnRead n evs = (Got bs, evs') \<Longrightarrow> arrivedBytes evs = length bs + arrivedBytes evs'"
  by (auto simp: cnnRead_def split: if_splits list.splits recvEvent.splits)

lemma cnnRecv_ends:
  assumes "blind_app a" and "shallow_app a" and "arrivedBytes (k_in c) < k"
  shows "cnnRecv k a c \<noteq> Inl StackOverflow"
  using assms(3)
proof (induction k arbitrary: c)
  case (Suc k)
  define c0 where "c0 = (if k_pendingSize c = 0 then c\<lparr>k_pendingSize := of_nat sizeof_THeader\<rparr> else c)"
  obtain r evs where rd: "cnnRead (unat (k_pendingSize c0 - k_offset c0)) (k_in c0) = (r, evs)" by (cases "cnnRead (unat (k_pendingSize c0 - k_offset c0)) (k_in c0)")
  have "bindR (cnnBytes a bs (c0\<lparr>k_in := evs\<rparr>)) (cnnRecv k a) \<noteq> Inl StackOverflow" if "r = Got bs" "bs \<noteq> []" for bs
  proof (cases "cnnBytes a bs (c0\<lparr>k_in := evs\<rparr>)")
    case (Inr c2)
    have "k_in c0 = k_in c" by (simp add: c0_def)
    then have "arrivedBytes (k_in c) = length bs + arrivedBytes evs" using cnnRead_bytes rd that(1) by metis
    then have "arrivedBytes (k_in c2) < k" using bytes_ends(2) [OF assms(1,2) Inr] that(2) Suc.prems by (cases bs) simp_all
    then show ?thesis using Suc.IH Inr by simp
  qed (use bytes_ends(1) [OF assms(1,2)] in auto)
  then show ?case
    using rd shallow_lost [OF assms(2)] by (cases r) (simp_all add: Let_def flip: c0_def)
qed simp

section \<open>Properties\<close>

text \<open>C7: Reassembly in the client.  A connection that holds the start \<open>s\<close> of a message receives bytes in any pieces \<open>cs\<close>.  If together
  they are the messages \<open>ms\<close> and the start \<open>t\<close> of another one, then the read loop of \<open>_working\<close> does what handing exactly the
  messages \<open>ms\<close> to \<open>on_received\<close>, in order, does, and ends with everything consumed and \<open>t\<close> held for the next time.\<close>

theorem client_stream:
  assumes "blind_app a" and "start_ok (k_msgBuf c) (k_offset c) (k_pendingSize c) s"
    and "k_in c = map Arrived cs" and "[] \<notin> set cs"
    and "s @ concat cs = concat ms @ t" and "list_all wire_msg ms" and "partial t"
  shows "\<exists>b o1 p. start_ok b o1 p t \<and>
     cnnRecv (Suc (arrivedBytes (k_in c))) a c = bindR (deliver a ms c) (\<lambda>c1. Inr (recvState [] b o1 p c1))"
proof -
  have "length (concat cs) < Suc (arrivedBytes (k_in c))" using assms(3) by (simp add: arrivedBytes_map)
  then obtain b o1 p where "start_ok b o1 p t"
    "\<And>d. cnnRecv (Suc (arrivedBytes (k_in c))) a (recvState (map Arrived cs) (k_msgBuf c) (k_offset c) (k_pendingSize c) d) =
       bindR (deliver a ms d) (\<lambda>c1. Inr (recvState [] b o1 p c1))"
    using cnnRecv_delivers [OF assms(1,2,4) _ assms(5) _ assms(7)] assms(6) by (fastforce simp: list_all_iff)
  then show ?thesis using recvState_same [of c] assms(3) by metis
qed

theorem client_stream_witness:
  "\<exists>c1. cnnRecv 33 ex_app (ex_client\<lparr>k_msgBuf := zeros 512, k_in := [Arrived (take 10 (ex_ping 0)), Arrived (drop 10 (ex_ping 0) @ take 3 (ex_ping 0))]\<rparr>) = Inr c1 \<and>
     k_wire c1 = TPDUHeartBeatAck_bytes (heartbeatAck (THeader_at (ex_ping 0)) (k_clock ex_client (k_ticks ex_client))) \<and> k_offset c1 = 3"
proof -
  let ?cs = "[take 10 (ex_ping 0), drop 10 (ex_ping 0) @ take 3 (ex_ping 0)]"
  let ?c = "ex_client\<lparr>k_msgBuf := zeros 512, k_in := map Arrived ?cs\<rparr>"
  have "wire_msg (take 3 (ex_ping 0) @ drop 3 (ex_ping 0))" "drop 3 (ex_ping 0) \<noteq> []"
    by (simp_all add: wire_msg_def ex_ping_facts layout)
  then have pt: "partial (take 3 (ex_ping 0))" unfolding partial_def by blast
  have a: "blind_app ex_app" by (simp add: blind_app_def noCallbacks_def blind_def recvState_def)
  have s: "start_ok (k_msgBuf ?c) (k_offset ?c) (k_pendingSize ?c) []"
    using partial_empty by (simp add: start_ok_def ex_client_def zeros_def layout)
  have "deliver ex_app [ex_ping 0] ?c = Inr (?c\<lparr>k_ticks := Suc (k_ticks ?c),
      k_wire := k_wire ?c @ TPDUHeartBeatAck_bytes (heartbeatAck (THeader_at (ex_ping 0)) (k_clock ?c (k_ticks ?c)))\<rparr>)"
    using on_heartbeat [of ?c "THeader_at (ex_ping 0)" ex_app "[]"] THeader_at_bytes [of _ "[]"]
    by (simp add: ex_ping_facts ex_client_def layout) (simp add: ex_ping_def layout)
  moreover have "[] \<notin> set ?cs" using ex_ping_facts(1) [of 0] by (auto simp: take_eq_Nil)
  ultimately show ?thesis
    using client_stream [OF a s, of ?cs "[ex_ping 0]" "take 3 (ex_ping 0)"] pt
    by (auto simp: start_ok_def wire_msg_def ex_ping_facts layout ex_client_def word_eq_unat simp del: cnnRecv.simps)
qed

end
