(* ===== verification/Delivery.thy ===== *)
theory Delivery
  imports Client
begin

unbundle bit_operations_syntax

text \<open>
  A message on its way through Redis: the commands by which \<open>sendMessage\<close> of CRedisOperator.cpp stores what a client sent, the
  acknowledgement that the client receives, and the delivery by \<open>checkMessages\<close> of what is due to a session.  What Redis answers is a
  hypothesis: a script of commands and replies that the library follows.
\<close>

section \<open>Scripts of commands and replies\<close>

type_synonym script = "(command \<times> reply option) list"

text \<open>From state \<open>r\<close> Redis gives these replies to these commands, in order, and is then in state \<open>r'\<close>.\<close>

fun answers :: "'r hiredis \<Rightarrow> nat \<Rightarrow> script \<Rightarrow> 'r \<Rightarrow> 'r \<Rightarrow> bool" where
  "answers api g [] r r' \<longleftrightarrow> r' = r"
| "answers api g ((c, x) # s) r r' \<longleftrightarrow> fst (h_command api g c r) = x \<and> answers api g s (snd (h_command api g c r)) r'"

lemma answers_append:
  "answers api g (s1 @ s2) r r' \<longleftrightarrow> (\<exists>r1. answers api g s1 r r1 \<and> answers api g s2 r1 r')"
  by (induction s1 arbitrary: r) auto

text \<open>A group with a connection to Redis, and what its error handler says of a reply.\<close>

definition linked :: "nat \<Rightarrow> 'r world \<Rightarrow> bool" where
  "linked g w \<longleftrightarrow> g < length (w_groups w) \<and> g_context (w_groups w ! g)"

lemma wp_handler_reply:
  "linked g w \<Longrightarrow> wp F (CRedisOperator_errorHandler e g (Some x)) Q w = Q (x \<noteq> R_Error) w"
  by (cases x) (simp_all add: linked_def CRedisOperator_errorHandler_def errorHandler_def wp_simps)

lemma wp_contextM: "linked g w \<Longrightarrow> wp F (contextM g) Q w = Q () w"
  by (simp add: linked_def contextM_def wp_simps)

lemma linked_redis [simp]: "linked g (w\<lparr>w_redis := r\<rparr>) = linked g w" "linked g (w\<lparr>w_ticks := k\<rparr>) = linked g w"
  by (simp_all add: linked_def)

definition micros :: "timeval \<Rightarrow> ub8_" where
  "micros tv = word_of_int (tv_sec tv * 1000000 + tv_usec tv)"

section \<open>Storing a message\<close>

definition idCommand :: command where
  "idCommand = [str ''hincrby'', str ''gml:message:key:generator'', str ''messageId'', str ''1'']"

definition storeCommand :: "ub8_ \<Rightarrow> ub1_ \<Rightarrow> ub8_ \<Rightarrow> ub8_ \<Rightarrow> ub1_ list \<Rightarrow> command" where
  "storeCommand mid dstType ornId dstId json =
     [str ''hmset'', str ''gml:message:'' @ dec (unat mid), str ''ornType'', dec (unat dstType), str ''ornId'', dec (unat ornId),
      str ''ornExtId'', dec (unat dstId), str ''json'', json]"

definition queueCommand :: "ub1_ list \<Rightarrow> ub8_ \<Rightarrow> ub8_ \<Rightarrow> command" where
  "queueCommand key now mid = [str ''zadd'', key, dec (unat now), dec (unat mid)]"

definition groupQueue :: "ub8_ \<Rightarrow> ub1_ list" where
  "groupQueue gid = str ''gml:message:queue:group:'' @ dec (unat gid)"

definition membersCommand :: "ub8_ \<Rightarrow> command" where
  "membersCommand gid = [str ''zrangebyscore'', str ''gml:group:members:'' @ dec (unat gid), str ''1'', str ''1'']"

text \<open>
  The script of one message: a new id, the message under this id, and then an entry in the queue of the user, or one in the queue of
  the group and one in the queue of every member, whatever Redis answers to the latter.
\<close>

definition memberScript :: "ub8_ \<Rightarrow> ub8_ \<Rightarrow> ub1_ list list \<Rightarrow> reply option list \<Rightarrow> script" where
  "memberScript now mid ms xs = zip (map (\<lambda>s. queueCommand (userQueue (atoll s)) now mid) ms) xs"

definition storeScript ::
  "ub8_ \<Rightarrow> ub1_ \<Rightarrow> ub8_ \<Rightarrow> ub1_ list \<Rightarrow> ub8_ \<Rightarrow> int \<Rightarrow> reply \<Rightarrow> reply \<Rightarrow> ub1_ list list \<Rightarrow> reply option list \<Rightarrow> script" where
  "storeScript ornId dstType dstId json now i x2 x3 ms xs =
     (let mid = word_of_int i in
      (idCommand, Some (R_Integer i)) # (storeCommand mid dstType ornId dstId json, Some x2) #
      (if dstType = 1 then [(queueCommand (userQueue dstId) now mid, Some x3)]
       else (queueCommand (groupQueue dstId) now mid, Some x3) # (membersCommand dstId, Some (R_Array (map R_String ms))) #
         memberScript now mid ms xs))"

lemma wp_members:
  assumes "answers (e_api e) g (memberScript now mid ms xs) (w_redis w) r'" and "length xs = length ms"
  shows "wp F (forM (map R_String ms) (queueMember e g now mid)) Q w = Q () (w\<lparr>w_redis := r'\<rparr>)"
  using assms
proof (induction ms arbitrary: xs w)
  case Nil
  then show ?case by (simp add: memberScript_def wp_simps)
next
  case (Cons s ms)
  then obtain y ys where xs: "xs = y # ys" "length ys = length ms" by (cases xs) auto
  let ?w = "w\<lparr>w_redis := snd (h_command (e_api e) g (queueCommand (userQueue (atoll s)) now mid) (w_redis w))\<rparr>"
  have "answers (e_api e) g (memberScript now mid ms ys) (w_redis ?w) r'"
    using Cons.prems(1) by (simp add: memberScript_def xs)
  from Cons.IH [OF this xs(2)] show ?case
    by (simp add: queueMember_def wp_simps queueCommand_def)
qed

lemma wp_sendMessage:
  assumes l: "linked g w" and m: "sm_dstType (TPDUSendMsg_at buf) = dstType" "sm_dstId (TPDUSendMsg_at buf) = dstId"
      "cstring (drop 38 buf) = Inr json" and d: "dstType = 1 \<or> dstType = 2"
    and s: "answers (e_api e) g (storeScript ornId dstType dstId json (micros (w_clock w (w_ticks w))) i x2 x3 ms xs) (w_redis w) r'"
    and x: "x2 \<noteq> R_Error" "x3 \<noteq> R_Error" "length xs = length ms"
  shows "wp F (CRedisOperator_sendMessage e g ornId buf mid) Q w =
    Q (True, word_of_int i) (w\<lparr>w_ticks := Suc (w_ticks w), w_redis := r'\<rparr>)"
proof -
  note cmds = idCommand_def storeCommand_def queueCommand_def groupQueue_def membersCommand_def micros_def
  note ev = CRedisOperator_sendMessage_def Let_def wp_contextM [OF l] wp_simps wp_handler_reply l m x cmds
  show ?thesis
  proof (cases "dstType = 1")
    case True
    note t = s [unfolded storeScript_def Let_def True, simplified, unfolded cmds]
    show ?thesis using t by (simp add: ev True)
  next
    case False
    then have 2: "dstType = 2" using d by simp
    note t = s [unfolded storeScript_def Let_def 2, simplified, unfolded cmds]
    show ?thesis using t by (simp add: ev 2 wp_members [where xs = xs and r' = r'])
  qed
qed

section \<open>The client's message\<close>

definition sendMsg :: "ub1_ \<Rightarrow> ub8_ \<Rightarrow> ub1_ list \<Rightarrow> ub8_ \<Rightarrow> TPDUSendMsg" where
  "sendMsg dstType dstId json t =
     \<lparr>sm_header = \<lparr>hd_size = of_nat sizeof_TPDUSendMsg, hd_type = MT_SERVICE, hd_cmd = MC_SEND_MSG,
        hd_ver = 0x0100, hd_lang = ML_CN, hd_seq = 0, hd_stmp = t, hd_ext = 0\<rparr>,
      sm_dstType = dstType, sm_dstId = dstId, sm_json = strncpy (zeros Size_JSON) json (Size_JSON - 1)\<rparr>"

lemma sendMsg_json: "length (sm_json (sendMsg dstType dstId json t)) = Size_JSON"
  by (simp add: sendMsg_def layout)

lemma sendMsg_wire: "wire_msg (TPDUSendMsg_bytes (sendMsg dstType dstId json t))"
  using sendMsg_json [of dstType dstId json t]
  by (simp add: wire_msg_def layout) (simp add: TPDUSendMsg_bytes_def THeader_at_bytes sendMsg_def layout)

lemma net_worker_send_open:
  assumes "k_connected c" and "k_out c = []" and "firstByte json \<noteq> 0" and "length (cstr json) < Size_JSON" and "dstType = 1 \<or> dstType = 2"
  shows "net_worker_send dstType dstId json c = Inr (0, c\<lparr>k_ticks := Suc (k_ticks c),
    k_wire := k_wire c @ TPDUSendMsg_bytes (sendMsg dstType dstId json (k_clock c (k_ticks c)))\<rparr>)"
proof -
  have "TPDUSendMsg_bytes (sendMsg dstType dstId json t) \<noteq> []" for t
    using sendMsg_wire [of dstType dstId json t] by (auto simp: wire_msg_def layout)
  then show ?thesis using assms
    by (auto simp: net_worker_send_def timeC_def sendMsg_def cnn_send_open)
qed

lemma server_reads_send:
  fixes dstType :: ub1_ and dstId t p :: ub8_ and json rest :: "ub1_ list"
  defines "b \<equiv> stamp p (TPDUSendMsg_bytes (sendMsg dstType dstId json t)) @ rest"
  shows "sm_dstType (TPDUSendMsg_at b) = dstType" "sm_dstId (TPDUSendMsg_at b) = dstId"
    and "length (cstr json) < Size_JSON \<Longrightarrow> cstring (drop 38 b) = Inr (cstr json)"
    and "THeader_at b = (sm_header (sendMsg dstType dstId json t))\<lparr>hd_ext := p\<rparr>"
    and "CTransaction_onMessage e p b = CTransaction_onSendMsg e p b"
proof -
  let ?m = "sendMsg dstType dstId json t"
  let ?m1 = "?m\<lparr>sm_header := (sm_header ?m)\<lparr>hd_ext := p\<rparr>\<rparr>"
  have b: "b = TPDUSendMsg_bytes ?m1 @ rest"
    by (simp add: b_def stamp_def patchHeader_def TPDUSendMsg_bytes_def THeader_at_bytes)
  have "TPDUSendMsg_at b = ?m1" unfolding b by (rule TPDUSendMsg_at_bytes) (use sendMsg_json in simp)
  then show "sm_dstType (TPDUSendMsg_at b) = dstType" "sm_dstId (TPDUSendMsg_at b) = dstId" by (simp_all add: sendMsg_def)
  show h: "THeader_at b = (sm_header ?m)\<lparr>hd_ext := p\<rparr>" by (simp add: b TPDUSendMsg_bytes_def THeader_at_bytes)
  show "CTransaction_onMessage e p b = CTransaction_onSendMsg e p b"
    unfolding CTransaction_onMessage_def Let_def h by (simp add: sendMsg_def message_codes)
  assume l: "length (cstr json) < Size_JSON"
  have d: "drop 38 b = sm_json ?m @ rest" by (simp add: b TPDUSendMsg_bytes_def layout)
  obtain k where k: "sm_json ?m = cstr json @ zeros (Suc k)"
  proof
    show "sm_json ?m = cstr json @ zeros (Suc (384 - length (cstr json)))"
      using l by (simp add: sendMsg_def strncpy_def layout zeros_def replicate_append_same)
  qed
  show "cstring (drop 38 b) = Inr (cstr json)"
    using cstr_append_zero [OF zero_notin_cstr] by (simp add: d k cstring_def zeros_def)
qed

section \<open>The acknowledgement\<close>

definition sendAck :: "THeader \<Rightarrow> ub2_ \<Rightarrow> ub8_ \<Rightarrow> TPDUSendMsgAck" where
  "sendAck h code mid =
     \<lparr>sma_header = h\<lparr>hd_size := of_nat sizeof_TPDUSendMsgAck, hd_type := hd_type h OR MT_SIGN_ACK\<rparr>,
      sma_code = code, sma_messageId = mid\<rparr>"

lemma patch_sendAck:
  "patchHeader f (TPDUSendMsgAck_bytes a) = TPDUSendMsgAck_bytes (a\<lparr>sma_header := f (sma_header a)\<rparr>)"
  by (simp add: patchHeader_def TPDUSendMsgAck_bytes_def THeader_at_bytes)

lemma sendAck_stamped:
  "(sendAck h c mid)\<lparr>sma_header := (sma_header (sendAck h c mid))\<lparr>hd_stmp := t, hd_ext := 0\<rparr>\<rparr> =
     sendAck (h\<lparr>hd_stmp := t, hd_ext := 0\<rparr>) c mid"
  by (simp add: sendAck_def)

lemma sendAck_sized:
  "sizeof_THeader \<le> length (TPDUSendMsgAck_bytes (sendAck h c mid))"
  "unat (hd_size (THeader_at (TPDUSendMsgAck_bytes (sendAck h c mid)))) = length (TPDUSendMsgAck_bytes (sendAck h c mid))"
  by (simp_all add: TPDUSendMsgAck_bytes_def THeader_at_bytes sendAck_def layout)

lemma client_takes_sendAck:
  assumes "hd_type h = MT_SERVICE" and "hd_cmd h = MC_SEND_MSG"
  shows "on_received a (TPDUSendMsgAck_bytes (sendAck h code mid) @ rest) (of_nat sizeof_TPDUSendMsgAck) c =
    (if code \<noteq> 0 then Inr c else case a_sendAck a of None \<Rightarrow> Inr c | Some f \<Rightarrow> f (ucast (hd_seq h)) code mid c)"
proof -
  have "THeader_at (TPDUSendMsgAck_bytes (sendAck h code mid) @ rest) = sma_header (sendAck h code mid)"
    by (simp add: TPDUSendMsgAck_bytes_def THeader_at_bytes)
  then show ?thesis using assms
    by (simp add: on_received_def TPDUSendMsgAck_at_bytes sendAck_def Let_def message_codes split: option.split)
qed

lemma onSendMsg_stores:
  assumes n: "w_nodes w p = Some n" "t_status (n_transaction n) = READY" "w_out w (n_fd n) = []" "n_group n = Some g" "linked g w"
    and m: "sm_dstType (TPDUSendMsg_at buf) = dstType" "sm_dstId (TPDUSendMsg_at buf) = dstId"
      "cstring (drop 38 buf) = Inr json" and d: "dstType = 1 \<or> dstType = 2"
    and s: "answers (e_api e) g (storeScript (t_id (n_transaction n)) dstType dstId json (micros (w_clock w (Suc (w_ticks w)))) i x2 x3 ms xs)
      (w_redis w) r'"
    and x: "x2 \<noteq> R_Error" "x3 \<noteq> R_Error" "length xs = length ms"
  shows "\<exists>t k. CTransaction_onSendMsg e p buf w = Inr (True, w\<lparr>w_redis := r', w_ticks := k,
    w_wire := (w_wire w)(n_fd n := w_wire w (n_fd n) @
      TPDUSendMsgAck_bytes (sendAck ((THeader_at buf)\<lparr>hd_stmp := t, hd_ext := 0\<rparr>) 0 (word_of_int i)))\<rparr>)"
proof -
  let ?ack = "\<lambda>now. sendAck ((THeader_at buf)\<lparr>hd_stmp := now\<rparr>) 0 (word_of_int i)"
  let ?Q = "\<lambda>ok w'. ok = True \<and> (\<exists>t k. w' = w\<lparr>w_redis := r', w_ticks := k,
    w_wire := (w_wire w)(n_fd n := w_wire w (n_fd n) @
      TPDUSendMsgAck_bytes (sendAck ((THeader_at buf)\<lparr>hd_stmp := t, hd_ext := 0\<rparr>) 0 (word_of_int i)))\<rparr>)"
  have ack: "\<lparr>sma_header = (THeader_at buf)\<lparr>hd_size := of_nat sizeof_TPDUSendMsgAck, hd_type := hd_type (THeader_at buf) OR MT_SIGN_ACK,
      hd_stmp := now\<rparr>, sma_code = 0, sma_messageId = word_of_int i\<rparr> = ?ack now" for now
    by (simp add: sendAck_def)
  have sent: "wp F (CTransaction_send e p (TPDUSendMsgAck_bytes (?ack now)) False) (\<lambda>_. ?Q True) (w\<lparr>w_ticks := k, w_redis := r'\<rparr>)" for F now k
    by (subst wp_send_open [OF _ _ sendAck_sized refl, of _ p n]) (use n in \<open>auto simp: patch_sendAck sendAck_stamped\<close>)
  have "wp (\<lambda>_. False) (CTransaction_onSendMsg e p buf) ?Q w"
    using n sent
    by (simp add: CTransaction_onSendMsg_def wp_simps Let_def ack wp_sendMessage [OF _ m d _ x, where r' = r' and i = i] s)
  then show ?thesis unfolding wp_total_iff by blast
qed

section \<open>Delivering what is due\<close>

text \<open>
  An entry of a user's queue: the id of a message and its time, and what Redis holds under the id: nothing any more,
  or the strings of the type, the two ids and the content.
\<close>

record entry =
  en_mid :: "ub1_ list"
  en_stamp :: "ub1_ list"
  en_held :: "(ub1_ list \<times> ub1_ list \<times> ub1_ list \<times> ub1_ list) option"

definition fetchCommand :: "ub1_ list \<Rightarrow> command" where
  "fetchCommand mid = [str ''hmget'', str ''gml:message:'' @ cstr mid, str ''ornType'', str ''ornId'', str ''ornExtId'', str ''json'']"

definition fetchReply :: "entry \<Rightarrow> reply" where
  "fetchReply x = R_Array (case en_held x of None \<Rightarrow> [R_Nil, R_Nil, R_Nil, R_Nil]
     | Some (s0, s1, s2, s3) \<Rightarrow> [R_String s0, R_String s1, R_String s2, R_String s3])"

definition fetchScript :: "entry list \<Rightarrow> script" where
  "fetchScript xs = map (\<lambda>x. (fetchCommand (en_mid x), Some (fetchReply x))) xs"

definition elements :: "entry list \<Rightarrow> reply list" where
  "elements xs = concat (map (\<lambda>x. [R_String (en_mid x), R_String (en_stamp x)]) xs)"

text \<open>The message that an entry becomes.\<close>

fun carries :: "entry \<Rightarrow> TPDUPushMsg \<Rightarrow> bool" where
  "carries x m \<longleftrightarrow> (case en_held x of None \<Rightarrow> False | Some (s0, s1, s2, s3) \<Rightarrow>
     pm_ornType m = ucast (atoi s0) \<and> pm_ornId m = atoll s1 \<and> pm_ornExtId m = atoll s2 \<and>
     pm_messageId m = atoll (en_mid x) \<and> pm_json m = strncpy (zeros Size_JSON) s3 Length_JSON)"

definition held :: "entry list \<Rightarrow> entry list" where
  "held xs = filter (\<lambda>x. en_held x \<noteq> None) xs"

definition entry_ok :: "entry \<Rightarrow> bool" where
  "entry_ok x \<longleftrightarrow> (case en_held x of None \<Rightarrow> True | Some (s0, s1, s2, s3) \<Rightarrow> length s3 \<le> Length_JSON)"

definition lastStamp :: "ub8_ \<Rightarrow> entry list \<Rightarrow> ub8_" where
  "lastStamp u xs = last (u # map (\<lambda>x. atoll (en_stamp x)) (held xs))"

text \<open>What a delivery of the entries leaves: the messages on the wire, numbered in sequence, and a timer taken for each.\<close>

definition delivered :: "ub8_ \<Rightarrow> node \<Rightarrow> entry list \<Rightarrow> TPDUPushMsg list \<Rightarrow> 'r world \<Rightarrow> 'r world \<Rightarrow> bool" where
  "delivered p n xs msgs w w' \<longleftrightarrow>
     list_all2 carries (held xs) msgs \<and>
     w_wire w' = (w_wire w)(n_fd n := w_wire w (n_fd n) @ concat (map TPDUPushMsg_bytes msgs)) \<and>
     map (\<lambda>m. hd_seq (pm_header m)) msgs = map (\<lambda>k. (nextSeq ^^ Suc k) (t_seqCounter (n_transaction n))) [0..<length msgs] \<and>
     (\<exists>waits. w_nodes w' = (w_nodes w)(p \<mapsto> n\<lparr>n_transaction := (n_transaction n)\<lparr>
        t_seqCounter := (nextSeq ^^ length msgs) (t_seqCounter (n_transaction n)), t_mapSeq2Timer := waits,
        t_lastUpdate := lastStamp (t_lastUpdate (n_transaction n)) xs\<rparr>\<rparr>)) \<and>
     w_registry w' = w_registry w \<and> w_groups w' = w_groups w \<and> w_out w' = w_out w \<and>
     freeDeque (timerRes (w_timers w')) = drop (length msgs) (freeDeque (timerRes (w_timers w)))"

lemma delivered_none: "w_nodes w p = Some n \<Longrightarrow> delivered p n [] [] w w"
  by (auto simp: delivered_def held_def lastStamp_def fun_upd_idem intro!: exI [of _ "t_mapSeq2Timer (n_transaction n)"])

lemma delivered_redis: "delivered p n xs msgs (w\<lparr>w_redis := r\<rparr>) w' = delivered p n xs msgs w w'"
  by (simp add: delivered_def)

lemma delivered_skip: "en_held x = None \<Longrightarrow> delivered p n (x # xs) msgs w w' = delivered p n xs msgs w w'"
  by (simp add: delivered_def held_def lastStamp_def)

lemma delivered_cons:
  assumes "pushed p n msg (atoll (en_stamp x)) u w w1" and "carries x msg" and "w_nodes w1 p = Some n1"
    and "delivered p n1 xs msgs w1 w2"
  shows "delivered p n (x # xs) (msg # msgs) w w2"
proof -
  have h: "held (x # xs) = x # held xs" using assms(2) by (auto simp: held_def split: option.splits)
  have seqs: "map (\<lambda>k. nextSeq ((nextSeq ^^ k) s)) [0..<Suc k] = nextSeq s # map (\<lambda>k. nextSeq ((nextSeq ^^ k) (nextSeq s))) [0..<k]" for s k
    by (simp only: map_upt_Suc) (simp add: funpow_swap1)
  let ?t = "n_transaction n"
  note p = assms(1) [unfolded pushed_def Let_def]
  have n1: "n1 = n\<lparr>n_transaction := ?t\<lparr>t_seqCounter := nextSeq (t_seqCounter ?t),
      t_mapSeq2Timer := mapPut (nextSeq (t_seqCounter ?t)) u (t_mapSeq2Timer ?t), t_lastUpdate := atoll (en_stamp x)\<rparr>\<rparr>"
    using p assms(3) by simp
  note d = assms(4) [unfolded delivered_def n1, simplified]
  obtain waits where "w_nodes w2 = (w_nodes w1)(p \<mapsto> n\<lparr>n_transaction := ?t\<lparr>t_seqCounter := (nextSeq ^^ length msgs) (nextSeq (t_seqCounter ?t)),
      t_mapSeq2Timer := waits, t_lastUpdate := lastStamp (atoll (en_stamp x)) xs\<rparr>\<rparr>)"
    using d by blast
  moreover have "lastStamp v (x # xs) = lastStamp (atoll (en_stamp x)) xs" for v by (simp add: lastStamp_def h)
  ultimately have nodes: "w_nodes w2 = (w_nodes w)(p \<mapsto> n\<lparr>n_transaction := ?t\<lparr>t_seqCounter := (nextSeq ^^ length (msg # msgs)) (t_seqCounter ?t),
      t_mapSeq2Timer := waits, t_lastUpdate := lastStamp (t_lastUpdate ?t) (x # xs)\<rparr>\<rparr>)"
    using p by (simp add: funpow_swap1)
  have wire: "w_wire w2 = (w_wire w)(n_fd n := w_wire w (n_fd n) @ concat (map TPDUPushMsg_bytes (msg # msgs)))"
    using p d by simp
  show ?thesis
    unfolding delivered_def h
  proof (intro conjI exI [of _ waits], goal_cases)
    case 3
    then show ?case using p d by (simp add: seqs del: upt_Suc)
  qed (use p d wire nodes assms(2) in \<open>simp_all add: drop_Suc del: carries.simps\<close>)
qed

lemma push_keeps_inv:
  assumes "sv_inv w" and "w_nodes w p = Some n" and "t_status (n_transaction n) = READY"
    and "CTransaction_handlePushMessage e p a b c d json len ts w = Inr (ok, w')"
  shows "sv_inv w'"
  using handlePush_kept [OF assms(1-3), of e a b c d json len ts] assms(4) by (simp add: wp_def kept_def)

lemma handler_reply: "linked g w \<Longrightarrow> CRedisOperator_errorHandler e g (Some x) w = Inr (x \<noteq> R_Error, w)"
  using wp_handler_reply [where F = "\<lambda>_. False" and Q = "\<lambda>b w'. b = (x \<noteq> R_Error) \<and> w' = w" and e = e and x = x and g = g and w = w]
  by (auto simp: wp_total_iff)

lemma pushStored_replied:
  assumes "linked g w" and "fst (h_command (e_api e) g (fetchCommand (en_mid x)) (w_redis w)) = Some (fetchReply x)"
    and "w1 = w\<lparr>w_redis := snd (h_command (e_api e) g (fetchCommand (en_mid x)) (w_redis w))\<rparr>"
  shows "pushStored e g push (en_mid x) st w = (case en_held x of None \<Rightarrow> Inr (True, w1)
    | Some (s0, s1, s2, s3) \<Rightarrow> push (ucast (atoi s0)) (atoll s1) (atoll s2) (atoll (en_mid x)) s3 (of_nat (length s3)) (atoll st) w1)"
proof -
  let ?h = "h_command (e_api e) g (fetchCommand (en_mid x)) (w_redis w)"
  obtain r where h: "?h = (Some (fetchReply x), r)" using assms(2) by (metis prod.collapse)
  have "linked g w1" using assms(1,3) by simp
  then show ?thesis
    using h assms(3)
    by (auto simp: pushStored_def bindM_def redisCommand_def fetchCommand_def handler_reply fetchReply_def replyStr_def retM_def
        split: option.split)
qed

lemma pushAll_delivers:
  assumes "sv_inv w" and "w_nodes w p = Some n" and "t_status (n_transaction n) = READY" and "w_out w (n_fd n) = []" and "linked g w"
    and "answers (e_api e) g (fetchScript xs) (w_redis w) r'" and "list_all entry_ok xs"
    and "length (held xs) \<le> length (freeDeque (timerRes (w_timers w)))"
  shows "\<exists>msgs w'. pushAll e g (CTransaction_handlePushMessage e p) (elements xs) w = Inr (True, w') \<and>
    delivered p n xs msgs w w' \<and> w_redis w' = r' \<and> sv_inv w'"
  using assms
proof (induction xs arbitrary: w n)
  case Nil
  then show ?case using delivered_none by (auto simp: elements_def retM_def fetchScript_def)
next
  case (Cons x xs)
  let ?push = "CTransaction_handlePushMessage e p"
  let ?w = "w\<lparr>w_redis := snd (h_command (e_api e) g (fetchCommand (en_mid x)) (w_redis w))\<rparr>"
  have a: "fst (h_command (e_api e) g (fetchCommand (en_mid x)) (w_redis w)) = Some (fetchReply x)"
      "answers (e_api e) g (fetchScript xs) (w_redis ?w) r'" using Cons.prems(6) by (simp_all add: fetchScript_def)
  have inv: "sv_inv ?w" using sv_inv_core [of w ?w] Cons.prems(1) by (simp add: same_core_def)
  have el: "elements (x # xs) = R_String (en_mid x) # R_String (en_stamp x) # elements xs" by (simp add: elements_def)
  note st = pushStored_replied [OF Cons.prems(5) a(1) refl, of ?push "en_stamp x"]
  show ?case
  proof (cases "en_held x")
    case None
    have "\<exists>msgs w'. pushAll e g ?push (elements xs) ?w = Inr (True, w') \<and> delivered p n xs msgs ?w w' \<and> w_redis w' = r' \<and> sv_inv w'"
      by (rule Cons.IH) (use Cons.prems inv a None in \<open>simp_all add: held_def\<close>)
    then show ?thesis using st None by (simp add: el bindM_def delivered_redis delivered_skip)
  next
    case (Some s)
    have h: "held (x # xs) = x # held xs" using Some by (cases s) (simp add: held_def)
    obtain s0 s1 s2 s3 where s: "s = (s0, s1, s2, s3)" by (cases s)
    have len: "unat (of_nat (length s3) :: ub2_) \<le> Length_JSON"
      using Cons.prems(7) Some s by (simp add: entry_ok_def layout unat_of_nat_lt)
    have "freeDeque (timerRes (w_timers ?w)) \<noteq> []" using Cons.prems(8) h by auto
    then obtain msg u w1 where w1: "?push (ucast (atoi s0)) (atoll s1) (atoll s2) (atoll (en_mid x)) s3 (of_nat (length s3)) (atoll (en_stamp x)) ?w = Inr (True, w1)"
        "pushed p n msg (atoll (en_stamp x)) u ?w w1" "carries x msg"
      using push_message [OF inv _ _ _ len, of p n] Cons.prems(2,4) by (force simp: Some s)
    have k: "sv_inv w1" using push_keeps_inv [OF inv _ _ w1(1)] Cons.prems by simp
    obtain n1 where n1: "w_nodes w1 p = Some n1" "t_status (n_transaction n1) = READY" "n_fd n1 = n_fd n"
      using w1(2) Cons.prems(3) by (simp add: pushed_def Let_def)
    have "\<exists>msgs w'. pushAll e g ?push (elements xs) w1 = Inr (True, w') \<and> delivered p n1 xs msgs w1 w' \<and> w_redis w' = r' \<and> sv_inv w'"
      by (rule Cons.IH) (use Cons.prems k n1 a h w1(2) in \<open>simp_all add: pushed_def Let_def linked_def\<close>)
    then obtain msgs w' where w': "pushAll e g ?push (elements xs) w1 = Inr (True, w')" "delivered p n1 xs msgs w1 w'" "w_redis w' = r'" "sv_inv w'"
      by blast
    have "delivered p n (x # xs) (msg # msgs) w w'" using delivered_cons [OF w1(2,3) n1(1) w'(2)] by (simp add: delivered_redis)
    then show ?thesis using st w1(1) w' by (auto simp: el bindM_def Some s)
  qed
qed

text \<open>The query for the entries: the last ones of the queue for a session that has seen nothing yet, or nothing for too long; those
  since its last update otherwise.\<close>

definition queryScript :: "config \<Rightarrow> ub8_ \<Rightarrow> ub8_ \<Rightarrow> ub8_ \<Rightarrow> int \<Rightarrow> reply list \<Rightarrow> script" where
  "queryScript cfg uid since now num els =
     (if since = 0 \<or> VALID_DURATION cfg < now - since then
        [([str ''zcount'', userQueue uid, str ''-inf'', str ''+inf''], Some (R_Integer num)),
         ([str ''zrangebyscore'', userQueue uid, str ''-inf'', str ''+inf'', str ''withscores'', str ''limit'',
           dec (nat (num - uint (VALID_NUMBER cfg))), dec (unat (VALID_NUMBER cfg))], Some (R_Array els))]
      else
        [([str ''zrangebyscore'', userQueue uid, str ''('' @ dec (unat since), str ''+inf'', str ''withscores'', str ''limit'', str ''0'',
           dec (unat (ucast (VALID_DURATION cfg) :: ub4_))], Some (R_Array els))])"

lemma wp_check_queries:
  assumes n: "w_nodes w p = Some n" and l: "linked g w" and t: "t = n_transaction n" and now: "now = micros (w_clock w (w_ticks w))"
    and late: "t_lastUpdate t < now" and num: "0 < num" "num < 2 ^ 31"
    and q: "answers (e_api e) g (queryScript (e_cfg e) (t_id t) (t_lastUpdate t) now num els) (w_redis w) r"
  shows "wp F (CRedisOperator_checkMessages e g push p) Q w = wp F (pushAll e g push els) Q (w\<lparr>w_ticks := Suc (w_ticks w), w_redis := r\<rparr>)"
proof -
  have s: "sint (word_of_int num :: b4_) = num" using num by (simp add: sint_sbintrunc' signed_take_bit_int_eq_self)
  note ev = CRedisOperator_checkMessages_def wp_simps wp_contextM [OF l] wp_handler_reply n l
    now [symmetric, unfolded micros_def] t [symmetric] late
  show ?thesis
  proof (cases "t_lastUpdate t = 0 \<or> VALID_DURATION (e_cfg e) < now - t_lastUpdate t")
    case True
    note q1 = q [unfolded queryScript_def if_P [OF True], simplified]
    have "nat (if uint (VALID_NUMBER (e_cfg e)) \<le> num then num - uint (VALID_NUMBER (e_cfg e)) else 0) = nat (num - uint (VALID_NUMBER (e_cfg e)))"
      by simp
    then show ?thesis using q1 s num True by (simp only: ev if_P [OF True] queryRecent_def) (auto simp: ev)
  next
    case False
    note q1 = q [unfolded queryScript_def if_not_P [OF False], simplified]
    show ?thesis using q1 False by (simp only: ev if_not_P [OF False] querySince_def) (auto simp: ev)
  qed
qed

section \<open>Example data\<close>

text \<open>A Redis server that follows a script; its state counts the commands.\<close>

definition replay :: "script \<Rightarrow> nat hiredis" where
  "replay s =
     \<lparr>h_connect = (\<lambda>g k. (ContextOk, k)), h_free = (\<lambda>g k. k),
      h_command = (\<lambda>g c k. (if k < length s \<and> fst (s ! k) = c then snd (s ! k) else Some R_Error, Suc k))\<rparr>"

lemma replay_answers: "answers (replay (s1 @ s)) g s (length s1) (length s1 + length s)"
proof (induction s arbitrary: s1)
  case (Cons x s)
  have "answers (replay ((s1 @ [x]) @ s)) g s (length (s1 @ [x])) (length (s1 @ [x]) + length s)" by (rule Cons.IH)
  then show ?case by (cases x) (simp add: replay_def nth_append)
qed simp

definition ex_scripted :: "script \<Rightarrow> nat env" where
  "ex_scripted s = ex_env\<lparr>e_api := replay s\<rparr>"

lemma ex_scripted_answers: "answers (e_api (ex_scripted s)) g s 0 (length s)"
  using replay_answers [of "[]" s g] by (simp add: ex_scripted_def)

definition ex_linked :: "nat world" where
  "ex_linked = ex_ready\<lparr>w_groups := [(ex_group [])\<lparr>g_context := True\<rparr>]\<rparr>"

lemma ex_linked_facts:
  "sv_inv ex_linked" "w_nodes ex_linked 1 = Some ex_session" "w_out ex_linked (n_fd ex_session) = []" "linked 0 ex_linked"
  "n_group ex_session = Some 0" "t_status (n_transaction ex_session) = READY" "w_redis ex_linked = 0"
  "t_id (n_transaction ex_session) = 42" "t_lastUpdate (n_transaction ex_session) = 0" "freeDeque (timerRes (w_timers ex_linked)) = [2]"
  using ex_ready_inv
  by (simp_all add: ex_linked_def sv_inv_def reg_ok_def ready_def txs_def sessionKey_def linked_def inj_on_def)
    (simp_all add: ex_ready_def ex_session_def ex_node_def ex_world_def ex_outside_def ex_timers_def CTransaction_new_def)

section \<open>Properties\<close>

text \<open>C6: A message is stored and acknowledged.  An open client sends a message to a user or to a group; the server, with the
  session ready and linked to Redis, runs the commands that give it an id, keep it under this id and put it into the queue of
  the user or into that of the group and of every member, in this order and no others.  The client is then told the id.\<close>

theorem send_exchange:
  assumes c: "k_connected c" "k_out c = []" "firstByte json \<noteq> 0" "length (cstr json) < Size_JSON" "dstType = 1 \<or> dstType = 2"
    and n: "w_nodes w p = Some n" "t_status (n_transaction n) = READY" "w_out w (n_fd n) = []" "n_group n = Some g" "linked g w"
    and s: "answers (e_api e) g
       (storeScript (t_id (n_transaction n)) dstType dstId (cstr json) (micros (w_clock w (Suc (w_ticks w)))) i x2 x3 ms xs) (w_redis w) r'"
    and x: "x2 \<noteq> R_Error" "x3 \<noteq> R_Error" "length xs = length ms"
  shows "\<exists>c1 msg w1 ack. net_worker_send dstType dstId json c = Inr (0, c1) \<and> k_wire c1 = k_wire c @ msg \<and> wire_msg msg \<and>
     CTransaction_onMessage e p (stamp p msg @ rest) w = Inr (True, w1) \<and> w_redis w1 = r' \<and> w_nodes w1 = w_nodes w \<and>
     w_wire w1 (n_fd n) = w_wire w (n_fd n) @ ack \<and> wire_msg ack \<and>
     on_received a (ack @ rest1) (of_nat (length ack)) c1 =
       (case a_sendAck a of None \<Rightarrow> Inr c1 | Some f \<Rightarrow> f 0 0 (word_of_int i) c1)"
proof -
  let ?m = "sendMsg dstType dstId json (k_clock c (k_ticks c))"
  let ?c = "c\<lparr>k_ticks := Suc (k_ticks c), k_wire := k_wire c @ TPDUSendMsg_bytes ?m\<rparr>"
  let ?b = "stamp p (TPDUSendMsg_bytes ?m) @ rest"
  note rd = server_reads_send [where p = p and dstType = dstType and dstId = dstId and json = json and t = "k_clock c (k_ticks c)" and rest = rest]
  obtain t w1 where w1: "CTransaction_onSendMsg e p ?b w = Inr (True, w1)" "w_redis w1 = r'" "w_nodes w1 = w_nodes w"
      "w_wire w1 (n_fd n) = w_wire w (n_fd n) @ TPDUSendMsgAck_bytes (sendAck ((THeader_at ?b)\<lparr>hd_stmp := t, hd_ext := 0\<rparr>) 0 (word_of_int i))"
    using onSendMsg_stores [OF n rd(1,2) rd(3) [OF c(4)] c(5) s x] by fastforce
  let ?h = "(THeader_at ?b)\<lparr>hd_stmp := t, hd_ext := 0\<rparr>" and ?a = "TPDUSendMsgAck_bytes (sendAck ((THeader_at ?b)\<lparr>hd_stmp := t, hd_ext := 0\<rparr>) 0 (word_of_int i))"
  have h: "hd_type ?h = MT_SERVICE" "hd_cmd ?h = MC_SEND_MSG" "hd_seq ?h = 0" unfolding rd(4) by (simp_all add: sendMsg_def)
  have a: "wire_msg ?a" "length ?a = sizeof_TPDUSendMsgAck" using sendAck_sized [of ?h 0 "word_of_int i"] by (simp_all add: wire_msg_def layout)
  have "on_received a (?a @ rest1) (of_nat (length ?a)) ?c = (case a_sendAck a of None \<Rightarrow> Inr ?c | Some f \<Rightarrow> f 0 0 (word_of_int i) ?c)"
    unfolding a(2) client_takes_sendAck [OF h(1,2)] h(3) by (simp split: option.split)
  then show ?thesis
    using net_worker_send_open [OF c, of dstId] sendMsg_wire [of dstType dstId json] rd(5) [of e] w1 a(1)
    by (intro exI [of _ ?c] exI [of _ "TPDUSendMsg_bytes ?m"] exI [of _ w1] exI [of _ ?a]) simp
qed

definition ex_store :: script where
  "ex_store = storeScript 42 2 9 (str ''hi'') (micros (w_clock ex_linked (Suc (w_ticks ex_linked)))) 77 R_Status (R_Integer 1)
     [str ''5'', str ''6''] [Some (R_Integer 1), None]"

theorem send_exchange_witness:
  "\<exists>c1 w1. net_worker_send 2 9 (str ''hi'') ex_client = Inr (0, c1) \<and>
     CTransaction_onMessage (ex_scripted ex_store) 1 (stamp 1 (k_wire c1) @ []) ex_linked = Inr (True, w1) \<and> w_redis w1 = 6"
proof -
  have c: "k_connected ex_client" "k_out ex_client = []" "k_wire ex_client = []" by (simp_all add: ex_client_def)
  have j: "cstr (str ''hi'') = str ''hi''" "firstByte (str ''hi'') \<noteq> 0" "length (str ''hi'') < Size_JSON"
    by (simp_all add: cstr_def str_def firstByte_def layout)
  have l: "length ex_store = 6" by (simp add: ex_store_def storeScript_def memberScript_def Let_def)
  have "answers (e_api (ex_scripted ex_store)) 0 (storeScript (t_id (n_transaction ex_session)) 2 9 (cstr (str ''hi''))
      (micros (w_clock ex_linked (Suc (w_ticks ex_linked)))) 77 R_Status (R_Integer 1) [str ''5'', str ''6''] [Some (R_Integer 1), None])
      (w_redis ex_linked) 6"
    using ex_scripted_answers [of ex_store 0] l by (simp add: ex_store_def j ex_linked_facts)
  from send_exchange [where dstType = 2 and a = ex_app and rest = "[]" and ?rest1.0 = "[]", OF c(1,2) j(2) _ _ ex_linked_facts(2,6,3,5,4) this] j c(3)
  show ?thesis by fastforce
qed

text \<open>C5: What is due is delivered.  A turn of the group's thread for a ready session on an open socket asks Redis for the entries of
  the user's queue and for the message of each.  If there is a timer for every message, all those that Redis still holds are
  written to the socket, each once and in the order of the queue, with their fields, numbered in sequence, each with a timer
  for its acknowledgement; and the time of the last one is where the next turn goes on.\<close>

theorem messages_delivered:
  assumes w: "sv_inv w" "w_nodes w p = Some n" "t_status (n_transaction n) = READY" "w_out w (n_fd n) = []" "n_group n = Some g" "linked g w"
    and t: "t = n_transaction n" "now = micros (w_clock w (w_ticks w))" "t_lastUpdate t < now" "0 < num" "num < 2 ^ 31"
    and s: "answers (e_api e) g (queryScript (e_cfg e) (t_id t) (t_lastUpdate t) now num (elements xs) @ fetchScript xs) (w_redis w) r'"
    and x: "list_all entry_ok xs" "length (held xs) \<le> length (freeDeque (timerRes (w_timers w)))"
  shows "\<exists>msgs w'. CTransaction_onCheck e p w = Inr ((), w') \<and> delivered p n xs msgs w w' \<and> w_redis w' = r' \<and> sv_inv w'"
proof -
  obtain r where r: "answers (e_api e) g (queryScript (e_cfg e) (t_id t) (t_lastUpdate t) now num (elements xs)) (w_redis w) r"
      "answers (e_api e) g (fetchScript xs) r r'" using s by (auto simp: answers_append)
  let ?w = "w\<lparr>w_ticks := Suc (w_ticks w), w_redis := r\<rparr>"
  have "sv_inv ?w" using sv_inv_core [of w ?w] w(1) by (simp add: same_core_def)
  then obtain msgs w' where w': "pushAll e g (CTransaction_handlePushMessage e p) (elements xs) ?w = Inr (True, w')"
      "delivered p n xs msgs ?w w'" "w_redis w' = r'" "sv_inv w'"
    using pushAll_delivers [of ?w p n g e xs r'] w r(2) x by (auto simp: linked_def)
  have "delivered p n xs msgs w w'" using w'(2) by (simp add: delivered_def)
  moreover have "wp (\<lambda>_. False) (CTransaction_onCheck e p) (\<lambda>_ v. v = w') w"
    using w(2,5) w'(1) by (simp add: CTransaction_onCheck_def wp_simps wp_check_queries [OF w(2,6) t r(1)]) (simp add: wp_def)
  ultimately show ?thesis using w' by (auto simp: wp_total_iff)
qed

definition ex_entries :: "entry list" where
  "ex_entries = [\<lparr>en_mid = str ''76'', en_stamp = str ''800'', en_held = None\<rparr>,
     \<lparr>en_mid = str ''77'', en_stamp = str ''900'', en_held = Some (str ''2'', str ''5'', str ''9'', str ''hi'')\<rparr>]"

definition ex_queue :: script where
  "ex_queue = queryScript ex_config 42 0 (micros (w_clock ex_linked (w_ticks ex_linked))) 2 (elements ex_entries) @ fetchScript ex_entries"

theorem messages_delivered_witness:
  "\<exists>msg w'. CTransaction_onCheck (ex_scripted ex_queue) 1 ex_linked = Inr ((), w') \<and>
     w_wire w' 7 = TPDUPushMsg_bytes msg \<and> pm_messageId msg = atoll (str ''77'') \<and>
     pm_json msg = strncpy (zeros Size_JSON) (str ''hi'') Length_JSON \<and> w_redis w' = 4"
proof -
  have l: "length ex_queue = 4" by (simp add: ex_queue_def queryScript_def ex_entries_def fetchScript_def)
  have x: "list_all entry_ok ex_entries" "length (held ex_entries) \<le> length (freeDeque (timerRes (w_timers ex_linked)))"
    "held ex_entries = [ex_entries ! 1]"
    by (simp_all add: ex_entries_def entry_ok_def held_def ex_linked_facts layout str_def)
  have t: "0 < micros (w_clock ex_linked (w_ticks ex_linked))" "n_fd ex_session = 7" "w_wire ex_linked 7 = []"
    by (simp_all add: ex_linked_def ex_ready_def ex_world_def ex_outside_def micros_def ex_session_def ex_node_def)
  have "answers (e_api (ex_scripted ex_queue)) 0 (queryScript (e_cfg (ex_scripted ex_queue)) (t_id (n_transaction ex_session))
      (t_lastUpdate (n_transaction ex_session)) (micros (w_clock ex_linked (w_ticks ex_linked))) 2 (elements ex_entries) @ fetchScript ex_entries)
      (w_redis ex_linked) 4"
    using ex_scripted_answers [of ex_queue 0] l by (simp add: ex_queue_def ex_linked_facts ex_scripted_def ex_env_def)
  from messages_delivered [OF ex_linked_facts(1,2,6,3,5,4) refl refl _ _ _ this x(1,2)]
  obtain msgs w' where w': "CTransaction_onCheck (ex_scripted ex_queue) 1 ex_linked = Inr ((), w')"
      "delivered 1 ex_session ex_entries msgs ex_linked w'" "w_redis w' = 4" using t(1) by (auto simp: ex_linked_facts)
  then obtain msg where "msgs = [msg]" "carries (ex_entries ! 1) msg"
    by (auto simp: delivered_def x(3) list_all2_Cons1)
  then show ?thesis using w' t by (auto simp: delivered_def ex_entries_def)
qed

end
