(* ===== verification/Example_Client.thy ===== *)
theory Example_Client
  imports Client_Stream Delivery
begin

text \<open>
  The application src/clients/c/main.c: its callbacks, which keep a conversation with a group going, and its \<open>main\<close>, which
  checks the arguments and starts the client library.  Printing is left out.
\<close>

section \<open>Callbacks\<close>

text \<open>The content of every message, as the string literal of the source denotes it; 92 is the backslash.\<close>

definition main_json :: "ub1_ list" where
  \<open>main_json = str ''{"ct":2,"mt":1,"uri":"http:'' @ [92] @ str ''/'' @ [92] @ str ''/192.168.7.55:3000'' @ [92] @ str ''/images'' @ [92] @
     str ''/124","dateString":"06-27 14:43","incoming":false}''\<close>

definition main_on_connected :: "client \<Rightarrow> (ub8_ \<times> client) result" where
  "main_on_connected c = Inr (0, c)"

definition main_on_ready :: "client \<Rightarrow> client result" where
  "main_on_ready c =
     bindR (net_worker_send 2 (k_groupId c) main_json c) (\<lambda>(r, c1).
       Inr (if r \<noteq> 0 then c1 else c1\<lparr>k_totalSendNum := k_totalSendNum c1 + 1\<rparr>))"

definition main_on_push :: "ub1_ \<Rightarrow> ub8_ \<Rightarrow> ub8_ \<Rightarrow> ub8_ \<Rightarrow> ub1_ list \<Rightarrow> ub8_ \<Rightarrow> client \<Rightarrow> client result" where
  "main_on_push ornType ornId ornExtId messageId json stmp c =
     (let c0 = c\<lparr>k_totalPushNum := k_totalPushNum c + 1\<rparr> in
      if k_totalPushNum c0 < k_totalSendNum c0 * 8 then Inr c0
      else bindR (net_worker_send 2 (k_groupId c0) main_json c0) (\<lambda>(_, c1). Inr c1))"

definition main_on_send_ack :: "ub8_ \<Rightarrow> ub2_ \<Rightarrow> ub8_ \<Rightarrow> client \<Rightarrow> client result" where
  "main_on_send_ack seq code messageId c =
     Inr (if code = 0 then c\<lparr>k_totalSendNum := k_totalSendNum c + 1\<rparr> else c)"

definition main_on_closed :: "client \<Rightarrow> client result" where
  "main_on_closed c = Inr c"

definition main_on_error :: "b4_ \<Rightarrow> client \<Rightarrow> client result" where
  "main_on_error code c = Inr c"

definition mainApp :: app where
  "mainApp = set_on_closed main_on_closed (set_on_error main_on_error (set_on_send_ack main_on_send_ack (set_on_push main_on_push
     (set_on_ready main_on_ready (set_on_connected main_on_connected noCallbacks)))))"

lemma mainApp_callbacks:
  "mainApp = \<lparr>a_connected = Some main_on_connected, a_ready = Some main_on_ready, a_push = Some main_on_push,
     a_sendAck = Some main_on_send_ack, a_error = Some main_on_error, a_closed = Some main_on_closed\<rparr>"
  by (simp add: mainApp_def set_on_closed_def set_on_error_def set_on_send_ack_def set_on_push_def set_on_ready_def set_on_connected_def
      noCallbacks_def)

section \<open>The program\<close>

text \<open>The arguments, or the variables they replace: \<open>_ip\<close>, \<open>_port\<close>, \<open>_intervalSeconds\<close> and \<open>_buildNum\<close>.\<close>

definition argIp :: "ub1_ list list \<Rightarrow> ub1_ list" where
  "argIp argv = (if 3 < length argv then strncpy (zeros 16) (argv ! 3) 15 else str ''127.0.0.1'' @ zeros 7)"

definition argPort :: "ub1_ list list \<Rightarrow> ub2_" where
  "argPort argv = (if 4 < length argv then ucast (atoi (argv ! 4)) else 10505)"

definition argInterval :: "ub1_ list list \<Rightarrow> ub4_" where
  "argInterval argv = (if 5 < length argv then ucast (atoi (argv ! 5)) else 10)"

definition argBuild :: "ub1_ list list \<Rightarrow> ub4_" where
  "argBuild argv = (if 6 < length argv then ucast (atoi (argv ! 6)) else 1)"

text \<open>\<open>main\<close>: its exit code, and the state.  A port, an interval or a build that is not valid is printed, and used.\<close>

definition main_client ::
  "(ub1_ list \<Rightarrow> bool) \<Rightarrow> threadOutcome \<Rightarrow> (connectOutcome \<times> selectResult list) list \<Rightarrow> ub1_ list list \<Rightarrow> client \<Rightarrow> (b4_ \<times> client) result" where
  "main_client aton th rounds argv c =
     (if length argv < 3 \<or> 7 < length argv then Inr (1, c)
      else if length (cstr (argv ! 1)) \<noteq> 16 then Inr (2, c)
      else
        (let sessionId = strncpy (zeros 17) (argv ! 1) 16; c1 = c\<lparr>k_groupId := atoll (argv ! 2)\<rparr> in
         if k_groupId c1 = 0 then Inr (2, c1)
         else if 3 < length argv \<and> (firstByte (argv ! 3) = 0 \<or> 15 < length (cstr (argv ! 3))) then Inr (4, c1)
         else
           bindR (net_worker_start aton th mainApp rounds (argIp argv) (argPort argv) (argInterval argv) (argBuild argv) sessionId c1)
             (\<lambda>(_, c2). Inr (0, c2))))"

section \<open>The callbacks keep the contract of the library\<close>

lemma recvState_updates:
  "(recvState i b o1 p c)\<lparr>k_ticks := k\<rparr> = recvState i b o1 p (c\<lparr>k_ticks := k\<rparr>)"
  "(recvState i b o1 p c)\<lparr>k_totalSendNum := s\<rparr> = recvState i b o1 p (c\<lparr>k_totalSendNum := s\<rparr>)"
  "(recvState i b o1 p c)\<lparr>k_totalPushNum := s\<rparr> = recvState i b o1 p (c\<lparr>k_totalPushNum := s\<rparr>)"
  "k_groupId (recvState i b o1 p c) = k_groupId c" "k_totalSendNum (recvState i b o1 p c) = k_totalSendNum c"
  "k_totalPushNum (recvState i b o1 p c) = k_totalPushNum c"
  by (simp_all add: recvState_def)

lemma cnn_send_blind: "cnn_send (recvState i b o1 p c) bs = bindR (cnn_send c bs) (\<lambda>(r, c1). Inr (r, recvState i b o1 p c1))"
  by (simp add: cnn_send_def assertR_def split: prod.splits) (simp add: recvState_def)

lemma send_blind:
  "net_worker_send d g json (recvState i b o1 p c) = bindR (net_worker_send d g json c) (\<lambda>(r, c1). Inr (r, recvState i b o1 p c1))"
  by (simp add: net_worker_send_def timeC_def recvState_updates cnn_send_blind)

lemma main_blind: "blind_app mainApp"
proof -
  have "blind main_on_ready"
    by (auto simp: blind_def main_on_ready_def send_blind recvState_updates bindR_def split: sum.splits)
  moreover have "blind (main_on_push x1 x2 x3 x4 x5 x6)" for x1 x2 x3 x4 x5 x6
    by (auto simp: blind_def main_on_push_def send_blind recvState_updates bindR_def Let_def split: sum.splits)
  moreover have "blind (main_on_send_ack x1 x2 x3)" for x1 x2 x3
    by (simp add: blind_def main_on_send_ack_def recvState_updates)
  ultimately show ?thesis by (simp add: blind_app_def mainApp_callbacks)
qed

lemma send_shallow: "net_worker_send d g json c \<noteq> Inl StackOverflow"
  by (simp add: net_worker_send_def timeC_def cnn_send_def assertR_def split: prod.splits)

lemma main_shallow: "shallow_app mainApp"
  using send_shallow
  by (auto simp: shallow_app_def shallow_def mainApp_callbacks main_on_ready_def main_on_push_def main_on_send_ack_def main_on_closed_def
      bindR_def Let_def split: sum.splits if_splits)

section \<open>The arguments\<close>

lemma cstr_padded: "cstr (cstr s @ zeros k) = cstr s"
  by (cases k) (simp_all add: zeros_def cstr_append_zero zero_notin_cstr, simp add: cstr_def takeWhile_idem)

lemma cstr_strncpy: "length (cstr s) \<le> n \<Longrightarrow> n \<le> m \<Longrightarrow> cstr (strncpy (zeros m) s n) = cstr s"
  using cstr_padded [of s "m - length (cstr s)"]
  by (simp add: strncpy_def zeros_def take_replicate min_def flip: replicate_add)

lemma argIp_fits:
  assumes "3 < length argv \<longrightarrow> length (cstr (argv ! 3)) \<le> 15"
  shows "cstr (argIp argv) = (if 3 < length argv then cstr (argv ! 3) else str ''127.0.0.1'')" "length (cstr (argIp argv)) \<le> 15"
  using assms cstr_strncpy [of "argv ! 3" 15 16] cstr_padded [of "str ''127.0.0.1''" 7]
  by (simp_all add: argIp_def) (simp_all add: cstr_def str_def zeros_def)

lemma address_copied:
  "length (cstr ip) \<le> 16 \<Longrightarrow> memcpy (zeros Size_IP_V4) 0 (cstr ip) 0 (length (cstr ip)) = Inr (cstr ip @ zeros (16 - length (cstr ip)))"
  by (simp add: memcpy_def layout zeros_def)

section \<open>A conversation\<close>

lemma main_json_fits: "firstByte main_json \<noteq> 0" "cstr main_json = main_json" "length main_json < Size_JSON"
  by (simp_all add: main_json_def str_def firstByte_def cstr_def layout)

lemma main_sends:
  assumes "k_connected c" and "k_out c = []"
  shows "net_worker_send 2 g main_json c = Inr (0, c\<lparr>k_ticks := Suc (k_ticks c),
    k_wire := k_wire c @ TPDUSendMsg_bytes (sendMsg 2 g main_json (k_clock c (k_ticks c)))\<rparr>)"
  by (rule net_worker_send_open [OF assms]) (simp_all add: main_json_fits)

text \<open>The messages of the server, as an open client with these callbacks takes them.\<close>

lemma main_ready:
  assumes "k_connected c" and "k_out c = []" and "hd_type h = MT_ACCOUNT" and "hd_cmd h = MC_HAND_SHAKE"
  shows "on_received mainApp (TPDUHandShakeAck_bytes (handShakeAck h 0) @ rest) (of_nat sizeof_TPDUHandShakeAck) c =
    Inr (c\<lparr>k_ticks := Suc (k_ticks c), k_wire := k_wire c @ TPDUSendMsg_bytes (sendMsg 2 (k_groupId c) main_json (k_clock c (k_ticks c))),
      k_totalSendNum := k_totalSendNum c + 1\<rparr>)"
  using assms by (simp add: client_takes_accept mainApp_callbacks main_on_ready_def main_sends)

lemma main_acked:
  assumes "hd_type h = MT_SERVICE" and "hd_cmd h = MC_SEND_MSG"
  shows "on_received mainApp (TPDUSendMsgAck_bytes (sendAck h 0 mid) @ rest) (of_nat sizeof_TPDUSendMsgAck) c =
    Inr (c\<lparr>k_totalSendNum := k_totalSendNum c + 1\<rparr>)"
  using assms by (simp add: client_takes_sendAck mainApp_callbacks main_on_send_ack_def)

lemma main_pushed:
  assumes "k_connected c" and "k_out c = []" and "hd_type (pm_header m) = MT_SERVICE" and "hd_cmd (pm_header m) = MC_PUSH_MSG"
    and "length (pm_json m) = Size_JSON"
  shows "\<exists>c1. on_received mainApp (TPDUPushMsg_bytes m @ rest) (of_nat sizeof_TPDUPushMsg) c = Inr c1 \<and>
    k_totalPushNum c1 = k_totalPushNum c + 1 \<and> k_totalSendNum c1 = k_totalSendNum c \<and>
    k_wire c1 = k_wire c @
      (if k_totalPushNum c + 1 < k_totalSendNum c * 8 then []
       else TPDUSendMsg_bytes (sendMsg 2 (k_groupId c) main_json (k_clock c (k_ticks c)))) @
      TPDUPushMsgAck_bytes (pushAck (pm_header m)
        (k_clock c (if k_totalPushNum c + 1 < k_totalSendNum c * 8 then k_ticks c else Suc (k_ticks c))))"
proof -
  let ?c = "c\<lparr>k_totalPushNum := k_totalPushNum c + 1\<rparr>"
  let ?d = "if k_totalPushNum c + 1 < k_totalSendNum c * 8 then ?c
    else ?c\<lparr>k_ticks := Suc (k_ticks c), k_wire := k_wire c @ TPDUSendMsg_bytes (sendMsg 2 (k_groupId c) main_json (k_clock c (k_ticks c)))\<rparr>"
  have "pushCallback mainApp m c = Inr ?d"
    using main_sends [of ?c "k_groupId c"] assms(1,2) by (simp add: pushCallback_def mainApp_callbacks main_on_push_def Let_def)
  from on_push_message [OF this _ _ assms(3-5), of rest] show ?thesis using assms(1,2) by auto
qed

text \<open>While there were fewer pushes than eight for every message that is counted as sent, pushes are acknowledged and nothing else is
  sent.\<close>

definition push_ok :: "TPDUPushMsg \<Rightarrow> bool" where
  "push_ok m \<longleftrightarrow> hd_type (pm_header m) = MT_SERVICE \<and> hd_cmd (pm_header m) = MC_PUSH_MSG \<and> length (pm_json m) = Size_JSON"

lemma pushes_only_acked:
  assumes "k_connected c" and "k_out c = []" and "list_all push_ok ms"
    and "unat (k_totalPushNum c) + length ms < unat (k_totalSendNum c * 8)"
  shows "\<exists>ts c1. length ts = length ms \<and> deliver mainApp (map TPDUPushMsg_bytes ms) c = Inr c1 \<and>
    k_wire c1 = k_wire c @ concat (map2 (\<lambda>m t. TPDUPushMsgAck_bytes (pushAck (pm_header m) t)) ms ts)"
  using assms
proof (induction ms arbitrary: c)
  case Nil
  then show ?case by simp
next
  case (Cons m ms)
  have ok: "hd_type (pm_header m) = MT_SERVICE" "hd_cmd (pm_header m) = MC_PUSH_MSG" "length (pm_json m) = Size_JSON"
    using Cons.prems(3) by (simp_all add: push_ok_def)
  have u: "unat (k_totalPushNum c + 1) = unat (k_totalPushNum c) + 1"
    using Cons.prems(4) unsigned_less [of "k_totalSendNum c * 8"] by (simp add: unat_word_ariths)
  then have lt: "k_totalPushNum c + 1 < k_totalSendNum c * 8" using Cons.prems(4) by (simp add: word_less_nat_alt)
  let ?c = "c\<lparr>k_totalPushNum := k_totalPushNum c + 1\<rparr>"
  have "pushCallback mainApp m c = Inr ?c" using lt by (simp add: pushCallback_def mainApp_callbacks main_on_push_def Let_def)
  note r = on_push_message [OF this _ _ ok, of "[]", simplified, OF Cons.prems(1,2)]
  let ?t = "k_clock c (k_ticks c)"
  let ?d = "?c\<lparr>k_ticks := Suc (k_ticks c), k_wire := k_wire c @ TPDUPushMsgAck_bytes (pushAck (pm_header m) ?t)\<rparr>"
  have "\<exists>ts c1. length ts = length ms \<and> deliver mainApp (map TPDUPushMsg_bytes ms) ?d = Inr c1 \<and>
      k_wire c1 = k_wire ?d @ concat (map2 (\<lambda>m t. TPDUPushMsgAck_bytes (pushAck (pm_header m) t)) ms ts)"
    by (rule Cons.IH) (use Cons.prems u in simp_all)
  then obtain ts c1 where ts: "length ts = length ms" "deliver mainApp (map TPDUPushMsg_bytes ms) ?d = Inr c1"
      "k_wire c1 = k_wire ?d @ concat (map2 (\<lambda>m t. TPDUPushMsgAck_bytes (pushAck (pm_header m) t)) ms ts)" by blast
  then show ?case using r ok(3) by (intro exI [of _ "?t # ts"] exI [of _ c1]) simp
qed

section \<open>Properties\<close>


definition ex_args :: "ub1_ list list" where
  "ex_args = [str ''client'', str ''0123456789abcdef'', str ''9'', str ''10.0.0.1'', str ''80'']"


text \<open>The first message is counted twice, when it is sent and when it is acknowledged.  So a client whose message was acknowledged sends no
  other one until sixteen messages were pushed to it, where eight are meant to be the answer to one.\<close>

theorem first_message_counted_twice:
  assumes c: "k_connected c" "k_out c = []" "k_totalSendNum c = 0" "k_totalPushNum c = 0"
    and h: "hd_type h = MT_ACCOUNT" "hd_cmd h = MC_HAND_SHAKE" "hd_type h1 = MT_SERVICE" "hd_cmd h1 = MC_SEND_MSG"
    and ms: "list_all push_ok ms" "length ms < 16"
  shows "\<exists>t ts c1. length ts = length ms \<and>
     deliver mainApp (TPDUHandShakeAck_bytes (handShakeAck h 0) # TPDUSendMsgAck_bytes (sendAck h1 0 mid) # map TPDUPushMsg_bytes ms) c = Inr c1 \<and>
     k_wire c1 = k_wire c @ TPDUSendMsg_bytes (sendMsg 2 (k_groupId c) main_json t) @
       concat (map2 (\<lambda>m t. TPDUPushMsgAck_bytes (pushAck (pm_header m) t)) ms ts)"
proof -
  let ?t = "k_clock c (k_ticks c)"
  let ?c = "c\<lparr>k_ticks := Suc (k_ticks c), k_wire := k_wire c @ TPDUSendMsg_bytes (sendMsg 2 (k_groupId c) main_json ?t), k_totalSendNum := 2\<rparr>"
  have "\<exists>ts c1. length ts = length ms \<and> deliver mainApp (map TPDUPushMsg_bytes ms) ?c = Inr c1 \<and>
      k_wire c1 = k_wire ?c @ concat (map2 (\<lambda>m t. TPDUPushMsgAck_bytes (pushAck (pm_header m) t)) ms ts)"
    by (rule pushes_only_acked) (use c ms in simp_all)
  then show ?thesis
    using main_ready [OF c(1,2) h(1,2), of "[]"] main_acked [OF h(3,4), of mid "[]"] c(3) by fastforce
qed

text \<open>C32: The receive loop of the example client ends, whatever the server sends: its callbacks neither reach into the connection nor
  recurse, so that the iterations of the loop never exceed the bytes that arrived.\<close>

theorem example_client_ends: "cnnRecv (Suc (arrivedBytes (k_in c))) mainApp c \<noteq> Inl StackOverflow"
  by (rule cnnRecv_ends [OF main_blind main_shallow]) simp

end
