(* ===== verification/Spec2Isabelle.thy ===== *)
theory Spec2Isabelle
  imports Process Shutdown Faults Lock_Order Queue_Threads Base_Class Client_Message Example_Client
begin

text \<open>
  gMaxLinked is a push server.  Clients keep a TCP connection open; the server polls a Redis server
  for the messages of each connected session and pushes them.  This development models the server
  (src/src) and its C client library (src/clients/c) and proves what makes them correct.

  \<^bold>\<open>The parts and how they interact.\<close>  The network thread (CTrafficManager) accepts connections and
  waits in epoll.  A connection is a CNode out of a pool (CResource) and belongs to a CNodeGroup.  The
  bytes that arrive are reassembled in \<open>CNode::recv\<close> and every complete message is put into the group's
  ring buffer (CLoopBuffer).  The group's thread takes messages from the ring and hands them to the
  CTransaction embedded in the node, the state machine of a session, and between messages it asks Redis
  (CRedisOperator) for what is due to the next node of its container.  Timers (CTimerManager, owned
  by CTransactionManager together with the registry of sessions) call back into the
  transaction with a message on the same ring.  The configuration (Config.cpp over CConfReader) and
  \<open>main\<close> bring all of this up; CWorker starts the threads, and CMutex and CAutoLock guard what they share.  The client library
  (connection.c, bridge.c) connects, reassembles the stream and answers; main.c is an application of it.

  \<^bold>\<open>The theories.\<close>
    \<^item> Prelude: the integer types of BaseType.h as words, faults as values, bytes and C strings.
    \<^item> Loop_Buffer: CLoopBuffer; \<open>contents\<close> abstracts the ring to a byte sequence, \<open>lb_wf\<close> is its
      invariant, the locale \<open>byte_queue\<close> the contract of its clients, interpreted as \<open>lb\<close>.
    \<^item> Message: Message.h, the packed header and PDUs as byte blocks and back.
    \<^item> Resource_Pool: the template CResource; the locale \<open>pool\<close>, interpreted as \<open>res\<close>.
    \<^item> Timer_Manager: CTimerManager, a linked list in a store of addresses; the invariant \<open>tm_inv\<close>, the
      locale \<open>timer_service\<close>, interpreted as \<open>tms\<close>, and the step relation \<open>tm_step\<close>.
    \<^item> Config: the globals of Config.h as a record that every component is given.
    \<^item> Server_State: the state of the running server as one record, the sequencing of handlers and
      the weakest precondition calculus \<open>wp\<close> in which their effects are computed.
    \<^item> Redis_Operator, Node, Transaction, Node_Group, Traffic_Manager: one definition per method of
      CRedisOperator.cpp, CNode.cpp, CTransaction.cpp with CTransactionManager.cpp, CNodeGroup.cpp and
      CTrafficManager.cpp.
    \<^item> Transaction_Invariant: \<open>sv_inv\<close>, the invariant of sessions and registry, kept by every handler.
    \<^item> Server_Invariant: \<open>sys_inv\<close>, which adds the pool, the queues and the receive buffers, kept by
      every iteration of every thread; \<open>server_step\<close> and \<open>server_reach\<close> are the runs of the server.
    \<^item> Framing: what \<open>CNode::recv\<close> and \<open>CNode::send\<close> do to the byte streams.
    \<^item> Example_Run: a deployment and a run of it that the witnesses evaluate.
    \<^item> Session: the outcome of each branch of a session: handshake, keep-alive, push and stop.
    \<^item> Group_Invariant: the containers and cursors of the groups in every reachable state, and the round that the
      cursor makes; the locale \<open>state_frame\<close> (handlers that relate the state before and after by a preorder), interpreted as \<open>st\<close>.
    \<^item> Conf_Reader, Config_Load: CConfReader.cpp and Config.cpp; \<open>config_of\<close> is the meaning of a
      configuration document and \<open>initialize\<close> computes it.
    \<^item> Process: gMaxLinked.cpp, the options, the daemon and \<open>main\<close> up to the running threads.
    \<^item> Worker: CWorker.cpp, the hand-shake of \<open>work\<close> and \<open>_run\<close> as a step relation.
    \<^item> Shutdown: the end of \<open>run\<close>, over all workers and the counter that they share.
    \<^item> Locks: CMutex.cpp, CSem.cpp, CCond.cpp and CAutoLock.cpp over a model of pthreads; threads that use them refine a
      system whose critical sections are atomic.
    \<^item> Lock_Order: every method of the server reduced to the sections that it locks, and the order of its mutexes; the locale
      \<open>lock_order\<close> (threads that keep to an order of their mutexes), interpreted as \<open>server\<close> on the threads of the server.
    \<^item> Queue_Threads: the queue of a group with \<open>putMessage\<close> of several threads and the two reads of \<open>_rollingQueue\<close> in steps
      smaller than their critical sections.
    \<^item> Base_Class: CBase.cpp but for the clock, and the template CAutoPtr.
    \<^item> Client_Message: message.h and size.h of the client, and their agreement with Message.h.
    \<^item> Client: connection.c and bridge.c, and the exchanges of a client with the server.
    \<^item> Client_Stream: the reassembly of the stream in the client, and that its loop ends.
    \<^item> Delivery: a message on its way through Redis, from the client that sends it to the session that it is due to.
    \<^item> Example_Client: main.c, the callbacks and the arguments of the example application.
    \<^item> Faults: the inputs that make the server abort or leave a block.

  \<^bold>\<open>What is shown.\<close>  Each layer is shown total or its faults are characterised: the ring is a
  FIFO of bytes, the pool partitions its objects, and the timer service never faults and starves no timer.
  In every reachable state of the server the registry lists exactly the ready sessions, the
  fields of a transaction are those that its status allows, free nodes are as new, and queues hold whole frames of
  existing nodes; the container of a group holds each of its nodes once, and the cursor visits every node in a round.  The
  stream of a connection is cut into the messages that its headers announce, however the kernel cuts it into reads, on both
  sides.  The client and the server models are run against each other for the handshake, the heartbeat, a push and a message that
  is sent, and the messages that Redis holds for a session are delivered in their order.  The threads of the server take their mutexes in an order, so that none is ever
  blocked for good, and the queue of a group delivers the accepted messages whole and in order under every interleaving.  The configuration that \<open>initialize\<close> computes is that of the
  document, and with it \<open>main\<close> ends in a state that satisfies \<open>sys_inv\<close>.  The theory Faults and parts
  of Session, Client, Worker, Locks, Config_Load and Example_Client state where the code does not do what it means to.

  \<^bold>\<open>Choices.\<close>  A critical section is one atomic step (which \<open>locks_serialise\<close> of Locks justifies), and an iteration of a thread
  is one step of the server.  Where that hides an interleaving that matters, it is modelled in smaller steps: the queue of a group in Queue_Threads, the
  start and the end of the threads in Worker and Shutdown.  Lock_Order leaves out what is computed and keeps which mutexes are taken; a branch or a loop of an outline is any of its
  outcomes, and the waits for Redis, for sockets and for the start of a thread are not part of it.  Results of system calls (\<open>read\<close>, \<open>write\<close>, \<open>accept\<close>, \<open>epoll_wait\<close>, \<open>epoll_ctl\<close>, \<open>select\<close>, \<open>fork\<close>), of the
  clock and of hiredis are inputs or parameters; addresses that \<open>new\<close> returns are a parameter
  that is injective and never null.  The loop of \<open>recv\<close> is given one more unit of fuel than bytes have arrived, and
  so is the client's; \<open>recv_terminates\<close> and \<open>cnnRecv_ends\<close> show that this is enough.  \<open>connect\<close> and \<open>_errorHandler\<close> of
  CRedisOperator call each other; \<open>e_depth\<close> is the number of nested calls that a stack holds, and
  using it up is the fault \<open>StackOverflow\<close>.

  \<^bold>\<open>Not modelled.\<close>  What is logged (log4c) or printed; the time that \<open>sleep\<close> takes; destructors other than those of CTrafficManager, CAutoLock and CAutoPtr, which run when
  the process ends and only log; \<open>_setNonBlocking\<close>, which calls \<open>fcntl\<close> and logs; the core dump
  limit; the accessors of CAutoPtr; the clients in other languages.  The fields of a transaction are read by the network thread without a mutex while the thread of its
  group writes them; the model has each iteration of a thread as one step and does not say what such a race may read.  Redis and hiredis are parameters: what the commands
  mean is not part of this repository.
\<close>

section \<open>Example data\<close>

text \<open>A callback that records the timers that fired.\<close>

definition log_fired :: "ub8_ \<Rightarrow> ub8_ \<Rightarrow> ub8_ \<Rightarrow> ub8_ list \<Rightarrow> (bool \<times> ub8_ list) result" where
  "log_fired u pI pII w = Inr (True, u # w)"

section \<open>Properties\<close>

text \<open>C3: The ring buffer is a byte queue.  From a fresh buffer without padding, any sequence of
  writes and reads of positive size returns, without a failed assertion or an access outside a
  block; what was accepted by the writes is what the reads returned, in the same order, followed
  by what is still stored.\<close>

theorem loop_buffer_fifo:
  assumes "length mem = unat sz" and "0 < unat sz" and "unat sz < 2 ^ 31"
    and "\<forall>p \<in> set ops. queueOp_ok p"
  shows "\<exists>q acc out q'. CLoopBuffer_new mem sz False = Inr q \<and>
     queue_run CLoopBuffer_write CLoopBuffer_read q ops = Inr (acc, out, q') \<and>
     acc = out @ contents q' \<and> length (contents q') \<le> unat sz"
proof -
  obtain q where q: "CLoopBuffer_new mem sz False = Inr q" "lb_wf q" "contents q = []"
    "\<not> isPadding q" "totalSize q = sz"
    using wf_new [OF assms(1-3), of False] by auto
  then have p: "lb_plain q" by (simp add: lb_plain_def)
  from lb.run_fifo [OF p assms(4)] lb.within q show ?thesis by force
qed

theorem loop_buffer_fifo_witness:
  "\<exists>q acc out q'. CLoopBuffer_new (replicate 4 0) 4 False = Inr q \<and>
     queue_run CLoopBuffer_write CLoopBuffer_read q
       [Write [1, 2, 3], Read 2, Write [4, 5], Read 9] = Inr (acc, out, q') \<and>
     acc = out @ contents q' \<and> length (contents q') \<le> unat (4 :: ub4_)"
  by (rule loop_buffer_fifo) simp_all

text \<open>C35: What \<open>write\<close> does, with and without padding: it is refused, and changes nothing, exactly
  when the bytes do not fit (with padding, when they fit neither behind the write position nor
  before the read position); otherwise the bytes are appended to the contents.\<close>

theorem loop_buffer_write_spec:
  assumes "lb_wf q" and "sz \<noteq> 0" and "unat sz \<le> length buf"
  shows "if lb_accepts q (unat sz)
     then \<exists>q'. CLoopBuffer_write q buf sz = Inr (True, q') \<and> lb_wf q' \<and>
            contents q' = contents q @ take (unat sz) buf
     else CLoopBuffer_write q buf sz = Inr (False, q)"
  using write_accepted [OF assms] write_refused [OF assms(1,2), of buf] by auto

theorem loop_buffer_write_spec_witness:
  "\<exists>q'. CLoopBuffer_write \<lparr>buffer = [7, 8, 9], totalSize = 3, actualSize = 3, usedSize = 1,
      freeSize = 2, isPadding = True, padding = 0, writePos = 3, readPos = 2\<rparr> [1, 2] 2 = Inr (True, q') \<and>
    lb_wf q' \<and> contents q' = [9, 1, 2]"
  using loop_buffer_write_spec [of "\<lparr>buffer = [7, 8, 9], totalSize = 3, actualSize = 3, usedSize = 1,
      freeSize = 2, isPadding = True, padding = 0, writePos = 3, readPos = 2\<rparr>" 2 "[1, 2]"]
  by (simp add: lb_wf_def lb_straight_def lb_accepts_def contents_def segment_def)

text \<open>C36: What \<open>read\<close> does: it copies the oldest bytes, at most as many as asked for and as many
  as there are, into the destination, changes nothing else there, and removes them.\<close>

theorem loop_buffer_read_spec:
  assumes "lb_wf q" and "sz \<noteq> 0" and "doff + min (unat sz) (length (contents q)) \<le> length dst"
  shows "\<exists>q'. CLoopBuffer_read q dst doff sz =
       Inr (of_nat (min (unat sz) (length (contents q))),
            overwrite dst doff (take (unat sz) (contents q)), q') \<and>
     lb_wf q' \<and> contents q' = drop (unat sz) (contents q)"
  using read_returns [OF assms(1,2) refl assms(3)] by (auto simp: min_def split: if_splits)

theorem loop_buffer_read_spec_witness:
  "\<exists>q'. CLoopBuffer_read \<lparr>buffer = [1, 8, 9], totalSize = 3, actualSize = 3, usedSize = 2,
      freeSize = 1, isPadding = False, padding = 0, writePos = 1, readPos = 2\<rparr> [0, 0, 0, 0] 1 3 =
      Inr (2, [0, 9, 1, 0], q') \<and> lb_wf q' \<and> contents q' = []"
  using loop_buffer_read_spec [of "\<lparr>buffer = [1, 8, 9], totalSize = 3, actualSize = 3, usedSize = 2,
      freeSize = 1, isPadding = False, padding = 0, writePos = 1, readPos = 2\<rparr>" 3 1 "[0, 0, 0, 0]"]
  by (simp add: lb_wf_def lb_wrapped_def contents_def segment_def overwrite_def)

text \<open>C28: The pool never hands out an object twice: in any sequence of allocations and returns of
  held objects from a new pool, the objects that are held and the objects that are free are at
  every time a partition of the objects the constructor made.\<close>

theorem pool_partition:
  assumes "1 < n" and "inj_on fresh {0..<unat n}" and "\<forall>i < unat n. fresh i \<noteq> null_v"
  shows "\<exists>r r' held. CResource_new n fresh = Inr r \<and>
     pool_run CResource_allocate CResource_reclaim r {} ops = Inr (r', held) \<and>
     held \<union> set (freeDeque r') = fresh ` {0..<unat n} \<and> held \<inter> set (freeDeque r') = {} \<and>
     distinct (freeDeque r')"
proof -
  obtain r where r: "CResource_new n fresh = Inr r" "pool_wf r" "freeDeque r = unitGroup r"
    using pool_wf_new [OF assms] by blast
  have u: "set (unitGroup r) = fresh ` {0..<unat n}"
    using r(1) assms(1) by (auto simp: CResource_new_def Let_def)
  obtain r' held where "pool_run CResource_allocate CResource_reclaim r {} ops = Inr (r', held)"
    "pool_wf r'" "held \<union> set (freeDeque r') = set (unitGroup r)" "held \<inter> set (freeDeque r') = {}"
    using res.run_partition [OF r(2), of "{}" ops] r(3) by auto
  then show ?thesis using r(1) u res.free_distinct by auto
qed

theorem pool_partition_witness:
  "\<exists>r r' held. CResource_new 2 addr = Inr r \<and>
     pool_run CResource_allocate CResource_reclaim r {} [Allocate, Reclaim 1, Allocate] = Inr (r', held) \<and>
     held \<union> set (freeDeque r') = addr ` {0..<unat (2 :: ub4_)} \<and>
     held \<inter> set (freeDeque r') = {} \<and> distinct (freeDeque r')"
  by (rule pool_partition [OF _ addr_inj addr_nonnull]) simp



text \<open>C34: When a timer fires.  The timer that \<open>setTimer\<close> set at time \<open>start\<close> with a period is due
  at time \<open>now\<close> exactly when the whole period has passed, to the microsecond, as long as the expiry
  second fits into the 32 bits of the timer's time base (which it does until 2038).\<close>

theorem timer_due_exact:
  assumes "valid_time start" and "valid_time now" and "tv_sec start + uint per < 2 ^ 31"
  shows "timer_due now (armed start per pI pII n) \<longleftrightarrow> usecs start + uint per * 1000000 \<le> usecs now"
  using timer_due_iff [of start now "armed start per pI pII n"] assms by (simp add: armed_def)

theorem timer_due_exact_witness:
  "timer_due \<lparr>tv_sec = 1700000010, tv_usec = 500\<rparr> (armed \<lparr>tv_sec = 1700000000, tv_usec = 500\<rparr> 10 1 2 1) \<longleftrightarrow>
   usecs \<lparr>tv_sec = 1700000000, tv_usec = 500\<rparr> + uint (10 :: ub4_) * 1000000
     \<le> usecs \<lparr>tv_sec = 1700000010, tv_usec = 500\<rparr>"
  by (rule timer_due_exact) (simp_all add: valid_time_def)



text \<open>C1: Sessions are exclusive.  In every state that the server reaches, the registry lists
  exactly the transactions in status READY, each once, and no two of them have the same session.\<close>

theorem server_sessions:
  assumes "boot_ok cfg timerAddr nodeAddr mem" and "server_new cfg timerAddr nodeAddr mem w0 = Inr w1"
    and "server_reach e w1 w"
  shows "distinct (w_registry w) \<and> set (w_registry w) = ready w \<and> inj_on (sessionKey w) (ready w)"
  using reach_inv [OF assms] by (simp add: sys_inv_def sv_inv_def reg_ok_def)

theorem server_sessions_witness:
  "\<exists>w1 w. server_new ex_config addr addr zeros ex_outside = Inr w1 \<and> server_reach ex_env w1 w \<and>
     ex_status w 1 = Some CONNECTED \<and>
     distinct (w_registry w) \<and> set (w_registry w) = ready w \<and> inj_on (sessionKey w) (ready w)"
  by (rule ex_run_reaches) (use server_sessions [OF ex_boot, of ex_outside] in \<open>auto simp: ex_start_def\<close>)

text \<open>C9: The state of every transaction in every reachable state: a free one is as new; a connected
  one has nothing but a status and a handshake timer; a ready one has a terminated, non-empty session
  and a user; one that is over has been cleared.  Every timer a transaction names is one that the
  timer manager has issued.\<close>

theorem server_transactions:
  assumes "boot_ok cfg timerAddr nodeAddr mem" and "server_new cfg timerAddr nodeAddr mem w0 = Inr w1"
    and "server_reach e w1 w" and "w_nodes w p = Some n"
  shows "tx_ok (issued (w_timers w)) (n_transaction n)"
  using sv_invD(3) [of w p "n_transaction n"] reach_inv [OF assms(1-3)] assms(4) by (simp add: sys_inv_def txs_def)

theorem server_transactions_witness:
  "\<exists>w1 w n. server_new ex_config addr addr zeros ex_outside = Inr w1 \<and> server_reach ex_env w1 w \<and>
     w_nodes w 1 = Some n \<and> tx_ok (issued (w_timers w)) (n_transaction n) \<and> t_status (n_transaction n) = CONNECTED"
  by (rule ex_run_reaches)
    (use server_transactions [OF ex_boot, of ex_outside] in \<open>fastforce simp: ex_start_def ex_status_def\<close>)

text \<open>C10: Nodes are recycled clean.  In every reachable state the free nodes of the pool are distinct
  nodes of the server and each has a transaction as new, so the assertions of
  \<open>CTransaction::onAttach\<close> hold for the next connection.\<close>

theorem server_free_nodes:
  assumes "boot_ok cfg timerAddr nodeAddr mem" and "server_new cfg timerAddr nodeAddr mem w0 = Inr w1"
    and "server_reach e w1 w" and "p \<in> set (freeDeque (w_res w))"
  shows "distinct (freeDeque (w_res w)) \<and> (\<exists>n. w_nodes w p = Some n \<and> n_transaction n = CTransaction_new)"
  using reach_inv [OF assms(1-3)] assms(4) by (auto simp: sys_inv_def pool_wf_def txs_def)

theorem server_free_nodes_witness:
  "\<exists>w1 w. server_new ex_config addr addr zeros ex_outside = Inr w1 \<and> server_reach ex_env w1 w \<and>
     2 \<in> set (freeDeque (w_res w)) \<and> ex_status w 1 = Some CONNECTED \<and>
     distinct (freeDeque (w_res w)) \<and> (\<exists>n. w_nodes w 2 = Some n \<and> n_transaction n = CTransaction_new)"
  by (rule ex_run_reaches) (use server_free_nodes [OF ex_boot, of ex_outside _ ex_env _ 2] in \<open>fastforce simp: ex_start_def\<close>)

text \<open>C11: The queue between the threads never loses its framing.  In every reachable state the bytes
  in a group's queue are a sequence of whole messages, each as long as its header says, within
  the maximal length, and addressed to a node of the server.\<close>

theorem server_frames:
  assumes "boot_ok cfg timerAddr nodeAddr mem" and "server_new cfg timerAddr nodeAddr mem w0 = Inr w1"
    and "server_reach e w1 w" and "g < length (w_groups w)"
  shows "\<exists>ms. contents (g_queue (w_groups w ! g)) = concat ms \<and> list_all (frame w) ms"
  using sys_invD(5) [OF reach_inv [OF assms(1-3)] assms(4)] by (auto simp: framed_def list_all_iff)

theorem server_frames_witness:
  "\<exists>w1 w ms. server_new ex_config addr addr zeros ex_outside = Inr w1 \<and> server_reach ex_env w1 w \<and>
     usedSize (g_queue (w_groups w ! 0)) = of_nat sizeof_TPDUHandShake \<and>
     contents (g_queue (w_groups w ! 0)) = concat ms \<and> list_all (frame w) ms"
proof (rule ex_run_reaches)
  fix w1 w assume w: "ex_start = Inr w1" "server_reach ex_env w1 w"
    "map (\<lambda>x. usedSize (g_queue x)) (w_groups w) = [of_nat sizeof_TPDUHandShake]"
  then have "0 < length (w_groups w)" "usedSize (g_queue (w_groups w ! 0)) = of_nat sizeof_TPDUHandShake" by auto
  then show ?thesis using server_frames [OF ex_boot w(1) [unfolded ex_start_def] w(2), of 0] w by (auto simp: ex_start_def)
qed

text \<open>C21: A group's thread takes exactly the first message of its queue: it is handed to
  \<open>dispatch\<close> at the start of the group's buffer, and the queue keeps the others.\<close>

theorem rolling_queue_dispatches:
  assumes "g < length (w_groups w)" and "framed w (m # ms) (w_groups w ! g)"
  shows "\<exists>x. take (length m) (g_buffer x) = m \<and> framed w ms x \<and> g_container x = g_container (w_groups w ! g) \<and>
     CNodeGroup_rollingQueue e g w =
       bindR (dispatch e (g_buffer x) (w\<lparr>w_groups := (w_groups w)[g := x]\<rparr>)) (\<lambda>(_, w'). Inr (True, w'))"
proof -
  let ?run = "\<lambda>x. bindR (dispatch e (g_buffer x) (w\<lparr>w_groups := (w_groups w)[g := x]\<rparr>)) (\<lambda>(_, w'). Inr (True, w'))"
  have "length m \<le> length (g_buffer (w_groups w ! g))" using assms(2) by (auto simp: framed_def frame_def)
  then have buf: "take (length m) (overwrite (g_buffer (w_groups w ! g)) 0 m) = m" by (simp add: overwrite_def)
  have "wp (\<lambda>f. \<exists>x. take (length m) (g_buffer x) = m \<and> framed w ms x \<and> g_container x = g_container (w_groups w ! g) \<and> ?run x = Inl f)
      (CNodeGroup_rollingQueue e g)
      (\<lambda>b w'. \<exists>x. take (length m) (g_buffer x) = m \<and> framed w ms x \<and> g_container x = g_container (w_groups w ! g) \<and> ?run x = Inr (b, w')) w"
  proof (rule wp_rollingQueue [OF assms], goal_cases)
    case (1 q x)
    then have "take (length m) (g_buffer x) = m" "g_container x = g_container (w_groups w ! g)" using buf by simp_all
    then show ?case using 1(2) unfolding wp_def
      by (auto simp: bindR_def split: sum.splits intro!: exI [of _ x])
  qed
  then show ?thesis by (cases "CNodeGroup_rollingQueue e g w") (auto simp: wp_def)
qed

theorem rolling_queue_dispatches_witness:
  "\<exists>x. take 29 (g_buffer x) = ex_ping 1 \<and> framed (ex_world (ex_ping 1) []) [] x \<and>
     CNodeGroup_rollingQueue ex_env 0 (ex_world (ex_ping 1) []) =
       bindR (dispatch ex_env (g_buffer x) ((ex_world (ex_ping 1) [])\<lparr>w_groups := [x]\<rparr>)) (\<lambda>(_, w'). Inr (True, w'))"
  using rolling_queue_dispatches [OF _ ex_world_framed [of "[]"], of ex_env] by (auto simp: ex_ping_facts ex_world_def)

text \<open>C2: Reassembly of the stream.  A node that holds the start \<open>s\<close> of a message receives bytes in
  any pieces \<open>cs\<close>.  If together they are the messages \<open>ms\<close> and the start \<open>t\<close> of another one, and
  the queue of its group has room, then \<open>recv\<close> returns true, the queue gains exactly these messages,
  in order and stamped with the node, the node holds \<open>t\<close>, everything that had arrived is
  consumed, and nothing else changes.\<close>

theorem recv_stream:
  assumes "w_nodes w p = Some n" and "n_group n = Some g" and "holds n s"
    and "w_in w (n_fd n) = map Arrived cs" and "[] \<notin> set cs"
    and "s @ concat cs = concat ms @ t" and "list_all wire_msg ms" and "partial t"
    and "g < length (w_groups w)" and "lb_plain (g_queue (w_groups w ! g))"
    and "length (contents (g_queue (w_groups w ! g))) + length (concat ms) \<le> unat (totalSize (g_queue (w_groups w ! g)))"
  shows "\<exists>q n'. CNode_recv p w =
       Inr (True, w\<lparr>w_nodes := (w_nodes w)(p \<mapsto> n'), w_in := (w_in w)(n_fd n := []),
                    w_groups := (w_groups w)[g := (w_groups w ! g)\<lparr>g_queue := q\<rparr>]\<rparr>) \<and>
     holds n' t \<and> n_transaction n' = n_transaction n \<and>
     contents q = contents (g_queue (w_groups w ! g)) @ concat (map (stamp p) ms)"
proof -
  obtain q n' where r: "CNode_recv p w = Inr (True, received g q p n' w)" "holds n' t" "n_fd n' = n_fd n"
      "n_transaction n' = n_transaction n"
      "contents q = contents (g_queue (w_groups w ! g)) @ concat (map (stamp p) ms)"
    using recv_reassembles [OF assms(1-6) _ assms(8-11)] assms(7) by (auto simp: list_all_iff)
  then show ?thesis by (intro exI [of _ q] exI [of _ n']) (simp add: received_def queued_def)
qed

theorem recv_stream_witness:
  "\<exists>q n' w. CNode_recv 1 (ex_world [] [take 10 (ex_ping 0), drop 10 (ex_ping 0) @ take 3 (ex_ping 0)]) = Inr (True, w) \<and>
     w_nodes w 1 = Some n' \<and> holds n' (take 3 (ex_ping 0)) \<and> g_queue (w_groups w ! 0) = q \<and> contents q = ex_ping 1"
proof -
  have "wire_msg (take 3 (ex_ping 0) @ drop 3 (ex_ping 0))" "drop 3 (ex_ping 0) \<noteq> []"
    by (simp_all add: wire_msg_def ex_ping_facts layout)
  then have pt: "partial (take 3 (ex_ping 0))" unfolding partial_def by blast
  have st: "stamp 1 (ex_ping 0) = ex_ping 1"
    by (simp add: stamp_def patchHeader_def ex_ping_facts) (simp add: ex_ping_def layout)
  have ne: "[] \<notin> set [take 10 (ex_ping 0), drop 10 (ex_ping 0) @ take 3 (ex_ping 0)]"
    using ex_ping_facts(1) [of 0] by (auto simp: take_eq_Nil)
  have gp: "lb_plain (g_queue (ex_group []))" "contents (g_queue (ex_group [])) = []" "totalSize (g_queue (ex_group [])) = 64"
    using ex_group_plain [of "[]"] by (simp_all add: ex_group_def)
  let ?w = "ex_world [] [take 10 (ex_ping 0), drop 10 (ex_ping 0) @ take 3 (ex_ping 0)]"
  have w: "w_nodes ?w 1 = Some ex_node" "w_groups ?w ! 0 = ex_group []" "0 < length (w_groups ?w)" "n_group ex_node = Some 0"
    "w_in ?w (n_fd ex_node) = map Arrived [take 10 (ex_ping 0), drop 10 (ex_ping 0) @ take 3 (ex_ping 0)]"
    by (simp_all add: ex_world_def ex_node_def)
  show ?thesis
    using recv_stream [OF w(1,4) ex_node_holds w(5) ne, of "[ex_ping 0]", OF _ _ pt w(3)] w gp st
    by (fastforce simp: wire_msg_def ex_ping_facts layout simp del: map_eq_Cons_conv)
qed

text \<open>C31: The loop of \<open>recv\<close> ends, whatever has arrived and whatever state the node is in: the
  iterations never exceed the bytes that arrived, which is the bound the model runs with.\<close>

theorem recv_terminates: "CNode_recv p w \<noteq> Inl StackOverflow"
  by (rule recv_ends)

text \<open>C33: \<open>send\<close> writes a prefix of the message, with its \<open>ext\<close> field cleared, to the node's
  descriptor and to no other, and returns true exactly when that is the whole message.  It fails only on
  an error code that the code does not expect.\<close>

theorem send_prefix:
  assumes "w_nodes w p = Some n" and "sizeof_THeader \<le> length msg"
    and "hd_size (THeader_at msg) \<noteq> 0" and "unat (hd_size (THeader_at msg)) \<le> length msg"
  shows "case CNode_send p msg w of
      Inl f \<Rightarrow> f = AssertFail \<and> (SendErr EISDIR \<in> set (w_out w (n_fd n)) \<or> SendErr OtherErrno \<in> set (w_out w (n_fd n)))
    | Inr (ok, w') \<Rightarrow> \<exists>out evs k.
        w' = w\<lparr>w_out := (w_out w)(n_fd n := evs), w_wire := (w_wire w)(n_fd n := w_wire w (n_fd n) @ out)\<rparr> \<and>
        out = take k (take (unat (hd_size (THeader_at msg))) (patchHeader (\<lambda>h. h\<lparr>hd_ext := 0\<rparr>) msg)) \<and>
        (ok \<longleftrightarrow> out = take (unat (hd_size (THeader_at msg))) (patchHeader (\<lambda>h. h\<lparr>hd_ext := 0\<rparr>) msg))"
proof -
  let ?m = "patchHeader (\<lambda>h. h\<lparr>hd_ext := 0\<rparr>) msg" and ?len = "unat (hd_size (THeader_at msg))"
  have "length ?m = length msg" using assms(2) by simp
  then have "take ?len ?m \<noteq> []" using assms by (cases ?m) (auto simp: word_eq_unat)
  from sendLoop_spec [OF this, of "w_out w (n_fd n)"] show ?thesis
    using assms by (auto simp: CNode_send_def bindM_def getNode_def bindR_def Let_def split: sum.splits)
qed

theorem send_prefix_witness:
  "case CNode_send 1 (ex_ping 1) ((ex_world [] [])\<lparr>w_out := (\<lambda>_. [Accepts 5, SendErr EAGAIN, SendErr EPIPE])\<rparr>) of
     Inl f \<Rightarrow> False
   | Inr (ok, w') \<Rightarrow> \<exists>k. w_wire w' 7 = take k (ex_ping 0) \<and> (ok \<longleftrightarrow> w_wire w' 7 = ex_ping 0)"
proof -
  let ?w = "(ex_world [] [])\<lparr>w_out := (\<lambda>_. [Accepts 5, SendErr EAGAIN, SendErr EPIPE])\<rparr>"
  have n: "w_nodes ?w 1 = Some ex_node" "n_fd ex_node = 7" by (simp_all add: ex_world_def ex_node_def)
  have pm: "patchHeader (\<lambda>h. h\<lparr>hd_ext := 0\<rparr>) (ex_ping 1) = ex_ping 0"
    by (simp add: patchHeader_def ex_ping_facts) (simp add: ex_ping_def layout)
  have "w_wire ?w 7 = []" by (simp add: ex_world_def ex_outside_def)
  then show ?thesis
    using send_prefix [OF n(1), of "ex_ping 1"] n(2)
    by (auto simp: ex_ping_facts pm layout split: sum.splits)
qed

end
